(* ===== verification/Prelude.thy ===== *)
theory Prelude
  imports Main "HOL-Library.Monad_Syntax"
begin

text \<open>
  Shared vocabulary of the development: C arrays with cells that may be uninitialised,
  the two checked accesses to them, and the lemmas by which array loops are summarised as
  operations on lists.

  A computation that may fail has an \<open>option\<close> result. \<open>None\<close> stands for every way
  in which the code does not return normally: an access outside an array or through a
  dangling or null pointer, a read of a cell that was never written, a failed allocation
  (the code calls \<open>exit\<close>), a failed \<open>assert\<close>, a loop that does not end. The theorems
  that an operation gives \<open>Some\<close> therefore say that none of this happens.
\<close>

named_theorems arr_simps \<open>accesses to C arrays whose first cells are known\<close>
named_theorems flat_simps \<open>the in-order reading of trees and of tree contexts\<close>
named_theorems tid_simps \<open>fields of a TID word\<close>

section \<open>Addresses\<close>

type_synonym addr = nat

abbreviation (input) NULL :: addr where "NULL \<equiv> 0"

section \<open>Arrays with uninitialised cells\<close>

type_synonym 'a carray = "'a option list"

definition rd :: "'a carray \<Rightarrow> nat \<Rightarrow> 'a option" where
  "rd a i = (if i < length a then a ! i else None)"

definition wr :: "'a carray \<Rightarrow> nat \<Rightarrow> 'a \<Rightarrow> 'a carray option" where
  "wr a i x = (if i < length a then Some (a[i := Some x]) else None)"

definition new_array :: "nat \<Rightarrow> 'a carray" where
  "new_array n = replicate n None"

text \<open>\<open>arr n xs a\<close>: an array of \<open>n\<close> cells whose first cells hold \<open>xs\<close>.\<close>

definition arr :: "nat \<Rightarrow> 'a list \<Rightarrow> 'a carray \<Rightarrow> bool" where
  "arr n xs a \<longleftrightarrow> length a = n \<and> take (length xs) a = map Some xs"

lemma arr_length: "arr n xs a \<Longrightarrow> length a = n"
  by (simp add: arr_def)

lemma arr_le: "arr n xs a \<Longrightarrow> length xs \<le> n"
  by (auto simp: arr_def dest!: arg_cong [where f = length])

lemma arr_nth: "arr n xs a \<Longrightarrow> i < length xs \<Longrightarrow> a ! i = Some (xs ! i)"
  unfolding arr_def by (metis nth_map nth_take)

lemma arrI:
  assumes "length a = n" "length xs \<le> n" "\<And>i. i < length xs \<Longrightarrow> a ! i = Some (xs ! i)"
  shows "arr n xs a"
  using assms by (auto simp: arr_def intro!: nth_equalityI)

lemma arr_iff:
  "arr n xs a \<longleftrightarrow> length a = n \<and> length xs \<le> n \<and> (\<forall>i < length xs. a ! i = Some (xs ! i))"
  using arr_length arr_le arr_nth arrI by blast

lemma arr_rd [arr_simps]: "arr n xs a \<Longrightarrow> i < length xs \<Longrightarrow> rd a i = Some (xs ! i)"
  using arr_le [of n xs a] by (auto simp: rd_def arr_nth arr_length)

lemma arr_Nil [simp]: "arr n [] a \<longleftrightarrow> length a = n"
  by (simp add: arr_def)

lemma arr_new_array [simp]: "arr n [] (new_array n)"
  by (simp add: new_array_def)

lemma length_new_array [simp]: "length (new_array n) = n"
  by (simp add: new_array_def)

lemma rd_wr_eq [arr_simps]: "wr a i x = Some b \<Longrightarrow> rd b j = (if j = i then Some x else rd a j)"
  by (auto simp: wr_def rd_def split: if_splits)

lemma wr_Some [arr_simps]: "i < length a \<Longrightarrow> wr a i x = Some (a[i := Some x])"
  by (simp add: wr_def)

lemma rd_update: "rd (a[i := Some x]) j = (if j = i \<and> i < length a then Some x else rd a j)"
  by (auto simp: rd_def)

text \<open>\<open>blit src si dst di n\<close>: \<open>n\<close> cells of \<open>src\<close> from \<open>si\<close> over those of \<open>dst\<close> from \<open>di\<close>.\<close>

definition blit :: "'a list \<Rightarrow> nat \<Rightarrow> 'a list \<Rightarrow> nat \<Rightarrow> nat \<Rightarrow> 'a list" where
  "blit src si dst di n = take di dst @ take n (drop si src) @ drop (di + n) dst"

lemma length_blit [simp]:
  "si + n \<le> length src \<Longrightarrow> di + n \<le> length dst \<Longrightarrow> length (blit src si dst di n) = length dst"
  by (simp add: blit_def)

lemma nth_blit:
  assumes "si + n \<le> length src" "di + n \<le> length dst" "i < length dst"
  shows "blit src si dst di n ! i = (if di \<le> i \<and> i < di + n then src ! (si + (i - di)) else dst ! i)"
proof -
  have "length (take di dst) = di" "length (take n (drop si src)) = n"
    using assms by auto
  moreover have "drop (di + n) dst ! (i - (di + n)) = dst ! i" if "di + n \<le> i"
    using assms that by simp
  ultimately show ?thesis
    unfolding blit_def nth_append using assms by (auto simp: not_less)
qed

lemma blit_0 [simp]: "di \<le> length dst \<Longrightarrow> blit src si dst di 0 = dst"
  by (simp add: blit_def)

lemma nth_insert_list:
  "i < Suc (length xs) \<Longrightarrow> p \<le> length xs \<Longrightarrow>
   (take p xs @ x # drop p xs) ! i = (if i < p then xs ! i else if i = p then x else xs ! (i - 1))"
  by (auto simp: nth_append min_def nth_Cons')

section \<open>Scans of a sorted array\<close>

text \<open>\<open>while (i < n \<and> a[i] < key) i++\<close>\<close>

function scan_lt :: "'k::linorder carray \<Rightarrow> nat \<Rightarrow> 'k \<Rightarrow> nat \<Rightarrow> nat option" where
  "scan_lt a n key i =
     (if i < n
      then do { k \<leftarrow> rd a i; if k < key then scan_lt a n key (Suc i) else Some i }
      else Some i)"
  by pat_completeness auto
termination
  by (relation "measure (\<lambda>(a, n, key, i). n - i)") auto

text \<open>\<open>while (i < n) { if (key >= a[i]) i++; else break; }\<close>\<close>

function scan_ge :: "'k::linorder carray \<Rightarrow> nat \<Rightarrow> 'k \<Rightarrow> nat \<Rightarrow> nat option" where
  "scan_ge a n key i =
     (if i < n
      then do { k \<leftarrow> rd a i; if key \<ge> k then scan_ge a n key (Suc i) else Some i }
      else Some i)"
  by pat_completeness auto
termination
  by (relation "measure (\<lambda>(a, n, key, i). n - i)") auto

text \<open>\<open>for (i = \<dots>; i < n; i++) if (a[i] == x) break;\<close>\<close>

function scan_eq :: "'k carray \<Rightarrow> nat \<Rightarrow> 'k \<Rightarrow> nat \<Rightarrow> nat option" where
  "scan_eq a n x i =
     (if i < n
      then do { k \<leftarrow> rd a i; if k = x then Some i else scan_eq a n x (Suc i) }
      else Some i)"
  by pat_completeness auto
termination
  by (relation "measure (\<lambda>(a, n, x, i). n - i)") auto

declare scan_lt.simps [simp del] scan_ge.simps [simp del] scan_eq.simps [simp del]

lemma scan_lt_split:
  assumes "arr m (xs @ ys) a" "n = length (xs @ ys)" "i \<le> length xs"
    and "\<forall>x \<in> set xs. x < key" "ys \<noteq> [] \<longrightarrow> \<not> hd ys < key"
  shows "scan_lt a n key i = Some (length xs)"
  using assms(3)
proof (induction "length xs - i" arbitrary: i)
  case 0
  then have i: "i = length xs" by simp
  show ?case
  proof (cases ys)
    case Nil
    with i assms(2) show ?thesis by (subst scan_lt.simps) simp
  next
    case (Cons y ys')
    with assms i show ?thesis
      by (subst scan_lt.simps) (simp add: arr_rd [OF assms(1)] nth_append)
  qed
next
  case (Suc d)
  then have i: "i < length xs" by simp
  with assms(4) have "xs ! i < key" by simp
  with Suc i assms(1,2) show ?case
    by (subst scan_lt.simps) (simp add: arr_rd [OF assms(1)] nth_append)
qed

lemma scan_ge_split:
  assumes "arr m (xs @ ys) a" "n = length (xs @ ys)" "i \<le> length xs"
    and "\<forall>x \<in> set xs. x \<le> key" "ys \<noteq> [] \<longrightarrow> key < hd ys"
  shows "scan_ge a n key i = Some (length xs)"
  using assms(3)
proof (induction "length xs - i" arbitrary: i)
  case 0
  then have i: "i = length xs" by simp
  show ?case
  proof (cases ys)
    case Nil
    with i assms(2) show ?thesis by (subst scan_ge.simps) simp
  next
    case (Cons y ys')
    with assms i show ?thesis
      by (subst scan_ge.simps) (auto simp: arr_rd [OF assms(1)] nth_append)
  qed
next
  case (Suc d)
  then have i: "i < length xs" by simp
  with assms(4) have "xs ! i \<le> key" by simp
  with Suc i assms(1,2) show ?case
    by (subst scan_ge.simps) (simp add: arr_rd [OF assms(1)] nth_append)
qed

lemma scan_eq_split:
  assumes "arr m (xs @ ys) a" "n = length (xs @ ys)" "i \<le> length xs"
    and "x \<notin> set xs" "ys \<noteq> [] \<longrightarrow> hd ys = x"
  shows "scan_eq a n x i = Some (length xs)"
  using assms(3)
proof (induction "length xs - i" arbitrary: i)
  case 0
  then have i: "i = length xs" by simp
  show ?case
  proof (cases ys)
    case Nil
    with i assms(2) show ?thesis by (subst scan_eq.simps) simp
  next
    case (Cons y ys')
    with assms i show ?thesis
      by (subst scan_eq.simps) (simp add: arr_rd [OF assms(1)] nth_append)
  qed
next
  case (Suc d)
  then have i: "i < length xs" by simp
  with assms(4) have "xs ! i \<noteq> x" by (metis nth_mem)
  with Suc i assms(1,2) show ?case
    by (subst scan_eq.simps) (simp add: arr_rd [OF assms(1)] nth_append)
qed

lemma sorted_split_lt:
  fixes key :: "'k::linorder"
  assumes "sorted_wrt (<) ks"
  obtains xs ys where "ks = xs @ ys" "\<forall>x \<in> set xs. x < key" "\<forall>y \<in> set ys. key \<le> y"
proof
  show "ks = takeWhile (\<lambda>k. k < key) ks @ dropWhile (\<lambda>k. k < key) ks" by simp
  show "\<forall>x \<in> set (takeWhile (\<lambda>k. k < key) ks). x < key" by (meson set_takeWhileD)
next
  have "sorted ks" using assms by (rule strict_sorted_imp_sorted)
  then have s: "sorted (dropWhile (\<lambda>k. k < key) ks)" by (rule sorted_dropWhile)
  show "\<forall>y \<in> set (dropWhile (\<lambda>k. k < key) ks). key \<le> y"
  proof (cases "dropWhile (\<lambda>k. k < key) ks")
    case (Cons y ys)
    then have "\<not> y < key" by (metis hd_dropWhile list.distinct(1) list.sel(1))
    with s Cons show ?thesis by auto
  qed (simp only: set_simps ball_simps)
qed

lemma sorted_split_le:
  fixes key :: "'k::linorder"
  assumes "sorted_wrt (<) ks"
  obtains xs ys where "ks = xs @ ys" "\<forall>x \<in> set xs. x \<le> key" "\<forall>y \<in> set ys. key < y"
proof
  show "ks = takeWhile (\<lambda>k. k \<le> key) ks @ dropWhile (\<lambda>k. k \<le> key) ks" by simp
  show "\<forall>x \<in> set (takeWhile (\<lambda>k. k \<le> key) ks). x \<le> key" by (meson set_takeWhileD)
next
  have "sorted ks" using assms by (rule strict_sorted_imp_sorted)
  then have s: "sorted (dropWhile (\<lambda>k. k \<le> key) ks)" by (rule sorted_dropWhile)
  show "\<forall>y \<in> set (dropWhile (\<lambda>k. k \<le> key) ks). key < y"
  proof (cases "dropWhile (\<lambda>k. k \<le> key) ks")
    case (Cons y ys)
    then have "\<not> y \<le> key" by (metis hd_dropWhile list.distinct(1) list.sel(1))
    with s Cons show ?thesis by auto
  qed (simp only: set_simps ball_simps)
qed

section \<open>Prefixes and suffixes by index\<close>

lemma set_drop_Suc: "distinct xs \<Longrightarrow> i < length xs \<Longrightarrow> set (drop (Suc i) xs) = set (drop i xs) - {xs ! i}"
  using Cons_nth_drop_Suc [of i xs] distinct_drop [of xs i] by (metis Diff_insert_absorb distinct.simps(2) list.simps(15))

lemma set_take_Suc: "i < length xs \<Longrightarrow> set (take (Suc i) xs) = insert (xs ! i) (set (take i xs))"
  by (simp add: take_Suc_conv_app_nth)

lemma nth_in_drop: "i < length xs \<Longrightarrow> xs ! i \<in> set (drop i xs)"
  by (metis Cons_nth_drop_Suc list.set_intros(1))

end
