(* ===== verification/BPTree.thy ===== *)
theory BPTree
  imports Prelude
begin

text \<open>
  The B+ tree of \<^verbatim>\<open>bptree/main.c\<close> on an explicit heap: every function of the file that
  reads or changes the tree, from \<open>find_leaf\<close> to \<open>destroy_tree\<close>, with its loops over the
  key and pointer arrays, its parent pointers and its chain of leaves.
  \<^verbatim>\<open>kvsilo/primary_tree.cpp\<close> is the same algorithm; its model (theory \<open>PrimaryTree\<close>) uses
  the node operations of this theory at \<open>order = 4\<close>.

  Conventions.
  \<^item> The global \<open>order\<close>, constant once \<open>main\<close> has read its arguments, is the parameter
    \<open>ord\<close>. Keys are compared only, so their type is any linear order (C \<open>int\<close> and C++
    \<open>size_t\<close> are instances).
  \<^item> A pointer is an address; nodes and records live in two maps, so a \<^verbatim>\<open>void *\<close> read out
    of a pointer array is looked up in the map its cast selects.
  \<^item> \<open>malloc\<close> hands out fresh addresses; it fails at the addresses of \<open>oom\<close>, and a failure
    ends the program as \<open>exit(EXIT_FAILURE)\<close> does. \<open>free\<close> removes the block, so a later
    access to it fails.
  \<^item> A loop over an array of a node is a recursive function on the array; a node is read
    from the heap, its arrays are changed, and it is written back. The output of the
    \<open>verbose\<close> flag is left out.
\<close>

section \<open>Data\<close>

record 'k node =
  pointers :: "addr carray"
  keys :: "'k carray"
  parent :: addr
  is_leaf :: bool
  num_keys :: nat
  qnext :: addr  \<comment> \<open>field \<open>next\<close>, used for the printing queue\<close>

record bpt_record =
  rec_value :: int

record ('k, 'r) heap =
  nodes :: "addr \<rightharpoonup> 'k node"
  recs :: "addr \<rightharpoonup> 'r"
  brk :: addr            \<comment> \<open>next address \<open>malloc\<close> will give\<close>
  oom :: "addr \<Rightarrow> bool"  \<comment> \<open>the allocations that fail\<close>
  malloc_temps :: bool    \<comment> \<open>temporary arrays come from \<open>malloc\<close>, not from the stack\<close>

definition put :: "('k, 'r) heap \<Rightarrow> addr \<Rightarrow> 'k node \<Rightarrow> ('k, 'r) heap" where
  "put h p n = h\<lparr>nodes := (nodes h)(p \<mapsto> n)\<rparr>"

definition malloc :: "('k, 'r) heap \<Rightarrow> (addr \<times> ('k, 'r) heap) option" where
  "malloc h = (if oom h (brk h) then None else Some (brk h, h\<lparr>brk := Suc (brk h)\<rparr>))"

text \<open>
  The two temporary arrays of a split: \<^verbatim>\<open>main.c\<close> allocates them, in \<^verbatim>\<open>primary_tree.cpp\<close> they are
  automatic variables.
\<close>

definition temp_arrays :: "('k, 'r) heap \<Rightarrow> ('k, 'r) heap option" where
  "temp_arrays h = (if malloc_temps h then do { (_, h) \<leftarrow> malloc h; (_, h) \<leftarrow> malloc h; Some h } else Some h)"

definition free_node :: "('k, 'r) heap \<Rightarrow> addr \<Rightarrow> ('k, 'r) heap option" where
  "free_node h p = do { _ \<leftarrow> nodes h p; Some (h\<lparr>nodes := (nodes h)(p := None)\<rparr>) }"

definition free_rec :: "('k, 'r) heap \<Rightarrow> addr \<Rightarrow> ('k, 'r) heap option" where
  "free_rec h p = do { _ \<leftarrow> recs h p; Some (h\<lparr>recs := (recs h)(p := None)\<rparr>) }"

section \<open>Search\<close>

definition cut :: "nat \<Rightarrow> nat" where
  "cut len = (if len mod 2 = 0 then len div 2 else len div 2 + 1)"

partial_function (option) find_leaf_loop :: "('k::linorder, 'r) heap \<Rightarrow> 'k \<Rightarrow> addr \<Rightarrow> addr option" where
  "find_leaf_loop h key c = do {
     n \<leftarrow> nodes h c;
     if is_leaf n then Some c
     else do {
       i \<leftarrow> scan_ge (keys n) (num_keys n) key 0;
       q \<leftarrow> rd (pointers n) i;
       find_leaf_loop h key q
     }
   }"

definition find_leaf :: "('k::linorder, 'r) heap \<Rightarrow> addr \<Rightarrow> 'k \<Rightarrow> addr option" where
  "find_leaf h root key = (if root = NULL then Some root else find_leaf_loop h key root)"

text \<open>\<open>find\<close> returns the record and, through \<open>leaf_out\<close>, the leaf.\<close>

definition find_bpt :: "('k::linorder, 'r) heap \<Rightarrow> addr \<Rightarrow> 'k \<Rightarrow> (addr \<times> addr) option" where
  "find_bpt h root key =
     (if root = NULL then Some (NULL, NULL)
      else do {
        leaf \<leftarrow> find_leaf h root key;
        n \<leftarrow> nodes h leaf;
        i \<leftarrow> scan_eq (keys n) (num_keys n) key 0;
        if i = num_keys n then Some (NULL, leaf)
        else do { p \<leftarrow> rd (pointers n) i; Some (p, leaf) }
      })"

text \<open>
  \<open>find_range\<close> fills the two arrays of its caller; \<open>range_leaf\<close> is its inner loop, over
  one leaf, and \<open>range_loop\<close> the outer one, along the chain of leaves.
\<close>

function range_leaf ::
  "'k::linorder carray \<Rightarrow> addr carray \<Rightarrow> nat \<Rightarrow> 'k \<Rightarrow> nat \<Rightarrow> 'k carray \<Rightarrow> addr carray \<Rightarrow> nat
   \<Rightarrow> ('k carray \<times> addr carray \<times> nat) option" where
  "range_leaf ks ps nk key_end i rk rp num_found =
     (if i < nk
      then do {
        k \<leftarrow> rd ks i;
        if k \<le> key_end
        then do {
          rk \<leftarrow> wr rk num_found k;
          p \<leftarrow> rd ps i;
          rp \<leftarrow> wr rp num_found p;
          range_leaf ks ps nk key_end (Suc i) rk rp (Suc num_found)
        }
        else Some (rk, rp, num_found)
      }
      else Some (rk, rp, num_found))"
  by pat_completeness auto
termination
  by (relation "measure (\<lambda>(ks, ps, nk, key_end, i, rk, rp, num_found). nk - i)") auto

partial_function (option) range_loop ::
  "nat \<Rightarrow> ('k::linorder, 'r) heap \<Rightarrow> 'k \<Rightarrow> addr \<Rightarrow> nat \<Rightarrow> 'k carray \<Rightarrow> addr carray \<Rightarrow> nat
   \<Rightarrow> ('k carray \<times> addr carray \<times> nat) option" where
  "range_loop ord h key_end p i rk rp num_found =
     (if p = NULL then Some (rk, rp, num_found)
      else do {
        n \<leftarrow> nodes h p;
        (rk, rp, num_found) \<leftarrow> range_leaf (keys n) (pointers n) (num_keys n) key_end i rk rp num_found;
        q \<leftarrow> rd (pointers n) (ord - 1);
        range_loop ord h key_end q 0 rk rp num_found
      })"

definition find_range ::
  "nat \<Rightarrow> ('k::linorder, 'r) heap \<Rightarrow> addr \<Rightarrow> 'k \<Rightarrow> 'k \<Rightarrow> 'k carray \<Rightarrow> addr carray
   \<Rightarrow> ('k carray \<times> addr carray \<times> nat) option" where
  "find_range ord h root key_start key_end rk rp = do {
     p \<leftarrow> find_leaf h root key_start;
     if p = NULL then Some (rk, rp, 0)
     else do {
       n \<leftarrow> nodes h p;
       i \<leftarrow> scan_lt (keys n) (num_keys n) key_start 0;
       if i = num_keys n then Some (rk, rp, 0)
       else range_loop ord h key_end p i rk rp 0
     }
   }"

partial_function (option) height_loop :: "('k, 'r) heap \<Rightarrow> addr \<Rightarrow> nat \<Rightarrow> nat option" where
  "height_loop h c ht = do {
     n \<leftarrow> nodes h c;
     if is_leaf n then Some ht
     else do { q \<leftarrow> rd (pointers n) 0; height_loop h q (Suc ht) }
   }"

definition height_bpt :: "('k, 'r) heap \<Rightarrow> addr \<Rightarrow> nat option" where
  "height_bpt h root = height_loop h root 0"

partial_function (option) path_to_root_loop :: "('k, 'r) heap \<Rightarrow> addr \<Rightarrow> addr \<Rightarrow> nat \<Rightarrow> nat option" where
  "path_to_root_loop h root c len =
     (if c = root then Some len
      else do { n \<leftarrow> nodes h c; path_to_root_loop h root (parent n) (Suc len) })"

definition path_to_root :: "('k, 'r) heap \<Rightarrow> addr \<Rightarrow> addr \<Rightarrow> nat option" where
  "path_to_root h root child = path_to_root_loop h root child 0"

section \<open>Creation\<close>

definition make_record :: "('k, 'r) heap \<Rightarrow> 'r \<Rightarrow> (addr \<times> ('k, 'r) heap) option" where
  "make_record h r = do {
     (p, h) \<leftarrow> malloc h;
     Some (p, h\<lparr>recs := (recs h)(p \<mapsto> r)\<rparr>)
   }"

definition make_node :: "nat \<Rightarrow> ('k, 'r) heap \<Rightarrow> (addr \<times> ('k, 'r) heap) option" where
  "make_node ord h = do {
     (p, h) \<leftarrow> malloc h;
     (_, h) \<leftarrow> malloc h;  \<comment> \<open>\<open>keys\<close>\<close>
     (_, h) \<leftarrow> malloc h;  \<comment> \<open>\<open>pointers\<close>\<close>
     Some (p, put h p \<lparr>pointers = new_array ord, keys = new_array (ord - 1), parent = NULL,
                       is_leaf = False, num_keys = 0, qnext = NULL\<rparr>)
   }"

definition make_leaf :: "nat \<Rightarrow> ('k, 'r) heap \<Rightarrow> (addr \<times> ('k, 'r) heap) option" where
  "make_leaf ord h = do {
     (leaf, h) \<leftarrow> make_node ord h;
     n \<leftarrow> nodes h leaf;
     Some (leaf, put h leaf (n\<lparr>is_leaf := True\<rparr>))
   }"

section \<open>Insertion\<close>

definition get_left_index :: "('k, 'r) heap \<Rightarrow> addr \<Rightarrow> addr \<Rightarrow> nat option" where
  "get_left_index h par left = do {
     n \<leftarrow> nodes h par;
     scan_eq (pointers n) (Suc (num_keys n)) left 0
   }"

text \<open>The loop of \<open>insert_into_leaf\<close> that moves the entries up.\<close>

fun shift_up :: "'k carray \<Rightarrow> addr carray \<Rightarrow> nat \<Rightarrow> nat \<Rightarrow> ('k carray \<times> addr carray) option" where
  "shift_up ks ps i ip =
     (if ip < i
      then do {
        k \<leftarrow> rd ks (i - 1);
        ks \<leftarrow> wr ks i k;
        p \<leftarrow> rd ps (i - 1);
        ps \<leftarrow> wr ps i p;
        shift_up ks ps (i - 1) ip
      }
      else Some (ks, ps))"

definition insert_into_leaf ::
  "('k::linorder, 'r) heap \<Rightarrow> addr \<Rightarrow> 'k \<Rightarrow> addr \<Rightarrow> (addr \<times> ('k, 'r) heap) option" where
  "insert_into_leaf h leaf key ptr = do {
     n \<leftarrow> nodes h leaf;
     ip \<leftarrow> scan_lt (keys n) (num_keys n) key 0;
     (ks, ps) \<leftarrow> shift_up (keys n) (pointers n) (num_keys n) ip;
     ks \<leftarrow> wr ks ip key;
     ps \<leftarrow> wr ps ip ptr;
     Some (leaf, put h leaf (n\<lparr>keys := ks, pointers := ps, num_keys := Suc (num_keys n)\<rparr>))
   }"

text \<open>
  \<open>copy_gap\<close>: \<open>for (; i < n; i++, j++) { if (j == gap) j++; dst[j] = src[i]; }\<close>. The loop
  of the leaf split copies the keys and the pointers in one pass; as the arrays are
  disjoint it is one \<open>copy_gap\<close> for each.
\<close>

function copy_gap :: "'a carray \<Rightarrow> 'a carray \<Rightarrow> nat \<Rightarrow> nat \<Rightarrow> nat \<Rightarrow> nat \<Rightarrow> 'a carray option" where
  "copy_gap src dst gap n i j =
     (if i < n
      then do {
        x \<leftarrow> rd src i;
        dst \<leftarrow> wr dst (if j = gap then Suc j else j) x;
        copy_gap src dst gap n (Suc i) (Suc (if j = gap then Suc j else j))
      }
      else Some dst)"
  by pat_completeness auto
termination
  by (relation "measure (\<lambda>(src, dst, gap, n, i, j). n - i)") auto

text \<open>
  \<open>move_entries\<close>: \<open>for (; i < n; i++, j++) { pointers[j] = tp[i]; keys[j] = tk[i]; num_keys++; }\<close>,
  the loop by which the temporary arrays go back into the nodes of a split, with the final
  values of \<open>i\<close> and \<open>j\<close>.
\<close>

function move_entries ::
  "'k carray \<Rightarrow> addr carray \<Rightarrow> 'k carray \<Rightarrow> addr carray \<Rightarrow> nat \<Rightarrow> nat \<Rightarrow> nat \<Rightarrow> nat
   \<Rightarrow> ('k carray \<times> addr carray \<times> nat \<times> nat \<times> nat) option" where
  "move_entries tk tp ks ps nk i j n =
     (if i < n
      then do {
        p \<leftarrow> rd tp i;
        ps \<leftarrow> wr ps j p;
        k \<leftarrow> rd tk i;
        ks \<leftarrow> wr ks j k;
        move_entries tk tp ks ps (Suc nk) (Suc i) (Suc j) n
      }
      else Some (ks, ps, nk, i, j))"
  by pat_completeness auto
termination
  by (relation "measure (\<lambda>(tk, tp, ks, ps, nk, i, j, n). n - i)") auto

text \<open>\<open>for (; i < n; i++) pointers[i] = NULL;\<close>\<close>

function fill_null :: "addr carray \<Rightarrow> nat \<Rightarrow> nat \<Rightarrow> addr carray option" where
  "fill_null ps i n =
     (if i < n then do { ps \<leftarrow> wr ps i NULL; fill_null ps (Suc i) n } else Some ps)"
  by pat_completeness auto
termination
  by (relation "measure (\<lambda>(ps, i, n). n - i)") auto

text \<open>
  \<open>split_leaf\<close> is \<open>insert_into_leaf_after_splitting\<close> up to its call of
  \<open>insert_into_parent\<close>: it returns the key and the node to hand to the parent.
\<close>

definition split_leaf ::
  "nat \<Rightarrow> ('k::linorder, 'r) heap \<Rightarrow> addr \<Rightarrow> 'k \<Rightarrow> addr \<Rightarrow> ('k \<times> addr \<times> ('k, 'r) heap) option" where
  "split_leaf ord h leaf key ptr = do {
     (new_leaf, h) \<leftarrow> make_leaf ord h;
     h \<leftarrow> temp_arrays h;
     n \<leftarrow> nodes h leaf;
     ii \<leftarrow> scan_lt (keys n) (ord - 1) key 0;
     tk \<leftarrow> copy_gap (keys n) (new_array ord) ii (num_keys n) 0 0;
     tp \<leftarrow> copy_gap (pointers n) (new_array ord) ii (num_keys n) 0 0;
     tk \<leftarrow> wr tk ii key;
     tp \<leftarrow> wr tp ii ptr;
     (ks, ps, nk, _, _) \<leftarrow> move_entries tk tp (keys n) (pointers n) 0 0 0 (cut (ord - 1));
     nn \<leftarrow> nodes h new_leaf;
     (ks', ps', nk', _, _) \<leftarrow> move_entries tk tp (keys nn) (pointers nn) (num_keys nn) (cut (ord - 1)) 0 ord;
     nxt \<leftarrow> rd ps (ord - 1);
     ps' \<leftarrow> wr ps' (ord - 1) nxt;
     ps \<leftarrow> wr ps (ord - 1) new_leaf;
     ps \<leftarrow> fill_null ps nk (ord - 1);
     ps' \<leftarrow> fill_null ps' nk' (ord - 1);
     new_key \<leftarrow> rd ks' 0;
     let h = put h leaf (n\<lparr>keys := ks, pointers := ps, num_keys := nk\<rparr>);
     let h = put h new_leaf (nn\<lparr>keys := ks', pointers := ps', num_keys := nk', parent := parent n\<rparr>);
     Some (new_key, new_leaf, h)
   }"

text \<open>The loop of \<open>insert_into_node\<close>; a pointer moves one place beyond its key.\<close>

fun shift_up_node :: "'k carray \<Rightarrow> addr carray \<Rightarrow> nat \<Rightarrow> nat \<Rightarrow> ('k carray \<times> addr carray) option" where
  "shift_up_node ks ps i li =
     (if li < i
      then do {
        p \<leftarrow> rd ps i;
        ps \<leftarrow> wr ps (i + 1) p;
        k \<leftarrow> rd ks (i - 1);
        ks \<leftarrow> wr ks i k;
        shift_up_node ks ps (i - 1) li
      }
      else Some (ks, ps))"

definition insert_into_node ::
  "('k, 'r) heap \<Rightarrow> addr \<Rightarrow> addr \<Rightarrow> nat \<Rightarrow> 'k \<Rightarrow> addr \<Rightarrow> (addr \<times> ('k, 'r) heap) option" where
  "insert_into_node h root p li key right = do {
     n \<leftarrow> nodes h p;
     (ks, ps) \<leftarrow> shift_up_node (keys n) (pointers n) (num_keys n) li;
     ps \<leftarrow> wr ps (li + 1) right;
     ks \<leftarrow> wr ks li key;
     Some (root, put h p (n\<lparr>keys := ks, pointers := ps, num_keys := Suc (num_keys n)\<rparr>))
   }"

text \<open>\<open>for (; i < n; i++) pointers[i]->parent = q;\<close>\<close>

function set_parents :: "('k, 'r) heap \<Rightarrow> addr carray \<Rightarrow> addr \<Rightarrow> nat \<Rightarrow> nat \<Rightarrow> ('k, 'r) heap option" where
  "set_parents h ps q i n =
     (if i < n
      then do {
        child \<leftarrow> rd ps i;
        cn \<leftarrow> nodes h child;
        set_parents (put h child (cn\<lparr>parent := q\<rparr>)) ps q (Suc i) n
      }
      else Some h)"
  by pat_completeness auto
termination
  by (relation "measure (\<lambda>(h, ps, q, i, n). n - i)") auto

declare range_leaf.simps [simp del] shift_up.simps [simp del] copy_gap.simps [simp del]
  move_entries.simps [simp del] fill_null.simps [simp del] shift_up_node.simps [simp del]
  set_parents.simps [simp del]

text \<open>
  \<open>split_node\<close> is \<open>insert_into_node_after_splitting\<close> up to its call of
  \<open>insert_into_parent\<close>, and returns \<open>k_prime\<close> and the new node.
\<close>

definition split_node ::
  "nat \<Rightarrow> ('k, 'r) heap \<Rightarrow> addr \<Rightarrow> nat \<Rightarrow> 'k \<Rightarrow> addr \<Rightarrow> ('k \<times> addr \<times> ('k, 'r) heap) option" where
  "split_node ord h old_node li key right = do {
     h \<leftarrow> temp_arrays h;
     n \<leftarrow> nodes h old_node;
     tp \<leftarrow> copy_gap (pointers n) (new_array (ord + 1)) (li + 1) (num_keys n + 1) 0 0;
     tk \<leftarrow> copy_gap (keys n) (new_array ord) li (num_keys n) 0 0;
     tp \<leftarrow> wr tp (li + 1) right;
     tk \<leftarrow> wr tk li key;
     (new_node, h) \<leftarrow> make_node ord h;
     (ks, ps, nk, i, _) \<leftarrow> move_entries tk tp (keys n) (pointers n) 0 0 0 (cut ord - 1);
     p \<leftarrow> rd tp i;
     ps \<leftarrow> wr ps i p;
     k_prime \<leftarrow> rd tk (cut ord - 1);
     nn \<leftarrow> nodes h new_node;
     (ks', ps', nk', i, j) \<leftarrow> move_entries tk tp (keys nn) (pointers nn) (num_keys nn) (i + 1) 0 ord;
     p \<leftarrow> rd tp i;
     ps' \<leftarrow> wr ps' j p;
     let h = put h old_node (n\<lparr>keys := ks, pointers := ps, num_keys := nk\<rparr>);
     let h = put h new_node (nn\<lparr>keys := ks', pointers := ps', num_keys := nk', parent := parent n\<rparr>);
     h \<leftarrow> set_parents h ps' new_node 0 (nk' + 1);
     Some (k_prime, new_node, h)
   }"

definition insert_into_new_root ::
  "nat \<Rightarrow> ('k, 'r) heap \<Rightarrow> addr \<Rightarrow> 'k \<Rightarrow> addr \<Rightarrow> (addr \<times> ('k, 'r) heap) option" where
  "insert_into_new_root ord h left key right = do {
     (root, h) \<leftarrow> make_node ord h;
     n \<leftarrow> nodes h root;
     ks \<leftarrow> wr (keys n) 0 key;
     ps \<leftarrow> wr (pointers n) 0 left;
     ps \<leftarrow> wr ps 1 right;
     let h = put h root (n\<lparr>keys := ks, pointers := ps, num_keys := Suc (num_keys n), parent := NULL\<rparr>);
     ln \<leftarrow> nodes h left;
     let h = put h left (ln\<lparr>parent := root\<rparr>);
     rn \<leftarrow> nodes h right;
     let h = put h right (rn\<lparr>parent := root\<rparr>);
     Some (root, h)
   }"

text \<open>
  \<open>insert_into_parent\<close> and \<open>insert_into_node_after_splitting\<close> call each other; the
  second is inlined in the first, and stated as an equation afterwards.
\<close>

partial_function (option) insert_into_parent ::
  "nat \<Rightarrow> ('k, 'r) heap \<Rightarrow> addr \<Rightarrow> addr \<Rightarrow> 'k \<Rightarrow> addr \<Rightarrow> (addr \<times> ('k, 'r) heap) option" where
  "insert_into_parent ord h root left key right = do {
     ln \<leftarrow> nodes h left;
     if parent ln = NULL then insert_into_new_root ord h left key right
     else do {
       li \<leftarrow> get_left_index h (parent ln) left;
       pn \<leftarrow> nodes h (parent ln);
       if num_keys pn < ord - 1 then insert_into_node h root (parent ln) li key right
       else do {
         (k_prime, new_node, h) \<leftarrow> split_node ord h (parent ln) li key right;
         insert_into_parent ord h root (parent ln) k_prime new_node
       }
     }
   }"

definition insert_into_node_after_splitting ::
  "nat \<Rightarrow> ('k, 'r) heap \<Rightarrow> addr \<Rightarrow> addr \<Rightarrow> nat \<Rightarrow> 'k \<Rightarrow> addr \<Rightarrow> (addr \<times> ('k, 'r) heap) option" where
  "insert_into_node_after_splitting ord h root old_node li key right = do {
     (k_prime, new_node, h) \<leftarrow> split_node ord h old_node li key right;
     insert_into_parent ord h root old_node k_prime new_node
   }"

definition insert_into_leaf_after_splitting ::
  "nat \<Rightarrow> ('k::linorder, 'r) heap \<Rightarrow> addr \<Rightarrow> addr \<Rightarrow> 'k \<Rightarrow> addr \<Rightarrow> (addr \<times> ('k, 'r) heap) option" where
  "insert_into_leaf_after_splitting ord h root leaf key ptr = do {
     (new_key, new_leaf, h) \<leftarrow> split_leaf ord h leaf key ptr;
     insert_into_parent ord h root leaf new_key new_leaf
   }"

definition start_new_tree ::
  "nat \<Rightarrow> ('k, 'r) heap \<Rightarrow> 'k \<Rightarrow> addr \<Rightarrow> (addr \<times> ('k, 'r) heap) option" where
  "start_new_tree ord h key ptr = do {
     (root, h) \<leftarrow> make_leaf ord h;
     n \<leftarrow> nodes h root;
     ks \<leftarrow> wr (keys n) 0 key;
     ps \<leftarrow> wr (pointers n) 0 ptr;
     ps \<leftarrow> wr ps (ord - 1) NULL;
     Some (root, put h root (n\<lparr>keys := ks, pointers := ps, parent := NULL, num_keys := Suc (num_keys n)\<rparr>))
   }"

text \<open>The part of \<open>insert\<close> that follows the creation of the record.\<close>

definition insert_record ::
  "nat \<Rightarrow> ('k::linorder, 'r) heap \<Rightarrow> addr \<Rightarrow> 'k \<Rightarrow> addr \<Rightarrow> (addr \<times> ('k, 'r) heap) option" where
  "insert_record ord h root key record_pointer =
     (if root = NULL then start_new_tree ord h key record_pointer
      else do {
        leaf \<leftarrow> find_leaf h root key;
        n \<leftarrow> nodes h leaf;
        if num_keys n < ord - 1
        then do {
          (_, h) \<leftarrow> insert_into_leaf h leaf key record_pointer;
          Some (root, h)
        }
        else insert_into_leaf_after_splitting ord h root leaf key record_pointer
      })"

definition insert_bpt ::
  "nat \<Rightarrow> ('k::linorder, bpt_record) heap \<Rightarrow> addr \<Rightarrow> 'k \<Rightarrow> int
   \<Rightarrow> (addr \<times> ('k, bpt_record) heap) option" where
  "insert_bpt ord h root key v = do {
     (record_pointer, _) \<leftarrow> find_bpt h root key;
     if record_pointer \<noteq> NULL
     then do {
       r \<leftarrow> recs h record_pointer;
       Some (root, h\<lparr>recs := (recs h)(record_pointer \<mapsto> r\<lparr>rec_value := v\<rparr>)\<rparr>)
     }
     else do {
       (record_pointer, h) \<leftarrow> make_record h \<lparr>rec_value = v\<rparr>;
       insert_record ord h root key record_pointer
     }
   }"

section \<open>Deletion\<close>

definition get_neighbor_index :: "('k, 'r) heap \<Rightarrow> addr \<Rightarrow> int option" where
  "get_neighbor_index h p = do {
     n \<leftarrow> nodes h p;
     pn \<leftarrow> nodes h (parent n);
     i \<leftarrow> scan_eq (pointers pn) (Suc (num_keys pn)) p 0;
     if i \<le> num_keys pn then Some (int i - 1) else None
   }"

text \<open>\<open>while (a[i] != x) i++;\<close>, which nothing bounds but the end of the array.\<close>

function seek :: "'a carray \<Rightarrow> 'a \<Rightarrow> nat \<Rightarrow> nat option" where
  "seek a x i = do { y \<leftarrow> rd a i; if y \<noteq> x then seek a x (Suc i) else Some i }"
  by pat_completeness auto
termination
  by (relation "measure (\<lambda>(a, x, i). length a - i)") (auto simp: rd_def split: if_splits)

text \<open>\<open>for (; i < n; i++) a[i - 1] = a[i];\<close>\<close>

function shift_down :: "'a carray \<Rightarrow> nat \<Rightarrow> nat \<Rightarrow> 'a carray option" where
  "shift_down a i n =
     (if i < n then do { x \<leftarrow> rd a i; a \<leftarrow> wr a (i - 1) x; shift_down a (Suc i) n } else Some a)"
  by pat_completeness auto
termination
  by (relation "measure (\<lambda>(a, i, n). n - i)") auto

declare seek.simps [simp del] shift_down.simps [simp del]

text \<open>\<open>num_keys\<close> of a node without keys would become negative; the model fails there.\<close>

definition remove_entry_from_node ::
  "nat \<Rightarrow> ('k, 'r) heap \<Rightarrow> addr \<Rightarrow> 'k \<Rightarrow> addr \<Rightarrow> ('k, 'r) heap option" where
  "remove_entry_from_node ord h p key pointer = do {
     n \<leftarrow> nodes h p;
     i \<leftarrow> seek (keys n) key 0;
     ks \<leftarrow> shift_down (keys n) (Suc i) (num_keys n);
     i \<leftarrow> seek (pointers n) pointer 0;
     ps \<leftarrow> shift_down (pointers n) (Suc i) (if is_leaf n then num_keys n else num_keys n + 1);
     if num_keys n = 0 then None
     else do {
       let nk = num_keys n - 1;
       ps \<leftarrow> (if is_leaf n then fill_null ps nk (ord - 1) else fill_null ps (nk + 1) ord);
       Some (put h p (n\<lparr>keys := ks, pointers := ps, num_keys := nk\<rparr>))
     }
   }"

definition adjust_root :: "('k, 'r) heap \<Rightarrow> addr \<Rightarrow> (addr \<times> ('k, 'r) heap) option" where
  "adjust_root h root = do {
     n \<leftarrow> nodes h root;
     if num_keys n > 0 then Some (root, h)
     else if \<not> is_leaf n then do {
       new_root \<leftarrow> rd (pointers n) 0;
       rn \<leftarrow> nodes h new_root;
       h \<leftarrow> free_node (put h new_root (rn\<lparr>parent := NULL\<rparr>)) root;
       Some (new_root, h)
     }
     else do {
       h \<leftarrow> free_node h root;
       Some (NULL, h)
     }
   }"

text \<open>
  \<open>merge_nodes\<close> is \<open>coalesce_nodes\<close> after its exchange of \<open>n\<close> and \<open>neighbor\<close> and before
  its call of \<open>delete_entry\<close>: it appends \<open>n\<close> to \<open>neighbor\<close>, its left sibling.
\<close>

definition merge_nodes ::
  "nat \<Rightarrow> ('k, 'r) heap \<Rightarrow> addr \<Rightarrow> addr \<Rightarrow> 'k \<Rightarrow> ('k, 'r) heap option" where
  "merge_nodes ord h n neighbor k_prime = do {
     nn \<leftarrow> nodes h n;
     bn \<leftarrow> nodes h neighbor;
     if \<not> is_leaf nn then do {
       ks \<leftarrow> wr (keys bn) (num_keys bn) k_prime;
       (ks, ps, nk, j, i) \<leftarrow>
         move_entries (keys nn) (pointers nn) ks (pointers bn) (num_keys bn + 1) 0 (num_keys bn + 1) (num_keys nn);
       p \<leftarrow> rd (pointers nn) j;
       ps \<leftarrow> wr ps i p;
       let h = put h n (nn\<lparr>num_keys := num_keys nn - j\<rparr>);
       let h = put h neighbor (bn\<lparr>keys := ks, pointers := ps, num_keys := nk\<rparr>);
       set_parents h ps neighbor 0 (nk + 1)
     }
     else do {
       (ks, ps, nk, _, _) \<leftarrow>
         move_entries (keys nn) (pointers nn) (keys bn) (pointers bn) (num_keys bn) 0 (num_keys bn) (num_keys nn);
       nxt \<leftarrow> rd (pointers nn) (ord - 1);
       ps \<leftarrow> wr ps (ord - 1) nxt;
       Some (put h neighbor (bn\<lparr>keys := ks, pointers := ps, num_keys := nk\<rparr>))
     }
   }"

text \<open>
  \<open>redistribute_nodes\<close>, one definition for each side the neighbour is on. Indices such as
  \<open>neighbor->num_keys - 1\<close> are below zero when the neighbour is empty, where the model fails.
\<close>

definition borrow_left ::
  "('k, 'r) heap \<Rightarrow> addr \<Rightarrow> addr \<Rightarrow> nat \<Rightarrow> 'k \<Rightarrow> ('k, 'r) heap option" where
  "borrow_left h n neighbor k_prime_index k_prime = do {
     nn \<leftarrow> nodes h n;
     bn \<leftarrow> nodes h neighbor;
     ps \<leftarrow> (if is_leaf nn then Some (pointers nn)
           else do { p \<leftarrow> rd (pointers nn) (num_keys nn); wr (pointers nn) (num_keys nn + 1) p });
     (ks, ps) \<leftarrow> shift_up (keys nn) ps (num_keys nn) 0;
     if num_keys bn = 0 then None
     else if \<not> is_leaf nn then do {
       tmp \<leftarrow> rd (pointers bn) (num_keys bn);
       ps \<leftarrow> wr ps 0 tmp;
       tn \<leftarrow> nodes h tmp;
       let h = put h tmp (tn\<lparr>parent := n\<rparr>);
       bps \<leftarrow> wr (pointers bn) (num_keys bn) NULL;
       ks \<leftarrow> wr ks 0 k_prime;
       bk \<leftarrow> rd (keys bn) (num_keys bn - 1);
       pn \<leftarrow> nodes h (parent nn);
       pks \<leftarrow> wr (keys pn) k_prime_index bk;
       let h = put h (parent nn) (pn\<lparr>keys := pks\<rparr>);
       let h = put h n (nn\<lparr>keys := ks, pointers := ps, num_keys := Suc (num_keys nn)\<rparr>);
       Some (put h neighbor (bn\<lparr>pointers := bps, num_keys := num_keys bn - 1\<rparr>))
     }
     else do {
       p \<leftarrow> rd (pointers bn) (num_keys bn - 1);
       ps \<leftarrow> wr ps 0 p;
       bps \<leftarrow> wr (pointers bn) (num_keys bn - 1) NULL;
       bk \<leftarrow> rd (keys bn) (num_keys bn - 1);
       ks \<leftarrow> wr ks 0 bk;
       pn \<leftarrow> nodes h (parent nn);
       pks \<leftarrow> wr (keys pn) k_prime_index bk;
       let h = put h (parent nn) (pn\<lparr>keys := pks\<rparr>);
       let h = put h n (nn\<lparr>keys := ks, pointers := ps, num_keys := Suc (num_keys nn)\<rparr>);
       Some (put h neighbor (bn\<lparr>pointers := bps, num_keys := num_keys bn - 1\<rparr>))
     }
   }"

text \<open>The loop \<open>for (i = 0; i < neighbor->num_keys - 1; i++)\<close> moves keys and pointers down.\<close>

definition borrow_right ::
  "('k, 'r) heap \<Rightarrow> addr \<Rightarrow> addr \<Rightarrow> nat \<Rightarrow> 'k \<Rightarrow> ('k, 'r) heap option" where
  "borrow_right h n neighbor k_prime_index k_prime = do {
     nn \<leftarrow> nodes h n;
     bn \<leftarrow> nodes h neighbor;
     if num_keys bn = 0 then None
     else if is_leaf nn then do {
       bk \<leftarrow> rd (keys bn) 0;
       ks \<leftarrow> wr (keys nn) (num_keys nn) bk;
       p \<leftarrow> rd (pointers bn) 0;
       ps \<leftarrow> wr (pointers nn) (num_keys nn) p;
       bk1 \<leftarrow> rd (keys bn) 1;
       pn \<leftarrow> nodes h (parent nn);
       pks \<leftarrow> wr (keys pn) k_prime_index bk1;
       let h = put h (parent nn) (pn\<lparr>keys := pks\<rparr>);
       bks \<leftarrow> shift_down (keys bn) 1 (num_keys bn);
       bps \<leftarrow> shift_down (pointers bn) 1 (num_keys bn);
       let h = put h n (nn\<lparr>keys := ks, pointers := ps, num_keys := Suc (num_keys nn)\<rparr>);
       Some (put h neighbor (bn\<lparr>keys := bks, pointers := bps, num_keys := num_keys bn - 1\<rparr>))
     }
     else do {
       ks \<leftarrow> wr (keys nn) (num_keys nn) k_prime;
       tmp \<leftarrow> rd (pointers bn) 0;
       ps \<leftarrow> wr (pointers nn) (num_keys nn + 1) tmp;
       tn \<leftarrow> nodes h tmp;
       let h = put h tmp (tn\<lparr>parent := n\<rparr>);
       bk \<leftarrow> rd (keys bn) 0;
       pn \<leftarrow> nodes h (parent nn);
       pks \<leftarrow> wr (keys pn) k_prime_index bk;
       let h = put h (parent nn) (pn\<lparr>keys := pks\<rparr>);
       bks \<leftarrow> shift_down (keys bn) 1 (num_keys bn);
       bps \<leftarrow> shift_down (pointers bn) 1 (num_keys bn);
       p \<leftarrow> rd bps (num_keys bn);
       bps \<leftarrow> wr bps (num_keys bn - 1) p;
       let h = put h n (nn\<lparr>keys := ks, pointers := ps, num_keys := Suc (num_keys nn)\<rparr>);
       Some (put h neighbor (bn\<lparr>keys := bks, pointers := bps, num_keys := num_keys bn - 1\<rparr>))
     }
   }"

definition redistribute_nodes ::
  "('k, 'r) heap \<Rightarrow> addr \<Rightarrow> addr \<Rightarrow> addr \<Rightarrow> int \<Rightarrow> nat \<Rightarrow> 'k \<Rightarrow> (addr \<times> ('k, 'r) heap) option" where
  "redistribute_nodes h root n neighbor neighbor_index k_prime_index k_prime = do {
     h \<leftarrow> (if neighbor_index \<noteq> -1 then borrow_left h n neighbor k_prime_index k_prime
          else borrow_right h n neighbor k_prime_index k_prime);
     Some (root, h)
   }"

text \<open>
  \<open>delete_entry\<close> and \<open>coalesce_nodes\<close> call each other; the second is inlined in the
  first, and stated as an equation afterwards.
\<close>

partial_function (option) delete_entry ::
  "nat \<Rightarrow> ('k, 'r) heap \<Rightarrow> addr \<Rightarrow> addr \<Rightarrow> 'k \<Rightarrow> addr \<Rightarrow> (addr \<times> ('k, 'r) heap) option" where
  "delete_entry ord h root n key pointer = do {
     h \<leftarrow> remove_entry_from_node ord h n key pointer;
     if n = root then adjust_root h root
     else do {
       nn \<leftarrow> nodes h n;
       if num_keys nn \<ge> (if is_leaf nn then cut (ord - 1) else cut ord - 1) then Some (root, h)
       else do {
         neighbor_index \<leftarrow> get_neighbor_index h n;
         pn \<leftarrow> nodes h (parent nn);
         k_prime \<leftarrow> rd (keys pn) (if neighbor_index = -1 then 0 else nat neighbor_index);
         neighbor \<leftarrow> rd (pointers pn) (if neighbor_index = -1 then 1 else nat neighbor_index);
         bn \<leftarrow> nodes h neighbor;
         if num_keys bn + num_keys nn < (if is_leaf nn then ord else ord - 1)
         then do {
           h \<leftarrow> merge_nodes ord h (if neighbor_index = -1 then neighbor else n)
                  (if neighbor_index = -1 then n else neighbor) k_prime;
           rn \<leftarrow> nodes h (if neighbor_index = -1 then neighbor else n);
           (root, h) \<leftarrow> delete_entry ord h root (parent rn) k_prime (if neighbor_index = -1 then neighbor else n);
           h \<leftarrow> free_node h (if neighbor_index = -1 then neighbor else n);
           Some (root, h)
         }
         else redistribute_nodes h root n neighbor neighbor_index
                (if neighbor_index = -1 then 0 else nat neighbor_index) k_prime
       }
     }
   }"

definition coalesce_nodes ::
  "nat \<Rightarrow> ('k, 'r) heap \<Rightarrow> addr \<Rightarrow> addr \<Rightarrow> addr \<Rightarrow> int \<Rightarrow> 'k \<Rightarrow> (addr \<times> ('k, 'r) heap) option" where
  "coalesce_nodes ord h root n neighbor neighbor_index k_prime = do {
     h \<leftarrow> merge_nodes ord h (if neighbor_index = -1 then neighbor else n)
            (if neighbor_index = -1 then n else neighbor) k_prime;
     rn \<leftarrow> nodes h (if neighbor_index = -1 then neighbor else n);
     (root, h) \<leftarrow> delete_entry ord h root (parent rn) k_prime (if neighbor_index = -1 then neighbor else n);
     h \<leftarrow> free_node h (if neighbor_index = -1 then neighbor else n);
     Some (root, h)
   }"

definition delete_bpt ::
  "nat \<Rightarrow> ('k::linorder, 'r) heap \<Rightarrow> addr \<Rightarrow> 'k \<Rightarrow> (addr \<times> ('k, 'r) heap) option" where
  "delete_bpt ord h root key = do {
     (key_record, key_leaf) \<leftarrow> find_bpt h root key;
     if key_record \<noteq> NULL \<and> key_leaf \<noteq> NULL
     then do {
       (root, h) \<leftarrow> delete_entry ord h root key_leaf key key_record;
       h \<leftarrow> free_rec h key_record;
       Some (root, h)
     }
     else Some (root, h)
   }"

section \<open>Destruction\<close>

function free_records :: "('k, 'r) heap \<Rightarrow> addr carray \<Rightarrow> nat \<Rightarrow> nat \<Rightarrow> ('k, 'r) heap option" where
  "free_records h ps i n =
     (if i < n then do { p \<leftarrow> rd ps i; h \<leftarrow> free_rec h p; free_records h ps (Suc i) n } else Some h)"
  by pat_completeness auto
termination
  by (relation "measure (\<lambda>(h, ps, i, n). n - i)") auto

declare free_records.simps [simp del]

text \<open>\<open>destroy_from h p i\<close>: the call \<open>destroy_tree_nodes(p)\<close> from child \<open>i\<close> on.\<close>

partial_function (option) destroy_from :: "('k, 'r) heap \<Rightarrow> addr \<Rightarrow> nat \<Rightarrow> ('k, 'r) heap option" where
  "destroy_from h p i = do {
     n \<leftarrow> nodes h p;
     if is_leaf n then do { h \<leftarrow> free_records h (pointers n) 0 (num_keys n); free_node h p }
     else if i < num_keys n + 1 then do {
       c \<leftarrow> rd (pointers n) i;
       h \<leftarrow> destroy_from h c 0;
       destroy_from h p (Suc i)
     }
     else free_node h p
   }"

definition destroy_tree :: "('k, 'r) heap \<Rightarrow> addr \<Rightarrow> (addr \<times> ('k, 'r) heap) option" where
  "destroy_tree h root = do { h \<leftarrow> destroy_from h root 0; Some (NULL, h) }"

text \<open>The pointer loops are executable as they stand.\<close>

declare find_leaf_loop.simps [code] range_loop.simps [code] height_loop.simps [code]
  path_to_root_loop.simps [code] insert_into_parent.simps [code] delete_entry.simps [code]
  destroy_from.simps [code]

end
