(* ===== verification/BPTree_Abs.thy ===== *)
theory BPTree_Abs
  imports BPTree "HOL-Library.Multiset"
begin

text \<open>
  The abstract side of the B+ tree: trees that carry the addresses of their nodes, the
  contexts (zippers) that \<open>insert_into_parent\<close> and \<open>delete_entry\<close> climb along, the
  in-order reading \<open>flat\<close> of a tree as separators and entries, the ordering and occupancy
  invariants, and the predicates that relate all of them to a heap.

  The point of \<open>flat\<close> is that splitting, merging and rotating internal nodes does not
  change it, so the ordering invariant has to be re-established for leaf operations only.
\<close>

section \<open>Trees and contexts\<close>

datatype 'k bt = Lf addr "('k \<times> addr) list" | Nd addr "'k list" "'k bt list"

text \<open>A frame is a node with a hole between two lists of children.\<close>

datatype 'k frame = Fr addr "'k list" "'k bt list" "'k list" "'k bt list"

fun root_of :: "'k bt \<Rightarrow> addr" where
  "root_of (Lf a es) = a"
| "root_of (Nd a ks cs) = a"

fun addrs :: "'k bt \<Rightarrow> addr list" where
  "addrs (Lf a es) = [a]"
| "addrs (Nd a ks cs) = a # concat (map addrs cs)"

fun leaf_addrs :: "'k bt \<Rightarrow> addr list" where
  "leaf_addrs (Lf a es) = [a]"
| "leaf_addrs (Nd a ks cs) = concat (map leaf_addrs cs)"

fun fr_addr :: "'k frame \<Rightarrow> addr" where
  "fr_addr (Fr a ksl csl ksr csr) = a"

fun plug :: "'k frame \<Rightarrow> 'k bt \<Rightarrow> 'k bt" where
  "plug (Fr a ksl csl ksr csr) t = Nd a (ksl @ ksr) (csl @ t # csr)"

fun zip_up :: "'k bt \<Rightarrow> 'k frame list \<Rightarrow> 'k bt" where
  "zip_up t [] = t"
| "zip_up t (f # fs) = zip_up (plug f t) fs"

fun top_addr :: "'k frame list \<Rightarrow> addr" where
  "top_addr [] = NULL"
| "top_addr (f # fs) = fr_addr f"

lemma root_in_addrs [simp]: "root_of t \<in> set (addrs t)"
  by (cases t) auto

lemma addrs_Cons: "\<exists>as. addrs t = root_of t # as"
  by (cases t) auto

lemma root_plug [simp]: "root_of (plug f t) = fr_addr f"
  by (cases f) simp

lemma top_addr_root: "fs \<noteq> [] \<Longrightarrow> top_addr fs = fr_addr (hd fs)"
  by (cases fs) auto

fun fr_addrs :: "'k frame \<Rightarrow> addr list" where
  "fr_addrs (Fr a ksl csl ksr csr) = a # concat (map addrs csl) @ concat (map addrs csr)"

definition ctx_addrs :: "'k frame list \<Rightarrow> addr list" where
  "ctx_addrs fs = concat (map fr_addrs fs)"

lemma ctx_addrs_simps [simp]:
  "ctx_addrs [] = []" "ctx_addrs (f # fs) = fr_addrs f @ ctx_addrs fs"
  by (simp_all add: ctx_addrs_def)

lemma mset_addrs_plug: "mset (addrs (plug f t)) = mset (addrs t) + mset (fr_addrs f)"
  by (cases f) simp

lemma mset_addrs_zip_up: "mset (addrs (zip_up t fs)) = mset (addrs t) + mset (ctx_addrs fs)"
  by (induction fs arbitrary: t) (simp_all add: mset_addrs_plug)

lemma distinct_zip_up: "distinct (addrs (zip_up t fs)) \<longleftrightarrow> distinct (addrs t @ ctx_addrs fs)"
  by (rule mset_eq_imp_distinct_iff) (simp add: mset_addrs_zip_up)

lemma set_addrs_zip_up: "set (addrs (zip_up t fs)) = set (addrs t) \<union> set (ctx_addrs fs)"
  using mset_addrs_zip_up [of t fs] by (metis mset_append set_append set_mset_mset)

fun fr_lleaves :: "'k frame \<Rightarrow> addr list" where
  "fr_lleaves (Fr a ksl csl ksr csr) = concat (map leaf_addrs csl)"

fun fr_rleaves :: "'k frame \<Rightarrow> addr list" where
  "fr_rleaves (Fr a ksl csl ksr csr) = concat (map leaf_addrs csr)"

fun ctx_lleaves :: "'k frame list \<Rightarrow> addr list" where
  "ctx_lleaves [] = []"
| "ctx_lleaves (f # fs) = ctx_lleaves fs @ fr_lleaves f"

fun ctx_rleaves :: "'k frame list \<Rightarrow> addr list" where
  "ctx_rleaves [] = []"
| "ctx_rleaves (f # fs) = fr_rleaves f @ ctx_rleaves fs"

lemma leaf_addrs_zip_up: "leaf_addrs (zip_up t fs) = ctx_lleaves fs @ leaf_addrs t @ ctx_rleaves fs"
proof (induction fs arbitrary: t)
  case (Cons f fs)
  then show ?case by (cases f) simp
qed simp

lemma leaf_addrs_subset: "set (leaf_addrs t) \<subseteq> set (addrs t)"
  by (induction t) auto

lemma ctx_leaves_subset: "set (ctx_lleaves fs) \<subseteq> set (ctx_addrs fs)" "set (ctx_rleaves fs) \<subseteq> set (ctx_addrs fs)"
proof (induction fs)
  case (Cons f fs)
  {
    case 1
    then show ?case using Cons leaf_addrs_subset by (cases f) fastforce
  next
    case 2
    then show ?case using Cons leaf_addrs_subset by (cases f) fastforce
  }
qed simp_all

section \<open>The in-order reading\<close>

datatype 'k mark = Sep 'k | Ent 'k addr

definition lsep :: "'k mark list list \<Rightarrow> 'k list \<Rightarrow> 'k mark list" where
  "lsep xss ks = concat (map2 (\<lambda>x k. x @ [Sep k]) xss ks)"

definition rsep :: "'k list \<Rightarrow> 'k mark list list \<Rightarrow> 'k mark list" where
  "rsep ks xss = concat (map2 (\<lambda>k x. Sep k # x) ks xss)"

fun weave :: "'k list \<Rightarrow> 'k mark list list \<Rightarrow> 'k mark list" where
  "weave ks [] = []"
| "weave ks (x # xs) = x @ rsep ks xs"

fun flat :: "'k bt \<Rightarrow> 'k mark list" where
  "flat (Lf a es) = map (\<lambda>(k, p). Ent k p) es"
| "flat (Nd a ks cs) = weave ks (map flat cs)"

lemma lsep_simps [simp]:
  "lsep [] [] = []" "lsep (x # xs) (k # ks) = x @ Sep k # lsep xs ks"
  "lsep [] ks = []" "lsep xs [] = []"
  by (simp_all add: lsep_def)

lemma rsep_simps [simp]:
  "rsep [] [] = []" "rsep (k # ks) (x # xs) = Sep k # x @ rsep ks xs"
  "rsep ks [] = []" "rsep [] xs = []"
  by (simp_all add: rsep_def)

lemma lsep_append [simp]:
  "length xs = length ks \<Longrightarrow> lsep (xs @ xs') (ks @ ks') = lsep xs ks @ lsep xs' ks'"
  by (simp add: lsep_def)

lemma rsep_append [simp]:
  "length xs = length ks \<Longrightarrow> rsep (ks @ ks') (xs @ xs') = rsep ks xs @ rsep ks' xs'"
  by (simp add: rsep_def)

lemma rsep_weave: "xs \<noteq> [] \<Longrightarrow> rsep (k # ks) xs = Sep k # weave ks xs"
  by (cases xs) auto

lemma weave_split:
  assumes "length xs = length ks"
  shows "weave (ks @ ks') (xs @ x # xs') = lsep xs ks @ x @ rsep ks' xs'"
  using assms by (induction xs ks rule: list_induct2) (auto simp: rsep_weave)

fun fr_lflat :: "'k frame \<Rightarrow> 'k mark list" where
  "fr_lflat (Fr a ksl csl ksr csr) = lsep (map flat csl) ksl"

fun fr_rflat :: "'k frame \<Rightarrow> 'k mark list" where
  "fr_rflat (Fr a ksl csl ksr csr) = rsep ksr (map flat csr)"

fun ctx_lflat :: "'k frame list \<Rightarrow> 'k mark list" where
  "ctx_lflat [] = []"
| "ctx_lflat (f # fs) = ctx_lflat fs @ fr_lflat f"

fun ctx_rflat :: "'k frame list \<Rightarrow> 'k mark list" where
  "ctx_rflat [] = []"
| "ctx_rflat (f # fs) = fr_rflat f @ ctx_rflat fs"

text \<open>A frame has as many keys as children on each side of its hole.\<close>

fun fr_ok :: "'k frame \<Rightarrow> bool" where
  "fr_ok (Fr a ksl csl ksr csr) \<longleftrightarrow> length csl = length ksl \<and> length csr = length ksr"

lemma flat_plug: "fr_ok f \<Longrightarrow> flat (plug f t) = fr_lflat f @ flat t @ fr_rflat f"
  by (cases f) (simp add: weave_split)

lemma flat_zip_up:
  "\<forall>f \<in> set fs. fr_ok f \<Longrightarrow> flat (zip_up t fs) = ctx_lflat fs @ flat t @ ctx_rflat fs"
  by (induction fs arbitrary: t) (simp_all add: flat_plug)

fun mark_lt :: "'k::linorder mark \<Rightarrow> 'k mark \<Rightarrow> bool" where
  "mark_lt (Sep a) (Sep b) \<longleftrightarrow> a < b"
| "mark_lt (Sep a) (Ent b _) \<longleftrightarrow> a \<le> b"
| "mark_lt (Ent a _) (Sep b) \<longleftrightarrow> a < b"
| "mark_lt (Ent a _) (Ent b _) \<longleftrightarrow> a < b"

abbreviation ordered :: "'k::linorder mark list \<Rightarrow> bool" where
  "ordered \<equiv> sorted_wrt mark_lt"

text \<open>The entries of a reading: keys and the addresses of their records.\<close>

fun ents :: "'k mark list \<Rightarrow> ('k \<times> addr) list" where
  "ents [] = []"
| "ents (Sep k # ms) = ents ms"
| "ents (Ent k p # ms) = (k, p) # ents ms"

lemma ents_append [simp]: "ents (xs @ ys) = ents xs @ ents ys"
  by (induction xs rule: ents.induct) auto

lemma ents_map_Ent [simp]: "ents (map (\<lambda>(k, p). Ent k p) es) = es"
  by (induction es) auto

lemma set_ents: "(k, p) \<in> set (ents ms) \<longleftrightarrow> Ent k p \<in> set ms"
  by (induction ms rule: ents.induct) auto

lemma ordered_map_Ent [simp]:
  "ordered (map (\<lambda>(k, p). Ent k p) es) \<longleftrightarrow> sorted_wrt (<) (map fst es)"
  by (induction es) auto

lemma ordered_ents: "ordered ms \<Longrightarrow> sorted_wrt (<) (map fst (ents ms))"
proof (induction ms rule: ents.induct)
  case (3 k p ms)
  then show ?case by (force simp: set_ents)
qed auto

section \<open>Occupancy\<close>

text \<open>
  \<open>fits ord is_root d t\<close>: every leaf is \<open>d\<close> levels down, no node has more than
  \<open>ord - 1\<close> keys, the root has at least one and every other node at least its minimum.
\<close>

definition min_leaf :: "nat \<Rightarrow> bool \<Rightarrow> nat" where
  "min_leaf ord r = (if r then 1 else cut (ord - 1))"

definition min_node :: "nat \<Rightarrow> bool \<Rightarrow> nat" where
  "min_node ord r = (if r then 1 else cut ord - 1)"

fun fits :: "nat \<Rightarrow> bool \<Rightarrow> nat \<Rightarrow> 'k bt \<Rightarrow> bool" where
  "fits ord r d (Lf a es) \<longleftrightarrow> d = 0 \<and> length es \<le> ord - 1 \<and> min_leaf ord r \<le> length es"
| "fits ord r d (Nd a ks cs) \<longleftrightarrow>
     0 < d \<and> length cs = Suc (length ks) \<and> length ks \<le> ord - 1 \<and> min_node ord r \<le> length ks \<and>
     (\<forall>c \<in> set cs. fits ord False (d - 1) c)"

fun ctx_fits :: "nat \<Rightarrow> nat \<Rightarrow> 'k frame list \<Rightarrow> bool" where
  "ctx_fits ord d [] \<longleftrightarrow> True"
| "ctx_fits ord d (Fr a ksl csl ksr csr # fs) \<longleftrightarrow>
     length csl = length ksl \<and> length csr = length ksr \<and>
     length ksl + length ksr \<le> ord - 1 \<and> min_node ord (fs = []) \<le> length ksl + length ksr \<and>
     (\<forall>c \<in> set csl \<union> set csr. fits ord False d c) \<and> ctx_fits ord (Suc d) fs"

lemma ctx_fits_ok: "ctx_fits ord d fs \<Longrightarrow> \<forall>f \<in> set fs. fr_ok f"
  by (induction ord d fs rule: ctx_fits.induct) auto

lemma fits_plug:
  "fr_ok f \<Longrightarrow> ctx_fits ord d (f # fs) \<and> fits ord False d t \<longleftrightarrow>
     fits ord (fs = []) (Suc d) (plug f t) \<and> ctx_fits ord (Suc d) fs"
  by (cases f) auto

lemma fits_zip_up:
  "\<forall>f \<in> set fs. fr_ok f \<Longrightarrow>
   fits ord True (d + length fs) (zip_up t fs) \<longleftrightarrow> fits ord (fs = []) d t \<and> ctx_fits ord d fs"
proof (induction fs arbitrary: t d)
  case (Cons f fs)
  then have "fits ord True (d + length (f # fs)) (zip_up t (f # fs)) \<longleftrightarrow>
      fits ord (fs = []) (Suc d) (plug f t) \<and> ctx_fits ord (Suc d) fs"
    using Cons.IH [of "Suc d" "plug f t"] by simp
  with Cons.prems fits_plug [of f ord d fs t] show ?case by auto
qed simp

section \<open>Representation on the heap\<close>

fun rep :: "nat \<Rightarrow> (addr \<rightharpoonup> 'k node) \<Rightarrow> addr \<Rightarrow> 'k bt \<Rightarrow> bool" where
  "rep ord N par (Lf a es) \<longleftrightarrow>
     (\<exists>n. N a = Some n \<and> is_leaf n \<and> parent n = par \<and> num_keys n = length es \<and>
          arr (ord - 1) (map fst es) (keys n) \<and> arr ord (map snd es) (pointers n))"
| "rep ord N par (Nd a ks cs) \<longleftrightarrow>
     (\<exists>n. N a = Some n \<and> \<not> is_leaf n \<and> parent n = par \<and> num_keys n = length ks \<and>
          length cs = Suc (length ks) \<and>
          arr (ord - 1) ks (keys n) \<and> arr ord (map root_of cs) (pointers n)) \<and>
     (\<forall>c \<in> set cs. rep ord N a c)"

text \<open>\<open>hole\<close> is the pointer a frame has at its hole, whatever is there.\<close>

fun fr_rep :: "nat \<Rightarrow> (addr \<rightharpoonup> 'k node) \<Rightarrow> addr \<Rightarrow> addr \<Rightarrow> 'k frame \<Rightarrow> bool" where
  "fr_rep ord N par hole (Fr a ksl csl ksr csr) \<longleftrightarrow>
     (\<exists>n. N a = Some n \<and> \<not> is_leaf n \<and> parent n = par \<and> num_keys n = length ksl + length ksr \<and>
          length csl + length csr = length ksl + length ksr \<and>
          arr (ord - 1) (ksl @ ksr) (keys n) \<and>
          arr ord (map root_of csl @ hole # map root_of csr) (pointers n)) \<and>
     (\<forall>c \<in> set csl \<union> set csr. rep ord N a c)"

fun ctx_rep :: "nat \<Rightarrow> (addr \<rightharpoonup> 'k node) \<Rightarrow> addr \<Rightarrow> 'k frame list \<Rightarrow> bool" where
  "ctx_rep ord N hole [] \<longleftrightarrow> True"
| "ctx_rep ord N hole (f # fs) \<longleftrightarrow> fr_rep ord N (top_addr fs) hole f \<and> ctx_rep ord N (fr_addr f) fs"

lemma rep_plug:
  "rep ord N par (plug f t) \<longleftrightarrow> fr_rep ord N par (root_of t) f \<and> rep ord N (fr_addr f) t"
  by (cases f) auto

lemma rep_zip_up:
  "rep ord N NULL (zip_up t fs) \<longleftrightarrow> rep ord N (top_addr fs) t \<and> ctx_rep ord N (root_of t) fs"
  by (induction fs arbitrary: t) (auto simp: rep_plug)

lemma rep_cong: "(\<And>a. a \<in> set (addrs t) \<Longrightarrow> N a = N' a) \<Longrightarrow> rep ord N par t \<longleftrightarrow> rep ord N' par t"
proof (induction t arbitrary: par)
  case (Nd a ks cs)
  then have "\<And>c. c \<in> set cs \<Longrightarrow> rep ord N a c \<longleftrightarrow> rep ord N' a c" by fastforce
  with Nd.prems show ?case by simp
qed simp

lemma rep_upd [simp]: "b \<notin> set (addrs t) \<Longrightarrow> rep ord (N(b := x)) par t \<longleftrightarrow> rep ord N par t"
  by (rule rep_cong) auto

lemma fr_rep_upd [simp]:
  assumes "b \<notin> set (fr_addrs f)"
  shows "fr_rep ord (N(b := x)) par hole f \<longleftrightarrow> fr_rep ord N par hole f"
proof (cases f)
  case (Fr a ksl csl ksr csr)
  with assms have "\<forall>c \<in> set csl \<union> set csr. rep ord (N(b := x)) a c \<longleftrightarrow> rep ord N a c" by auto
  with Fr assms show ?thesis by auto
qed

lemma ctx_rep_upd [simp]:
  "b \<notin> set (ctx_addrs fs) \<Longrightarrow> ctx_rep ord (N(b := x)) hole fs \<longleftrightarrow> ctx_rep ord N hole fs"
  by (induction fs arbitrary: hole) auto

lemma rep_node:
  assumes "rep ord N par t"
  obtains n where "N (root_of t) = Some n" "parent n = par"
  using assms by (cases t) auto

lemma rep_addrs: "rep ord N par t \<Longrightarrow> a \<in> set (addrs t) \<Longrightarrow> N a \<noteq> None"
  by (induction t arbitrary: par) auto

text \<open>Changing the parent pointer of the root of a tree.\<close>

lemma rep_reparent:
  assumes "rep ord N par t" "N (root_of t) = Some n" "distinct (addrs t)"
  shows "rep ord (N(root_of t \<mapsto> n\<lparr>parent := q\<rparr>)) q t"
proof (cases t)
  case (Nd a ks cs)
  then have "a \<notin> set (addrs c)" if "c \<in> set cs" for c using assms(3) that by auto
  with Nd assms(1,2) show ?thesis by auto
qed (use assms in auto)

section \<open>The chain of leaves\<close>

definition ptrs :: "(addr \<rightharpoonup> 'k node) \<Rightarrow> addr \<Rightarrow> addr carray option" where
  "ptrs N a = map_option pointers (N a)"

fun chain :: "nat \<Rightarrow> (addr \<Rightarrow> addr carray option) \<Rightarrow> addr \<Rightarrow> addr list \<Rightarrow> addr \<Rightarrow> bool" where
  "chain ord P x [] y \<longleftrightarrow> x = y"
| "chain ord P x (a # as) y \<longleftrightarrow>
     x = a \<and> (\<exists>ps b. P a = Some ps \<and> rd ps (ord - 1) = Some b \<and> chain ord P b as y)"

lemma chain_append: "chain ord P x (as @ bs) z \<longleftrightarrow> (\<exists>y. chain ord P x as y \<and> chain ord P y bs z)"
  by (induction as arbitrary: x) auto

lemma chain_cong: "(\<And>a. a \<in> set as \<Longrightarrow> P a = Q a) \<Longrightarrow> chain ord P x as y \<longleftrightarrow> chain ord Q x as y"
  by (induction as arbitrary: x) auto

lemma chain_upd [simp]: "b \<notin> set as \<Longrightarrow> chain ord (P(b := v)) x as y \<longleftrightarrow> chain ord P x as y"
  by (rule chain_cong) auto

lemma ptrs_upd: "ptrs (N(a := x)) = (ptrs N)(a := map_option pointers x)"
  by (rule ext) (simp add: ptrs_def)

lemma ptrs_upd_same: "N a = Some n \<Longrightarrow> pointers n' = pointers n \<Longrightarrow> ptrs (N(a \<mapsto> n')) = ptrs N"
  by (rule ext) (simp add: ptrs_def)

lemma chain_hd: "chain ord P x as y \<Longrightarrow> as \<noteq> [] \<Longrightarrow> x = hd as"
  by (cases as) auto

end
