(* ===== verification/BPTree_Loops.thy ===== *)
theory BPTree_Loops
  imports BPTree_Abs
begin

text \<open>
  What the array loops of \<open>BPTree\<close> compute, as operations on lists: the entries that a
  node's arrays hold are described by \<open>arr\<close>, and each loop by its effect on them. The
  lemmas also say that the loop stays inside the arrays and reads initialised cells only,
  since the loop functions fail otherwise.
\<close>

section \<open>Initialised ranges\<close>

definition ini :: "'a carray \<Rightarrow> nat \<Rightarrow> nat \<Rightarrow> bool" where
  "ini a i n \<longleftrightarrow> n \<le> length a \<and> (\<forall>m. i \<le> m \<and> m < n \<longrightarrow> a ! m \<noteq> None)"

lemma arr_ini: "arr L xs a \<Longrightarrow> n \<le> length xs \<Longrightarrow> ini a i n"
  by (auto simp: ini_def arr_iff)

lemma ini_rd:
  assumes "ini a i n" "i \<le> m" "m < n"
  obtains x where "rd a m = Some x" "a ! m = Some x"
  using assms by (fastforce simp: ini_def rd_def)

lemma ini_mono: "ini a i n \<Longrightarrow> i \<le> i' \<Longrightarrow> n' \<le> n \<Longrightarrow> ini a i' n'"
  by (auto simp: ini_def)

lemma rd_nth: "i < length a \<Longrightarrow> rd a i = a ! i"
  by (simp add: rd_def)

lemma length_wr: "wr a i x = Some b \<Longrightarrow> length b = length a"
  by (auto simp: wr_def split: if_splits)

section \<open>Moving entries up and down\<close>

lemma blit_step_up:
  assumes "ip < i" "i < length a"
  shows "blit (a[i := a ! (i - 1)]) ip (a[i := a ! (i - 1)]) (Suc ip) (i - 1 - ip) =
         blit a ip a (Suc ip) (i - ip)"
  using assms by (intro nth_equalityI) (auto simp: nth_blit nth_list_update)

lemma shift_up_eq:
  assumes "ip \<le> i" "i < length ks" "i < length ps" "ini ks ip i" "ini ps ip i"
  shows "shift_up ks ps i ip = Some (blit ks ip ks (Suc ip) (i - ip), blit ps ip ps (Suc ip) (i - ip))"
  using assms
proof (induction "i - ip" arbitrary: i ks ps)
  case 0
  then show ?case by (subst shift_up.simps) simp
next
  case (Suc d)
  then have lt: "ip < i" by simp
  from lt have "i - 1 < i" "ip \<le> i - 1" by auto
  with Suc.prems obtain k p where k: "rd ks (i - 1) = Some k" "ks ! (i - 1) = Some k"
    and p: "rd ps (i - 1) = Some p" "ps ! (i - 1) = Some p"
    by (metis ini_rd)
  have "shift_up (ks[i := Some k]) (ps[i := Some p]) (i - 1) ip =
      Some (blit (ks[i := Some k]) ip (ks[i := Some k]) (Suc ip) (i - 1 - ip),
            blit (ps[i := Some p]) ip (ps[i := Some p]) (Suc ip) (i - 1 - ip))"
    using Suc.hyps(2) Suc.prems lt by (intro Suc.hyps(1)) (auto simp: ini_def nth_list_update)
  with k p lt Suc.prems show ?case
    using blit_step_up [of ip i ks] blit_step_up [of ip i ps]
    by (subst shift_up.simps) (simp add: wr_Some)
qed

lemma blit_step_up_node:
  assumes "li < i" "Suc i < length a"
  shows "blit (a[Suc i := a ! i]) (Suc li) (a[Suc i := a ! i]) (Suc (Suc li)) (i - 1 - li) =
         blit a (Suc li) a (Suc (Suc li)) (i - li)"
  using assms by (intro nth_equalityI) (auto simp: nth_blit nth_list_update)

lemma shift_up_node_eq:
  assumes "li \<le> i" "i < length ks" "Suc i < length ps" "ini ks li i" "ini ps (Suc li) (Suc i)"
  shows "shift_up_node ks ps i li =
    Some (blit ks li ks (Suc li) (i - li), blit ps (Suc li) ps (Suc (Suc li)) (i - li))"
  using assms
proof (induction "i - li" arbitrary: i ks ps)
  case 0
  then show ?case by (subst shift_up_node.simps) simp
next
  case (Suc d)
  then have lt: "li < i" by simp
  from lt Suc.prems have "i - 1 < i" "li \<le> i - 1" "Suc li \<le> i" by auto
  with Suc.prems obtain k p where k: "rd ks (i - 1) = Some k" "ks ! (i - 1) = Some k"
    and p: "rd ps i = Some p" "ps ! i = Some p"
    by (metis ini_rd lessI)
  have "shift_up_node (ks[i := Some k]) (ps[Suc i := Some p]) (i - 1) li =
      Some (blit (ks[i := Some k]) li (ks[i := Some k]) (Suc li) (i - 1 - li),
            blit (ps[Suc i := Some p]) (Suc li) (ps[Suc i := Some p]) (Suc (Suc li)) (i - 1 - li))"
    using Suc.hyps(2) Suc.prems lt by (intro Suc.hyps(1)) (auto simp: ini_def nth_list_update)
  with k p lt Suc.prems show ?case
    using blit_step_up [of li i ks] blit_step_up_node [of li i ps]
    by (subst shift_up_node.simps) (simp add: wr_Some)
qed

lemma blit_step_down:
  assumes "0 < i" "i < n" "n \<le> length a"
  shows "blit (a[i - 1 := a ! i]) (Suc i) (a[i - 1 := a ! i]) i (n - Suc i) = blit a i a (i - 1) (n - i)"
  using assms by (intro nth_equalityI) (auto simp: nth_blit nth_list_update)

lemma shift_down_eq:
  assumes "0 < i" "i \<le> n" "ini a i n"
  shows "shift_down a i n = Some (blit a i a (i - 1) (n - i))"
  using assms
proof (induction "n - i" arbitrary: i a)
  case 0
  then have "i = n" "i - 1 \<le> length a" by (auto simp: ini_def)
  then show ?case by (subst shift_down.simps) simp
next
  case (Suc d)
  then have lt: "i < n" by simp
  with Suc.prems obtain x where x: "rd a i = Some x" "a ! i = Some x"
    by (metis ini_rd order_refl)
  have len: "n \<le> length a" using Suc.prems by (simp add: ini_def)
  have "shift_down (a[i - 1 := Some x]) (Suc i) n =
      Some (blit (a[i - 1 := Some x]) (Suc i) (a[i - 1 := Some x]) (Suc i - 1) (n - Suc i))"
    using Suc.hyps(2) Suc.prems lt by (intro Suc.hyps(1)) (auto simp: ini_def nth_list_update)
  with x lt len Suc.prems show ?case
    using blit_step_down [of i n a] by (subst shift_down.simps) (simp add: wr_Some)
qed

lemma blit_step_move:
  assumes "i < n" "n \<le> length src" "j + (n - i) \<le> length dst"
  shows "blit src (Suc i) (dst[j := src ! i]) (Suc j) (n - Suc i) = blit src i dst j (n - i)"
  using assms by (intro nth_equalityI) (auto simp: nth_blit nth_list_update Suc_diff_Suc intro!: arg_cong [where f = "nth src"])

lemma move_entries_eq:
  assumes "i \<le> n" "ini tk i n" "ini tp i n" "j + (n - i) \<le> length ks" "j + (n - i) \<le> length ps"
  shows "move_entries tk tp ks ps nk i j n =
    Some (blit tk i ks j (n - i), blit tp i ps j (n - i), nk + (n - i), n, j + (n - i))"
  using assms
proof (induction "n - i" arbitrary: i j ks ps nk)
  case 0
  then show ?case by (subst move_entries.simps) simp
next
  case (Suc d)
  then have lt: "i < n" by simp
  with Suc.prems obtain k p where k: "rd tk i = Some k" "tk ! i = Some k"
    and p: "rd tp i = Some p" "tp ! i = Some p"
    by (metis ini_rd order_refl)
  have len: "n \<le> length tk" "n \<le> length tp" using Suc.prems by (auto simp: ini_def)
  have "move_entries tk tp (ks[j := Some k]) (ps[j := Some p]) (Suc nk) (Suc i) (Suc j) n =
      Some (blit tk (Suc i) (ks[j := Some k]) (Suc j) (n - Suc i),
            blit tp (Suc i) (ps[j := Some p]) (Suc j) (n - Suc i),
            Suc nk + (n - Suc i), n, Suc j + (n - Suc i))"
    using Suc.hyps(2) Suc.prems lt by (intro Suc.hyps(1)) (auto simp: ini_def)
  moreover have "Suc nk + (n - Suc i) = nk + (n - i)" "Suc j + (n - Suc i) = j + (n - i)"
    using lt by auto
  ultimately have "move_entries tk tp (ks[j := Some k]) (ps[j := Some p]) (Suc nk) (Suc i) (Suc j) n =
      Some (blit tk (Suc i) (ks[j := Some k]) (Suc j) (n - Suc i),
            blit tp (Suc i) (ps[j := Some p]) (Suc j) (n - Suc i), nk + (n - i), n, j + (n - i))"
    by (simp only:)
  with k p lt len Suc.prems show ?case
    using blit_step_move [of i n tk j ks] blit_step_move [of i n tp j ps]
    by (subst move_entries.simps) (simp add: wr_Some)
qed

section \<open>The loops as list operations\<close>

lemma arr_shift_up:
  assumes "arr L (xs @ ys) a" "length xs + length ys < L"
  shows "arr L (xs @ x # ys) ((blit a (length xs) a (Suc (length xs)) (length ys))[length xs := Some x])"
  using assms by (auto simp: arr_iff nth_blit nth_list_update nth_append nth_Cons')

lemma arr_shift_up_node:
  assumes "arr L (ps @ q # qs) a" "Suc (length ps + length qs) < L"
  shows "arr L (ps @ q # x # qs)
    ((blit a (Suc (length ps)) a (Suc (Suc (length ps))) (length qs))[Suc (length ps) := Some x])"
  using arr_shift_up [of L "ps @ [q]" qs a x] assms by simp

lemma arr_shift_down:
  assumes "arr L (xs @ x # ys) a"
  shows "arr L (xs @ ys) (blit a (Suc (length xs)) a (length xs) (length ys))"
  using assms by (auto simp: arr_iff nth_blit nth_append nth_Cons')

lemma rd_blit_above:
  assumes "si + n \<le> length src" "di + n \<le> m" "di + n \<le> length dst"
  shows "rd (blit src si dst di n) m = rd dst m"
  using assms by (auto simp: rd_def nth_blit)

lemma arr_blit_to_start:
  assumes "arr L (us @ xs @ vs) src" "length xs \<le> length dst"
  shows "arr (length dst) xs (blit src (length us) dst 0 (length xs))"
  using assms by (auto simp: arr_iff nth_blit nth_append)

lemma arr_blit_append:
  assumes "arr L (xs @ vs) src" "arr M ws dst" "length ws + length xs \<le> M"
  shows "arr M (ws @ xs) (blit src 0 dst (length ws) (length xs))"
  using assms by (auto simp: arr_iff nth_blit nth_append)

lemma arr_prefix: "arr L (xs @ ys) a \<Longrightarrow> arr L xs a"
  by (auto simp: arr_iff nth_append)

lemma arr_snoc_upd:
  assumes "arr L xs a" "length xs < L"
  shows "arr L (xs @ [x]) (a[length xs := Some x])"
  using assms by (auto simp: arr_iff nth_list_update nth_append less_Suc_eq)

lemma arr_upd_above: "arr L xs a \<Longrightarrow> length xs \<le> i \<Longrightarrow> arr L xs (a[i := y])"
  by (auto simp: arr_iff nth_list_update)

lemma arr_upd_in: "arr L xs a \<Longrightarrow> i < length xs \<Longrightarrow> arr L (xs[i := x]) (a[i := Some x])"
  by (auto simp: arr_iff nth_list_update)

lemma copy_gap_eq:
  assumes "i \<le> n" "ini src i n" "n < length dst" "gap \<le> n" "j = (if i \<le> gap then i else Suc i)"
  shows "\<exists>d. copy_gap src dst gap n i j = Some d \<and> length d = length dst \<and>
    (\<forall>m < length dst. d ! m =
       (if i \<le> m \<and> m < gap then src ! m
        else if gap < m \<and> i < m \<and> m \<le> n then src ! (m - 1) else dst ! m))"
  using assms
proof (induction "n - i" arbitrary: i j dst)
  case 0
  then show ?case by (subst copy_gap.simps) auto
next
  case (Suc d)
  then have lt: "i < n" by simp
  with Suc.prems obtain x where x: "rd src i = Some x" "src ! i = Some x"
    by (metis ini_rd order_refl)
  define j' where "j' = (if j = gap then Suc j else j)"
  have j': "j' = (if i < gap then i else Suc i)" "j' < length dst"
    using Suc.prems lt by (auto simp: j'_def)
  have "\<exists>e. copy_gap src (dst[j' := Some x]) gap n (Suc i) (Suc j') = Some e \<and>
      length e = length (dst[j' := Some x]) \<and>
      (\<forall>m < length (dst[j' := Some x]). e ! m =
       (if Suc i \<le> m \<and> m < gap then src ! m
        else if gap < m \<and> Suc i < m \<and> m \<le> n then src ! (m - 1) else dst[j' := Some x] ! m))"
    using Suc.hyps(2) Suc.prems lt by (intro Suc.hyps(1)) (auto simp: ini_def j'(1))
  then obtain e where e: "copy_gap src (dst[j' := Some x]) gap n (Suc i) (Suc j') = Some e"
    "length e = length dst"
    "\<forall>m < length dst. e ! m =
       (if Suc i \<le> m \<and> m < gap then src ! m
        else if gap < m \<and> Suc i < m \<and> m \<le> n then src ! (m - 1) else dst[j' := Some x] ! m)"
    by auto
  have "copy_gap src dst gap n i j = Some e"
    using lt x j'(2) e(1) by (subst copy_gap.simps) (simp add: wr_Some flip: j'_def)
  moreover have "e ! m = (if i \<le> m \<and> m < gap then src ! m
        else if gap < m \<and> i < m \<and> m \<le> n then src ! (m - 1) else dst ! m)" if "m < length dst" for m
    using e(3) that x(2) j'(1) lt Suc.prems(4) by (auto simp: nth_list_update not_less less_Suc_eq_le le_Suc_eq)
  ultimately show ?case using e(2) by blast
qed

lemma copy_gap_insert:
  assumes "arr L (xs @ ys) src" "n = length xs + length ys" "n < M"
  obtains d where "copy_gap src (new_array M) (length xs) n 0 0 = Some d" "length d = M"
    "\<And>x. arr M (xs @ x # ys) (d[length xs := Some x])"
proof -
  have "ini src 0 n" using assms by (auto intro: arr_ini)
  with assms copy_gap_eq [of 0 n src "new_array M" "length xs" 0]
  obtain d where d: "copy_gap src (new_array M) (length xs) n 0 0 = Some d" "length d = M"
    "\<forall>m < M. d ! m = (if m < length xs then src ! m
        else if length xs < m \<and> m \<le> n then src ! (m - 1) else new_array M ! m)"
    by fastforce
  have "arr M (xs @ x # ys) (d[length xs := Some x])" for x
    using assms d by (auto simp: arr_iff nth_list_update nth_append nth_Cons')
  with d(1,2) show thesis by (rule that)
qed

lemma fill_null_eq:
  assumes "n \<le> length ps"
  shows "\<exists>d. fill_null ps i n = Some d \<and> length d = length ps \<and>
    (\<forall>m. rd d m = (if i \<le> m \<and> m < n then Some NULL else rd ps m))"
  using assms
proof (induction "n - i" arbitrary: i ps)
  case 0
  then show ?case by (subst fill_null.simps) auto
next
  case (Suc d)
  then have lt: "i < n" by simp
  have "\<exists>d. fill_null (ps[i := Some NULL]) (Suc i) n = Some d \<and> length d = length (ps[i := Some NULL]) \<and>
    (\<forall>m. rd d m = (if Suc i \<le> m \<and> m < n then Some NULL else rd (ps[i := Some NULL]) m))"
    using Suc.hyps(2) Suc.prems by (intro Suc.hyps(1)) auto
  then obtain e where e: "fill_null (ps[i := Some NULL]) (Suc i) n = Some e \<and> length e = length (ps[i := Some NULL]) \<and>
    (\<forall>m. rd e m = (if Suc i \<le> m \<and> m < n then Some NULL else rd (ps[i := Some NULL]) m))" ..
  with lt Suc.prems show ?case
    by (subst fill_null.simps) (auto simp: wr_Some rd_update intro!: exI [of _ e])
qed

lemma arr_rd_iff: "arr L xs a \<longleftrightarrow> length a = L \<and> length xs \<le> L \<and> (\<forall>i < length xs. rd a i = Some (xs ! i))"
  by (auto simp: arr_iff rd_def)

lemma fill_null_above:
  assumes "arr L xs ps" "length xs \<le> i" "n \<le> L"
  obtains d where "fill_null ps i n = Some d" "arr L xs d" "\<And>m. n \<le> m \<Longrightarrow> rd d m = rd ps m"
proof -
  from assms have "n \<le> length ps" by (simp add: arr_length)
  from fill_null_eq [OF this, of i] obtain d where "fill_null ps i n = Some d"
    "length d = length ps" "\<forall>m. rd d m = (if i \<le> m \<and> m < n then Some NULL else rd ps m)"
    by blast
  moreover from this assms have "arr L xs d" by (auto simp: arr_rd_iff)
  ultimately show thesis using assms by (auto intro: that)
qed

lemma fill_null_link:
  assumes "arr L xs ps" "length xs \<le> i" "length xs \<le> n" "n < L"
  shows "\<exists>d. fill_null (ps[n := Some q]) i n = Some d \<and> arr L xs d \<and> rd d n = Some q"
proof -
  have "n \<le> length (ps[n := Some q])" using assms by (simp add: arr_length)
  from fill_null_eq [OF this, of i] obtain d where "fill_null (ps[n := Some q]) i n = Some d"
    "length d = length ps" "\<forall>m. rd d m = (if i \<le> m \<and> m < n then Some NULL else rd (ps[n := Some q]) m)"
    by auto
  with assms show ?thesis by (auto simp: arr_rd_iff rd_update)
qed

lemma seek_split:
  assumes "arr L (xs @ x # ys) a" "x \<notin> set xs" "i \<le> length xs"
  shows "seek a x i = Some (length xs)"
  using assms(3)
proof (induction "length xs - i" arbitrary: i)
  case 0
  then have "i = length xs" by simp
  then show ?case by (subst seek.simps) (simp add: arr_rd [OF assms(1)])
next
  case (Suc d)
  then have "i < length xs" by simp
  with assms(2) have "xs ! i \<noteq> x" by (metis nth_mem)
  with Suc \<open>i < length xs\<close> show ?case
    by (subst seek.simps) (simp add: arr_rd [OF assms(1)] nth_append)
qed

section \<open>Setting the parents of a row of subtrees\<close>

lemma set_parents_rep:
  assumes "arr L (us @ map root_of cs) ps" "n = length us + length cs"
    and "\<forall>c \<in> set cs. rep ord (nodes h) (pr c) c" "distinct (concat (map addrs cs))"
  shows "\<exists>N. set_parents h ps q (length us) n = Some (h\<lparr>nodes := N\<rparr>) \<and>
    (\<forall>c \<in> set cs. rep ord N q c) \<and>
    (\<forall>a. a \<notin> set (map root_of cs) \<longrightarrow> N a = nodes h a) \<and> ptrs N = ptrs (nodes h) \<and> dom N = dom (nodes h)"
  using assms
proof (induction cs arbitrary: h us)
  case Nil
  then show ?case by (subst set_parents.simps) (auto intro!: exI [of _ "nodes h"])
next
  case (Cons c cs)
  from Cons.prems(3) obtain cn where cn: "nodes h (root_of c) = Some cn"
    by (meson list.set_intros(1) rep_node)
  let ?N = "(nodes h)(root_of c \<mapsto> cn\<lparr>parent := q\<rparr>)"
  let ?h = "h\<lparr>nodes := ?N\<rparr>"
  have dist: "distinct (addrs c)" "distinct (concat (map addrs cs))"
    "\<And>d. d \<in> set cs \<Longrightarrow> set (addrs c) \<inter> set (addrs d) = {}"
    using Cons.prems(4) by auto
  have root: "root_of c \<notin> set (addrs d)" if "d \<in> set cs" for d
    using dist(3) [OF that] root_in_addrs [of c] by blast
  have "\<exists>N. set_parents ?h ps q (length (us @ [root_of c])) n = Some (?h\<lparr>nodes := N\<rparr>) \<and>
    (\<forall>d \<in> set cs. rep ord N q d) \<and>
    (\<forall>a. a \<notin> set (map root_of cs) \<longrightarrow> N a = nodes ?h a) \<and> ptrs N = ptrs (nodes ?h) \<and> dom N = dom (nodes ?h)"
  proof (rule Cons.IH)
    show "\<forall>d \<in> set cs. rep ord (nodes ?h) (pr d) d" using Cons.prems(3) root by simp
  qed (use Cons.prems dist(2) in simp_all)
  then obtain N where N: "set_parents ?h ps q (Suc (length us)) n = Some (h\<lparr>nodes := N\<rparr>)"
    "\<forall>d \<in> set cs. rep ord N q d" "\<forall>a. a \<notin> set (map root_of cs) \<longrightarrow> N a = ?N a"
    "ptrs N = ptrs ?N" "dom N = dom ?N"
    by auto
  have "rep ord ?N q c"
    using rep_reparent [of ord "nodes h" "pr c" c cn q] cn dist(1) Cons.prems(3) by simp
  moreover have "N a = ?N a" if "a \<in> set (addrs c)" for a
    using N(3) dist(3) that by (metis (no_types, lifting) IntI empty_iff image_iff list.set_map root_in_addrs)
  ultimately have "rep ord N q c" using rep_cong by blast
  moreover have "set_parents h ps q (length us) n = Some (h\<lparr>nodes := N\<rparr>)"
    using N(1) cn Cons.prems(1,2) arr_rd [OF Cons.prems(1), of "length us"]
    by (subst set_parents.simps) (simp add: put_def)
  moreover have "ptrs N = ptrs (nodes h)" using N(4) cn by (simp add: ptrs_upd_same)
  moreover have "dom N = dom (nodes h)" using N(5) cn by auto
  ultimately show ?case using N(2,3) by (intro exI [of _ N]) auto
qed

end
