(* ===== verification/BPTree_Find.thy ===== *)
theory BPTree_Find
  imports BPTree_Loops
begin

text \<open>
  The invariant of a B+ tree on the heap, the finite map it stands for, and the search
  functions: \<open>find_leaf\<close> ends in the leaf whose key range holds the key, \<open>find\<close> returns the
  record the map has, and \<open>height\<close> the depth of every leaf.
\<close>

section \<open>The invariant\<close>

definition heap_ok :: "('k, 'r) heap \<Rightarrow> bool" where
  "heap_ok h \<longleftrightarrow> 0 < brk h \<and> (\<forall>a \<in> dom (nodes h) \<union> dom (recs h). 0 < a \<and> a < brk h) \<and>
     (\<forall>a. \<not> oom h a)"

text \<open>
  \<open>shape ord N t d\<close>: the nodes \<open>N\<close> are exactly those of the tree \<open>t\<close>, of height \<open>d\<close>, and
  its leaves are chained from left to right.
\<close>

definition shape :: "nat \<Rightarrow> (addr \<rightharpoonup> 'k node) \<Rightarrow> 'k bt \<Rightarrow> nat \<Rightarrow> bool" where
  "shape ord N t d \<longleftrightarrow>
     rep ord N NULL t \<and> distinct (addrs t) \<and> dom N = set (addrs t) \<and> fits ord True d t \<and>
     chain ord (ptrs N) (hd (leaf_addrs t)) (leaf_addrs t) NULL"

text \<open>
  The heap holds a tree for the map \<open>m\<close>, and nothing else: no node and no record that the
  tree does not reach.
\<close>

definition bpt_map :: "('k, 'r) heap \<Rightarrow> 'k bt \<Rightarrow> 'k \<rightharpoonup> 'r" where
  "bpt_map h t = (\<lambda>k. Option.bind (map_of (ents (flat t)) k) (recs h))"

definition holds_tree :: "nat \<Rightarrow> ('k::linorder, 'r) heap \<Rightarrow> addr \<Rightarrow> 'k bt \<Rightarrow> nat \<Rightarrow> bool" where
  "holds_tree ord h root t d \<longleftrightarrow>
     root = root_of t \<and> shape ord (nodes h) t d \<and> ordered (flat t) \<and>
     distinct (map snd (ents (flat t))) \<and> snd ` set (ents (flat t)) = dom (recs h)"

definition is_map :: "nat \<Rightarrow> ('k::linorder, 'r) heap \<Rightarrow> addr \<Rightarrow> ('k \<rightharpoonup> 'r) \<Rightarrow> bool" where
  "is_map ord h root m \<longleftrightarrow> 3 \<le> ord \<and> heap_ok h \<and>
     (if root = NULL then nodes h = Map.empty \<and> recs h = Map.empty \<and> m = Map.empty
      else \<exists>t d. holds_tree ord h root t d \<and> m = bpt_map h t)"

lemma heap_ok_NULL: "heap_ok h \<Longrightarrow> nodes h NULL = None" "heap_ok h \<Longrightarrow> recs h NULL = None"
  by (auto simp: heap_ok_def)

lemma heap_ok_fresh:
  "heap_ok h \<Longrightarrow> brk h \<le> a \<Longrightarrow> nodes h a = None" "heap_ok h \<Longrightarrow> brk h \<le> a \<Longrightarrow> recs h a = None"
  by (auto simp: heap_ok_def not_less[symmetric])

lemma shape_root: "shape ord N t d \<Longrightarrow> N (root_of t) \<noteq> None"
  by (auto simp: shape_def intro: rep_addrs)

section \<open>Order facts\<close>

lemma rsep_sorted: "length xs = length ks \<Longrightarrow> ordered (rsep ks xs) \<Longrightarrow> sorted_wrt (<) ks"
proof (induction xs ks rule: list_induct2)
  case (Cons x xs k ks)
  have "Sep k' \<in> set (rsep ks xs)" if "k' \<in> set ks" for k'
    using Cons.hyps that by (induction xs ks rule: list_induct2) auto
  moreover have "\<forall>m \<in> set (rsep ks xs). mark_lt (Sep k) m" using Cons.prems by simp
  ultimately have "k < k'" if "k' \<in> set ks" for k' using that by fastforce
  with Cons show ?case by (simp add: sorted_wrt_append)
qed simp

lemma flat_keys_sorted:
  assumes "ordered (flat (Nd a ks cs))" "length cs = Suc (length ks)"
  shows "sorted_wrt (<) ks"
proof (cases cs)
  case (Cons c cs')
  with assms rsep_sorted [of "map flat cs'" ks] show ?thesis by (simp add: sorted_wrt_append)
qed (use assms in simp)

lemma mark_lt_Sep_trans: "mark_lt m (Sep s) \<Longrightarrow> s \<le> k \<Longrightarrow> mark_lt m (Ent k p)"
  by (cases m) auto

lemma mark_Sep_lt_trans: "mark_lt (Sep s) m \<Longrightarrow> k < s \<Longrightarrow> mark_lt (Ent k p) m"
  by (cases m) auto

lemma lsep_before:
  assumes "length xs = length ks" "ordered (lsep xs ks)" "\<forall>k \<in> set ks. k \<le> key"
  shows "\<forall>m \<in> set (lsep xs ks). mark_lt m (Ent key p)"
proof (cases ks rule: rev_cases)
  case (snoc ks' k)
  then obtain xs' x where xs: "xs = xs' @ [x]" "length xs' = length ks'"
    using assms(1) by (cases xs rule: rev_cases) auto
  then have "lsep xs ks = lsep xs' ks' @ x @ [Sep k]" using snoc by simp
  with assms(2,3) snoc show ?thesis
    by (auto simp: sorted_wrt_append intro: mark_lt_Sep_trans)
qed (use assms in auto)

lemma rsep_after:
  assumes "length xs = length ks" "ordered (rsep ks xs)" "ks \<noteq> [] \<longrightarrow> key < hd ks"
  shows "\<forall>m \<in> set (rsep ks xs). mark_lt (Ent key p) m"
proof (cases ks)
  case (Cons k ks')
  then obtain x xs' where "xs = x # xs'" using assms(1) by (cases xs) auto
  with Cons assms(2,3) show ?thesis by (auto intro: mark_Sep_lt_trans)
qed (use assms in auto)

section \<open>The leaf that a search ends in\<close>

lemma zip_up_append: "zip_up t (fs @ gs) = zip_up (zip_up t fs) gs"
  by (induction fs arbitrary: t) auto

lemma ctx_flat_snoc:
  "ctx_lflat (fs @ [f]) = fr_lflat f @ ctx_lflat fs" "ctx_rflat (fs @ [f]) = ctx_rflat fs @ fr_rflat f"
  by (induction fs) auto

text \<open>\<open>around key fs\<close>: the key lies between what is left and what is right of the hole.\<close>

definition around :: "'k::linorder \<Rightarrow> 'k frame list \<Rightarrow> bool" where
  "around key fs \<longleftrightarrow> (\<forall>p. (\<forall>m \<in> set (ctx_lflat fs). mark_lt m (Ent key p)) \<and>
     (\<forall>m \<in> set (ctx_rflat fs). mark_lt (Ent key p) m))"

lemma scan_ge_child:
  assumes "arr (ord - 1) ks a" "sorted_wrt (<) ks"
  obtains xs ys where "ks = xs @ ys" "\<forall>x \<in> set xs. x \<le> key" "ys \<noteq> [] \<longrightarrow> key < hd ys"
    "scan_ge a (length ks) key 0 = Some (length xs)"
proof -
  from assms(2) obtain xs ys where ks: "ks = xs @ ys" "\<forall>x \<in> set xs. x \<le> key" "\<forall>y \<in> set ys. key < y"
    by (rule sorted_split_le)
  then have "ys \<noteq> [] \<longrightarrow> key < hd ys" by simp
  moreover from this have "scan_ge a (length ks) key 0 = Some (length xs)"
    using ks assms(1) by (intro scan_ge_split) auto
  ultimately show thesis using ks that by blast
qed

lemma find_leaf_loop_zip:
  assumes "rep ord (nodes h) par t" "fits ord r d t" "ordered (flat t)"
  shows "\<exists>a es fs. t = zip_up (Lf a es) fs \<and> find_leaf_loop h key (root_of t) = Some a \<and>
    (\<forall>f \<in> set fs. fr_ok f) \<and> around key fs \<and> d = length fs"
  using assms
proof (induction t arbitrary: par r d)
  case (Lf a es)
  then have "find_leaf_loop h key a = Some a" by (subst find_leaf_loop.simps) auto
  with Lf.prems(2) show ?case
    by (intro exI [of _ a] exI [of _ es] exI [of _ "[]"]) (simp add: around_def)
next
  case (Nd a ks cs)
  then obtain n where n: "nodes h a = Some n" "\<not> is_leaf n" "num_keys n = length ks"
    "arr (ord - 1) ks (keys n)" "arr ord (map root_of cs) (pointers n)"
    and len: "length cs = Suc (length ks)" and sub: "\<forall>c \<in> set cs. rep ord (nodes h) a c"
    by auto
  obtain xs ys where ks: "ks = xs @ ys" "\<forall>x \<in> set xs. x \<le> key" "ys \<noteq> [] \<longrightarrow> key < hd ys"
    "scan_ge (keys n) (length ks) key 0 = Some (length xs)"
    using scan_ge_child [OF n(4) flat_keys_sorted [OF Nd.prems(3) len], of key] by blast
  define c where "c = cs ! length xs"
  have "length xs < length cs" using ks(1) len by simp
  then have cs: "cs = take (length xs) cs @ c # drop (Suc (length xs)) cs"
    by (simp add: c_def id_take_nth_drop)
  define f where "f = Fr a xs (take (length xs) cs) ys (drop (Suc (length xs)) cs)"
  have f: "fr_ok f" "plug f c = Nd a ks cs" using ks(1) len cs by (auto simp: f_def)
  have c: "c \<in> set cs" by (subst cs) simp
  have fl: "flat (Nd a ks cs) = fr_lflat f @ flat c @ fr_rflat f"
    using flat_plug [OF f(1), of c] f(2) by simp
  then have "ordered (flat c)" using Nd.prems(3) by (simp add: sorted_wrt_append)
  with Nd.IH [OF c, of a False "d - 1"] Nd.prems(2) sub c
  obtain b es fs where IH: "c = zip_up (Lf b es) fs" "find_leaf_loop h key (root_of c) = Some b"
    "\<forall>g \<in> set fs. fr_ok g" "around key fs" "d - 1 = length fs"
    by (auto simp del: zip_up.simps)
  have "rd (pointers n) (length xs) = Some (root_of c)"
    using arr_rd [OF n(5), of "length xs"] len ks(1) by (simp add: c_def)
  then have "find_leaf_loop h key (root_of (Nd a ks cs)) = Some b"
    using n ks(4) IH(2) by (subst find_leaf_loop.simps) simp
  moreover have "Nd a ks cs = zip_up (Lf b es) (fs @ [f])"
    using f(2) IH(1) by (simp add: zip_up_append)
  moreover have "around key (fs @ [f])"
  proof -
    have "ordered (fr_lflat f)" "ordered (fr_rflat f)"
      using fl Nd.prems(3) by (simp_all add: sorted_wrt_append)
    moreover have "length (take (length xs) cs) = length xs" "length (drop (Suc (length xs)) cs) = length ys"
      using len ks(1) by auto
    ultimately have "\<forall>p. \<forall>m \<in> set (fr_lflat f). mark_lt m (Ent key p)"
      "\<forall>p. \<forall>m \<in> set (fr_rflat f). mark_lt (Ent key p) m"
      using ks(2,3) lsep_before [of "map flat (take (length xs) cs)" xs key]
        rsep_after [of "map flat (drop (Suc (length xs)) cs)" ys key]
      by (auto simp: f_def)
    with IH(4) show ?thesis by (auto simp: around_def ctx_flat_snoc)
  qed
  moreover have "d = length (fs @ [f])" using IH(5) Nd.prems(2) by auto
  moreover have "\<forall>g \<in> set (fs @ [f]). fr_ok g" using IH(3) f(1) by simp
  ultimately show ?case by blast
qed

text \<open>
  What the operations on the whole tree start from: the tree seen as the leaf that the
  search finds, in its context.
\<close>

lemma find_leaf_zip:
  assumes "shape ord (nodes h) t d" "ordered (flat t)" "heap_ok h"
  obtains a es fs where "t = zip_up (Lf a es) fs" "find_leaf h (root_of t) key = Some a"
    "a \<noteq> NULL" "\<forall>f \<in> set fs. fr_ok f" "around key fs"
    "rep ord (nodes h) (top_addr fs) (Lf a es)" "ctx_rep ord (nodes h) a fs"
    "fits ord (fs = []) 0 (Lf a es)" "ctx_fits ord 0 fs" "d = length fs"
    "flat t = ctx_lflat fs @ map (\<lambda>(k, p). Ent k p) es @ ctx_rflat fs"
proof -
  from assms have rep: "rep ord (nodes h) NULL t" and fits: "fits ord True d t"
    by (auto simp: shape_def)
  from find_leaf_loop_zip [OF rep fits assms(2), of key]
  obtain a es fs where t: "t = zip_up (Lf a es) fs" "find_leaf_loop h key (root_of t) = Some a"
    "\<forall>f \<in> set fs. fr_ok f" "around key fs" "d = length fs"
    by blast
  have "root_of t \<noteq> NULL" using shape_root [OF assms(1)] heap_ok_NULL [OF assms(3)] by metis
  then have "find_leaf h (root_of t) key = Some a" using t(2) by (simp add: find_leaf_def)
  moreover have r: "rep ord (nodes h) (top_addr fs) (Lf a es)" "ctx_rep ord (nodes h) a fs"
    using rep by (simp_all add: t(1) rep_zip_up del: rep.simps)
  moreover have "a \<noteq> NULL"
    using rep_addrs [OF r(1), of a] heap_ok_NULL(1) [OF assms(3)]
    by (metis addrs.simps(1) list.set_intros(1))
  moreover have "fits ord (fs = []) 0 (Lf a es) \<and> ctx_fits ord 0 fs"
    using fits t(1,5) fits_zip_up [OF t(3), of ord 0 "Lf a es"] by simp
  moreover have "flat t = ctx_lflat fs @ map (\<lambda>(k, p). Ent k p) es @ ctx_rflat fs"
    using flat_zip_up [OF t(3), of "Lf a es"] t(1) by simp
  ultimately show thesis using t that by blast
qed

text \<open>Only the leaf can hold an entry for the key.\<close>

lemma around_ents:
  assumes "around key fs"
  shows "map_of (ents (ctx_lflat fs @ map (\<lambda>(k, p). Ent k p) es @ ctx_rflat fs)) key = map_of es key"
proof -
  have "Ent key p \<notin> set (ctx_lflat fs) \<and> Ent key p \<notin> set (ctx_rflat fs)" for p
    using assms by (force simp: around_def)
  then have "key \<notin> fst ` set (ents (ctx_lflat fs))" "key \<notin> fst ` set (ents (ctx_rflat fs))"
    by (auto simp: set_ents)
  then have "map_of (ents (ctx_lflat fs)) key = None" "map_of (ents (ctx_rflat fs)) key = None"
    by (simp_all add: map_of_eq_None_iff)
  then show ?thesis by (simp add: map_add_def split: option.split)
qed

section \<open>find\<close>

lemma scan_leaf_keys:
  assumes "arr (ord - 1) (map fst es) ks" "distinct (map fst es)"
  obtains (found) i p where "scan_eq ks (length es) key 0 = Some i" "i < length es"
      "es ! i = (key, p)" "map_of es key = Some p"
  | (absent) "scan_eq ks (length es) key 0 = Some (length es)" "map_of es key = None"
proof (cases "map_of es key")
  case None
  then have "key \<notin> set (map fst es)" by (simp add: map_of_eq_None_iff)
  then have "scan_eq ks (length es) key 0 = Some (length es)"
    using scan_eq_split [of "ord - 1" "map fst es" "[]" ks "length es" 0 key] assms(1) by simp
  with None show thesis by (rule absent [rotated])
next
  case (Some p)
  then have "(key, p) \<in> set es" by (rule map_of_SomeD)
  then obtain us vs where es: "es = us @ (key, p) # vs" by (metis split_list)
  with assms(2) have "key \<notin> fst ` set us" by auto
  then have "scan_eq ks (length es) key 0 = Some (length us)"
    using scan_eq_split [of "ord - 1" "map fst us" "key # map fst vs" ks "length es" 0 key] assms(1) es
    by simp
  with es Some show thesis by (intro found) auto
qed

lemma find_bpt_zip:
  assumes "rep ord (nodes h) par (Lf a es)" "find_leaf h root key = Some a" "root \<noteq> NULL"
    "distinct (map fst es)"
  shows "find_bpt h root key = Some (case map_of es key of None \<Rightarrow> NULL | Some p \<Rightarrow> p, a)"
proof -
  from assms(1) obtain n where n: "nodes h a = Some n" "num_keys n = length es"
    "arr (ord - 1) (map fst es) (keys n)" "arr ord (map snd es) (pointers n)"
    by auto
  from n(3) assms(4) show ?thesis
  proof (cases rule: scan_leaf_keys [where key = key])
    case (found i p)
    then have "rd (pointers n) i = Some p" using arr_rd [OF n(4), of i] by simp
    with found n assms(2,3) show ?thesis by (simp add: find_bpt_def)
  next
    case absent
    with n assms(2,3) show ?thesis by (simp add: find_bpt_def)
  qed
qed

lemma leaf_keys_distinct:
  assumes "ordered (xs @ map (\<lambda>(k, p). Ent k p) es @ ys)"
  shows "sorted_wrt (<) (map fst es)" "distinct (map fst es)"
  using assms by (simp_all add: sorted_wrt_append strict_sorted_iff)

lemma find_bpt_tree:
  assumes "holds_tree ord h root t d" "heap_ok h"
  shows "\<exists>leaf. find_bpt h root key = Some (case map_of (ents (flat t)) key of None \<Rightarrow> NULL | Some p \<Rightarrow> p, leaf)"
proof -
  from assms have sh: "shape ord (nodes h) t d" and o: "ordered (flat t)" and root: "root = root_of t"
    by (auto simp: holds_tree_def)
  from find_leaf_zip [OF sh o assms(2), of key] obtain a es fs where
    z: "t = zip_up (Lf a es) fs" "find_leaf h (root_of t) key = Some a" "around key fs"
      "rep ord (nodes h) (top_addr fs) (Lf a es)"
      "flat t = ctx_lflat fs @ map (\<lambda>(k, p). Ent k p) es @ ctx_rflat fs"
    by metis
  have "root \<noteq> NULL" using shape_root [OF sh] heap_ok_NULL [OF assms(2)] root by metis
  moreover have "distinct (map fst es)" using o z(5) leaf_keys_distinct by metis
  ultimately have "find_bpt h root key = Some (case map_of es key of None \<Rightarrow> NULL | Some p \<Rightarrow> p, a)"
    using find_bpt_zip [OF z(4)] z(2) root by metis
  then show ?thesis using around_ents [OF z(3)] z(5) by (metis (lifting))
qed

text \<open>
  \<open>find\<close> on a tree for \<open>m\<close>: it returns, the record it returns holds the value of \<open>m\<close>,
  and it returns \<open>NULL\<close> for the keys that \<open>m\<close> does not have.
\<close>

lemma find_bpt_map:
  assumes "is_map ord h root m"
  shows "\<exists>p leaf. find_bpt h root key = Some (p, leaf) \<and> (p = NULL \<longleftrightarrow> m key = None) \<and> (p \<noteq> NULL \<longrightarrow> recs h p = m key)"
proof (cases "root = NULL")
  case True
  with assms show ?thesis by (simp add: is_map_def find_bpt_def)
next
  case False
  with assms obtain t d where t: "holds_tree ord h root t d" "m = bpt_map h t" and ok: "heap_ok h"
    by (auto simp: is_map_def)
  show ?thesis
  proof (cases "map_of (ents (flat t)) key")
    case None
    with find_bpt_tree [OF t(1) ok, of key] t(2) show ?thesis by (auto simp: bpt_map_def)
  next
    case (Some p)
    then have "p \<in> snd ` set (ents (flat t))" by (force dest: map_of_SomeD)
    then have "p \<in> dom (recs h)" using t(1) by (simp add: holds_tree_def)
    with heap_ok_NULL(2) [OF ok] have "p \<noteq> NULL" by (metis domIff)
    with Some \<open>p \<in> dom (recs h)\<close> find_bpt_tree [OF t(1) ok, of key] t(2) show ?thesis
      by (auto simp: bpt_map_def)
  qed
qed

section \<open>height\<close>

lemma height_loop_fits:
  assumes "rep ord (nodes h) par t" "fits ord r d t"
  shows "height_loop h (root_of t) i = Some (i + d)"
  using assms
proof (induction t arbitrary: par r d i)
  case (Lf a es)
  then show ?case by (subst height_loop.simps) auto
next
  case (Nd a ks cs)
  then obtain n where n: "nodes h a = Some n" "\<not> is_leaf n" "arr ord (map root_of cs) (pointers n)"
    and len: "length cs = Suc (length ks)" and sub: "\<forall>c \<in> set cs. rep ord (nodes h) a c"
    by auto
  from len obtain c cs' where cs: "cs = c # cs'" by (cases cs) auto
  then have "rd (pointers n) 0 = Some (root_of c)" using arr_rd [OF n(3), of 0] by simp
  moreover have "height_loop h (root_of c) (Suc i) = Some (Suc i + (d - 1))"
    using Nd.IH [of c a False "d - 1" "Suc i"] Nd.prems(2) sub cs by simp
  ultimately show ?case using n Nd.prems(2) by (subst height_loop.simps) simp
qed

end
