(* ===== verification/BPTree_Insert.thy ===== *)
theory BPTree_Insert
  imports BPTree_Find
begin

text \<open>
  Insertion: each node operation on the representation (\<open>insert_into_leaf\<close>, the two splits,
  \<open>insert_into_node\<close>, the new root), the climb of \<open>insert_into_parent\<close> by induction on the
  context of the node that was split, and the map law of \<open>insert\<close>.
\<close>

section \<open>Nodes by their contents\<close>

definition leaf_node :: "nat \<Rightarrow> addr \<Rightarrow> ('k \<times> addr) list \<Rightarrow> 'k node \<Rightarrow> bool" where
  "leaf_node ord par es n \<longleftrightarrow> is_leaf n \<and> parent n = par \<and> num_keys n = length es \<and>
     arr (ord - 1) (map fst es) (keys n) \<and> arr ord (map snd es) (pointers n)"

definition inner_node :: "nat \<Rightarrow> addr \<Rightarrow> 'k list \<Rightarrow> addr list \<Rightarrow> 'k node \<Rightarrow> bool" where
  "inner_node ord par ks ps n \<longleftrightarrow> \<not> is_leaf n \<and> parent n = par \<and> num_keys n = length ks \<and>
     arr (ord - 1) ks (keys n) \<and> arr ord ps (pointers n)"

lemma rep_Lf: "rep ord N par (Lf a es) \<longleftrightarrow> (\<exists>n. N a = Some n \<and> leaf_node ord par es n)"
  by (simp add: leaf_node_def)

lemma rep_Nd: "rep ord N par (Nd a ks cs) \<longleftrightarrow>
  (\<exists>n. N a = Some n \<and> inner_node ord par ks (map root_of cs) n) \<and> length cs = Suc (length ks) \<and>
  (\<forall>c \<in> set cs. rep ord N a c)"
  by (auto simp: inner_node_def)

lemma fr_rep_Fr: "fr_rep ord N par hole (Fr a ksl csl ksr csr) \<longleftrightarrow>
  (\<exists>n. N a = Some n \<and> inner_node ord par (ksl @ ksr) (map root_of csl @ hole # map root_of csr) n) \<and>
  length csl + length csr = length ksl + length ksr \<and>
  (\<forall>c \<in> set csl \<union> set csr. rep ord N a c)"
  by (auto simp: inner_node_def)

lemma ctx_rep_cong:
  "(\<And>x. x \<in> set (ctx_addrs fs) \<Longrightarrow> N x = N' x) \<Longrightarrow> ctx_rep ord N hole fs \<longleftrightarrow> ctx_rep ord N' hole fs"
proof (induction fs arbitrary: hole)
  case (Cons f fs)
  obtain a ksl csl ksr csr where f: "f = Fr a ksl csl ksr csr" by (cases f) auto
  have "rep ord N a c \<longleftrightarrow> rep ord N' a c" if "c \<in> set csl \<union> set csr" for c
    using that Cons.prems f by (intro rep_cong) auto
  with f Cons show ?case by auto
qed simp

lemma heap_ok_malloc: "heap_ok h \<Longrightarrow> malloc h = Some (brk h, h\<lparr>brk := Suc (brk h)\<rparr>)"
  by (simp add: malloc_def heap_ok_def)

definition tmp :: "('k, 'r) heap \<Rightarrow> nat" where
  "tmp h = (if malloc_temps h then 2 else 0)"

lemma temp_arrays_eq: "\<forall>a. \<not> oom h a \<Longrightarrow> temp_arrays h = Some (h\<lparr>brk := brk h + tmp h\<rparr>)"
  by (simp add: temp_arrays_def malloc_def tmp_def)

lemma tmp_upd [simp]: "tmp (h\<lparr>brk := b\<rparr>) = tmp h" "tmp (h\<lparr>nodes := N\<rparr>) = tmp h"
  by (simp_all add: tmp_def)

lemma heap_ok_make_node:
  "\<forall>a. \<not> oom h a \<Longrightarrow> make_node ord h = Some (brk h, h\<lparr>brk := brk h + 3,
     nodes := (nodes h)(brk h \<mapsto> \<lparr>pointers = new_array ord, keys = new_array (ord - 1), parent = NULL,
                       is_leaf = False, num_keys = 0, qnext = NULL\<rparr>)\<rparr>)"
  by (simp add: make_node_def malloc_def put_def)

lemma heap_ok_make_leaf:
  "\<forall>a. \<not> oom h a \<Longrightarrow> make_leaf ord h = Some (brk h, h\<lparr>brk := brk h + 3,
     nodes := (nodes h)(brk h \<mapsto> \<lparr>pointers = new_array ord, keys = new_array (ord - 1), parent = NULL,
                       is_leaf = True, num_keys = 0, qnext = NULL\<rparr>)\<rparr>)"
  by (simp add: make_leaf_def heap_ok_make_node put_def)

lemma cut_bounds: "3 \<le> ord \<Longrightarrow> 1 \<le> cut (ord - 1) \<and> cut (ord - 1) \<le> ord - 1 \<and> 1 \<le> cut ord - 1 \<and> cut ord \<le> ord - 1"
  unfolding cut_def by presburger

lemma upd_twist_same: "a \<noteq> b \<Longrightarrow> f(b := x, a := y, b := z) = f(a := y, b := z)"
  by auto

section \<open>Leaves\<close>

lemma leaf_insert_point:
  assumes "leaf_node ord par es n" "sorted_wrt (<) (map fst es)" "map_of es key = None"
  obtains es1 es2 where "es = es1 @ es2" "\<forall>x \<in> set (map fst es1). x < key"
    "\<forall>y \<in> set (map fst es2). key < y"
    "\<And>m. m = length es \<Longrightarrow> scan_lt (keys n) m key 0 = Some (length es1)"
proof -
  from assms(2) obtain xs ys where ks: "map fst es = xs @ ys" "\<forall>x \<in> set xs. x < key" "\<forall>y \<in> set ys. key \<le> y"
    by (rule sorted_split_lt)
  then obtain es1 es2 where es: "es = es1 @ es2" "xs = map fst es1" "ys = map fst es2"
    by (auto simp: map_eq_append_conv)
  have "key \<notin> set ys" using assms(3) ks(1) by (auto simp: map_of_eq_None_iff simp flip: set_map)
  with ks(3) have ys: "\<forall>y \<in> set ys. key < y" by (metis order_le_less)
  have "scan_lt (keys n) m key 0 = Some (length es1)" if "m = length es" for m
    using scan_lt_split [of "ord - 1" "map fst es1" "map fst es2" "keys n" m 0 key] assms(1) es ks ys that
    by (cases es2) (auto simp: leaf_node_def)
  with es ks ys show thesis by (intro that) auto
qed

lemma insert_into_leaf_node:
  assumes "nodes h a = Some n" "leaf_node ord par (es1 @ es2) n" "length (es1 @ es2) < ord - 1"
    and "scan_lt (keys n) (length (es1 @ es2)) key 0 = Some (length es1)"
  shows "\<exists>n'. insert_into_leaf h a key p = Some (a, put h a n') \<and>
    leaf_node ord par (es1 @ (key, p) # es2) n' \<and> rd (pointers n') (ord - 1) = rd (pointers n) (ord - 1)"
proof -
  let ?ks = "keys n" and ?ps = "pointers n" and ?i = "length es1" and ?m = "length es2"
  have n: "num_keys n = ?i + ?m" "arr (ord - 1) (map fst es1 @ map fst es2) ?ks"
    "arr ord (map snd es1 @ map snd es2) ?ps" "is_leaf n" "parent n = par"
    using assms(2) by (auto simp: leaf_node_def)
  have len: "length ?ks = ord - 1" "length ?ps = ord" using n by (auto simp: arr_length)
  have sh: "shift_up ?ks ?ps (num_keys n) ?i =
      Some (blit ?ks ?i ?ks (Suc ?i) ?m, blit ?ps ?i ?ps (Suc ?i) ?m)"
    using shift_up_eq [of ?i "num_keys n" ?ks ?ps] n len assms(3)
      arr_ini [OF n(2), of "num_keys n" ?i] arr_ini [OF n(3), of "num_keys n" ?i] by simp
  let ?ks' = "(blit ?ks ?i ?ks (Suc ?i) ?m)[?i := Some key]"
  let ?ps' = "(blit ?ps ?i ?ps (Suc ?i) ?m)[?i := Some p]"
  have "arr (ord - 1) (map fst es1 @ key # map fst es2) ?ks'" "arr ord (map snd es1 @ p # map snd es2) ?ps'"
    using arr_shift_up [OF n(2), of key] arr_shift_up [OF n(3), of p] assms(3) by auto
  moreover have "insert_into_leaf h a key p =
      Some (a, put h a (n\<lparr>keys := ?ks', pointers := ?ps', num_keys := Suc (num_keys n)\<rparr>))"
    using assms(1,3,4) sh len n(1) by (simp add: insert_into_leaf_def wr_Some)
  moreover have "rd ?ps' (ord - 1) = rd ?ps (ord - 1)"
    using assms(3) len by (auto simp: rd_update rd_blit_above)
  ultimately show ?thesis using n by (auto simp: leaf_node_def)
qed

lemma split_leaf_node:
  assumes "nodes h a = Some n" "leaf_node ord par (es1 @ es2) n" "length (es1 @ es2) = ord - 1"
    and "scan_lt (keys n) (ord - 1) key 0 = Some (length es1)"
    and "3 \<le> ord" "heap_ok h" "rd (pointers n) (ord - 1) = Some nxt"
    and E: "E = es1 @ (key, p) # es2"
  shows "\<exists>na nb. split_leaf ord h a key p = Some (fst (E ! cut (ord - 1)), brk h,
      h\<lparr>nodes := (nodes h)(a \<mapsto> na, brk h \<mapsto> nb), brk := brk h + 3 + tmp h\<rparr>) \<and>
    leaf_node ord par (take (cut (ord - 1)) E) na \<and> leaf_node ord par (drop (cut (ord - 1)) E) nb \<and>
    rd (pointers na) (ord - 1) = Some (brk h) \<and> rd (pointers nb) (ord - 1) = Some nxt"
proof -
  let ?ks = "keys n" and ?ps = "pointers n" and ?i = "length es1" and ?c = "cut (ord - 1)"
  have n: "num_keys n = ord - 1" "arr (ord - 1) (map fst es1 @ map fst es2) ?ks"
    "arr ord (map snd es1 @ map snd es2) ?ps" "is_leaf n" "parent n = par"
    using assms(2,3) by (auto simp: leaf_node_def)
  have len: "length ?ks = ord - 1" "length ?ps = ord" using n by (auto simp: arr_length)
  have c: "1 \<le> ?c" "?c \<le> ord - 1" "?c < ord" "ord - ?c \<le> ord - 1" using cut_bounds [OF assms(5)] assms(5) by auto
  have lenE: "length E = ord" using assms(3,5) E by auto
  have ab: "a \<noteq> brk h" using assms(1) heap_ok_fresh(1) [OF assms(6), of "brk h"] by auto
  have oom: "\<forall>a. \<not> oom h a" using assms(6) by (simp add: heap_ok_def)
  obtain tk where tk: "copy_gap ?ks (new_array ord) ?i (ord - 1) 0 0 = Some tk" "length tk = ord"
    "arr ord (map fst E) (tk[?i := Some key])"
    using copy_gap_insert [OF n(2), of "ord - 1" ord] assms(3,5) E by (auto simp: add.commute)
  obtain tp where tp: "copy_gap ?ps (new_array ord) ?i (ord - 1) 0 0 = Some tp" "length tp = ord"
    "arr ord (map snd E) (tp[?i := Some p])"
    using copy_gap_insert [OF n(3), of "ord - 1" ord] assms(3,5) E by (auto simp: add.commute)
  let ?tk = "tk[?i := Some key]" and ?tp = "tp[?i := Some p]"
  have i: "?i < ord" using assms(3,5) by auto
  define ks where "ks = blit ?tk 0 ?ks 0 ?c"
  define ps where "ps = blit ?tp 0 ?ps 0 ?c"
  have m1: "move_entries ?tk ?tp ?ks ?ps 0 0 0 ?c = Some (ks, ps, ?c, ?c, ?c)"
    using move_entries_eq [of 0 ?c ?tk ?tp 0 ?ks ?ps 0] c len lenE
      arr_ini [OF tk(3), of ?c 0] arr_ini [OF tp(3), of ?c 0] by (simp add: ks_def ps_def)
  let ?nk = "new_array (ord - 1)" and ?np = "new_array ord"
  define ks' where "ks' = blit ?tk ?c ?nk 0 (ord - ?c)"
  define ps' where "ps' = blit ?tp ?c ?np 0 (ord - ?c)"
  have m2: "move_entries ?tk ?tp ?nk ?np 0 ?c 0 ord = Some (ks', ps', ord - ?c, ord, ord - ?c)"
    using move_entries_eq [of ?c ord ?tk ?tp 0 ?nk ?np 0] c lenE
      arr_ini [OF tk(3), of ord ?c] arr_ini [OF tp(3), of ord ?c] by (simp add: ks'_def ps'_def)
  have aks: "arr (ord - 1) (map fst (take ?c E)) ks"
    using arr_blit_to_start [of ord "[]" "map fst (take ?c E)" "map fst (drop ?c E)" ?tk ?ks] tk(3) c len lenE
    by (simp add: ks_def min_absorb2 flip: map_append)
  have aps: "arr ord (map snd (take ?c E)) ps"
    using arr_blit_to_start [of ord "[]" "map snd (take ?c E)" "map snd (drop ?c E)" ?tp ?ps] tp(3) c len lenE
    by (simp add: ps_def min_absorb2 flip: map_append)
  have aks': "arr (ord - 1) (map fst (drop ?c E)) ks'"
    using arr_blit_to_start [of ord "map fst (take ?c E)" "map fst (drop ?c E)" "[]" ?tk ?nk] tk(3) c lenE
    by (simp add: ks'_def min_absorb2 flip: map_append)
  have aps': "arr ord (map snd (drop ?c E)) ps'"
    using arr_blit_to_start [of ord "map snd (take ?c E)" "map snd (drop ?c E)" "[]" ?tp ?np] tp(3) c lenE
    by (simp add: ps'_def min_absorb2 flip: map_append)
  have nxt: "rd ps (ord - 1) = Some nxt"
    using rd_blit_above [of 0 ?c ?tp 0 "ord - 1" ?ps] c len tp(2) assms(7) by (simp add: ps_def)
  have len': "length ps = ord" "length ps' = ord" using aps aps' by (auto simp: arr_length)
  obtain ps1 where ps1: "fill_null (ps[ord - 1 := Some (brk h)]) ?c (ord - 1) = Some ps1"
    "arr ord (map snd (take ?c E)) ps1" "rd ps1 (ord - 1) = Some (brk h)"
    using fill_null_link [OF aps, of ?c "ord - 1" "brk h"] c lenE assms(5) by auto
  obtain ps1' where ps1': "fill_null (ps'[ord - 1 := Some nxt]) (ord - ?c) (ord - 1) = Some ps1'"
    "arr ord (map snd (drop ?c E)) ps1'" "rd ps1' (ord - 1) = Some nxt"
    using fill_null_link [OF aps', of "ord - ?c" "ord - 1" nxt] c lenE assms(5) by auto
  have k0: "rd ks' 0 = Some (fst (E ! ?c))"
    using arr_rd [OF aks', of 0] c lenE by simp
  let ?na = "n\<lparr>keys := ks, pointers := ps1, num_keys := ?c\<rparr>"
  let ?nb = "\<lparr>pointers = ps1', keys = ks', parent = parent n, is_leaf = True, num_keys = ord - ?c, qnext = NULL\<rparr>"
  have "split_leaf ord h a key p = Some (fst (E ! ?c), brk h,
      h\<lparr>nodes := (nodes h)(a \<mapsto> ?na, brk h \<mapsto> ?nb), brk := brk h + 3 + tmp h\<rparr>)"
    using assms(1,4) ab oom tk(1,2) tp(1,2) m1 m2 nxt ps1(1) ps1'(1) k0 n(1) i len' assms(5)
    by (simp add: split_leaf_def heap_ok_make_leaf temp_arrays_eq wr_Some put_def upd_twist_same Let_def)
  moreover have "leaf_node ord par (take ?c E) ?na" "leaf_node ord par (drop ?c E) ?nb"
    using aks ps1 aks' ps1' n c lenE by (auto simp: leaf_node_def)
  ultimately show ?thesis using ps1(3) ps1'(3) by (intro exI [of _ ?na] exI [of _ ?nb]) auto
qed

section \<open>Splitting a node\<close>

lemma heap_upd_swap: "h\<lparr>brk := x, nodes := y\<rparr> = h\<lparr>nodes := y, brk := x\<rparr>"
  by simp

lemma arr_blit_snoc:
  assumes "arr L (us @ xs @ x # vs) src" "arr M [] dst" "length xs < M"
  shows "arr M (xs @ [x]) ((blit src (length us) dst 0 (length xs))[length xs := Some x])"
proof -
  have "arr M xs (blit src (length us) dst 0 (length xs))"
    using arr_blit_to_start [OF assms(1), of dst] assms(2,3) by simp
  then show ?thesis using assms(3) by (rule arr_snoc_upd)
qed

lemma split_node_arrays:
  fixes ord a li h psl psr ksl ksr
  assumes "nodes h a = Some n" "inner_node ord par (ksl @ ksr) (psl @ l # psr) n"
    and "length psl = length ksl" "length psr = length ksr" "length (ksl @ ksr) = ord - 1" "3 \<le> ord" "heap_ok h"
    and K: "K = ksl @ key # ksr" and P: "P = psl @ l # right # psr"
  shows "\<exists>na nb. split_node ord h a (length ksl) key right =
      Option.bind (set_parents (h\<lparr>nodes := (nodes h)(a \<mapsto> na, brk h + tmp h \<mapsto> nb), brk := brk h + 3 + tmp h\<rparr>)
             (pointers nb) (brk h + tmp h) 0 (length (drop (cut ord) P)))
        (\<lambda>h'. Some (K ! (cut ord - 1), brk h + tmp h, h')) \<and>
    inner_node ord par (take (cut ord - 1) K) (take (cut ord) P) na \<and>
    inner_node ord par (drop (cut ord) K) (drop (cut ord) P) nb"
proof -
  let ?ks = "keys n" and ?ps = "pointers n" and ?i = "length ksl" and ?b = "brk h + tmp h"
  define c where "c = cut ord - 1"
  have c: "1 \<le> c" "Suc c < ord" "cut ord = Suc c" using cut_bounds [OF assms(6)] assms(6) by (auto simp: c_def)
  have n: "num_keys n = ord - 1" "arr (ord - 1) (ksl @ ksr) ?ks" "arr ord (psl @ l # psr) ?ps" "\<not> is_leaf n" "parent n = par"
    using assms(2,5) by (auto simp: inner_node_def)
  have len: "length ?ks = ord - 1" "length ?ps = ord" using n by (auto simp: arr_length)
  have lenK: "length K = ord" "length P = Suc ord" using assms(3-6) K P by auto
  have ab: "a \<noteq> ?b" using assms(1) heap_ok_fresh(1) [OF assms(7), of ?b] by auto
  have oom: "\<forall>a. \<not> oom h a" using assms(7) by (simp add: heap_ok_def)
  obtain tk where tk: "copy_gap ?ks (new_array ord) ?i (ord - 1) 0 0 = Some tk" "length tk = ord"
    "arr ord K (tk[?i := Some key])"
    using copy_gap_insert [OF n(2), of "ord - 1" ord] assms(5,6) K by auto
  have "arr ord ((psl @ [l]) @ psr) ?ps" using n(3) by simp
  then obtain tp where tp: "copy_gap ?ps (new_array (ord + 1)) (Suc ?i) (Suc (ord - 1)) 0 0 = Some tp"
    "length tp = Suc ord" "arr (Suc ord) P (tp[Suc ?i := Some right])"
    using copy_gap_insert [of ord "psl @ [l]" psr ?ps "Suc (ord - 1)" "ord + 1"] assms(3-6) P by auto
  let ?tk = "tk[?i := Some key]" and ?tp = "tp[Suc ?i := Some right]"
  have i: "?i < ord" using assms(5,6) by auto
  define ks where "ks = blit ?tk 0 ?ks 0 c"
  define ps where "ps = blit ?tp 0 ?ps 0 c"
  have m1: "move_entries ?tk ?tp ?ks ?ps 0 0 0 c = Some (ks, ps, c, c, c)"
    using move_entries_eq [of 0 c ?tk ?tp 0 ?ks ?ps 0] c len lenK
      arr_ini [OF tk(3), of c 0] arr_ini [OF tp(3), of c 0] by (simp add: ks_def ps_def)
  let ?nk = "new_array (ord - 1)" and ?np = "new_array ord" and ?d = "ord - Suc c"
  define ks' where "ks' = blit ?tk (Suc c) ?nk 0 ?d"
  define ps' where "ps' = blit ?tp (Suc c) ?np 0 ?d"
  have m2: "move_entries ?tk ?tp ?nk ?np 0 (Suc c) 0 ord = Some (ks', ps', ?d, ord, ?d)"
    using move_entries_eq [of "Suc c" ord ?tk ?tp 0 ?nk ?np 0] c lenK
      arr_ini [OF tk(3), of ord "Suc c"] arr_ini [OF tp(3), of ord "Suc c"] by (simp add: ks'_def ps'_def)
  have rds: "rd ?tp c = Some (P ! c)" "rd ?tp ord = Some (P ! ord)" "rd ?tk c = Some (K ! c)"
    using arr_rd [OF tp(3), of c] arr_rd [OF tp(3), of ord] arr_rd [OF tk(3), of c] c lenK by auto
  have aks: "arr (ord - 1) (take c K) ks"
    using arr_blit_to_start [of ord "[]" "take c K" "drop c K" ?tk ?ks] tk(3) c len lenK
    by (simp add: ks_def min_absorb2)
  have aps: "arr ord (take (Suc c) P) (ps[c := Some (P ! c)])"
    using arr_blit_snoc [of "Suc ord" "[]" "take c P" "P ! c" "drop (Suc c) P" ?tp ord ?ps] tp(3) c len lenK
    by (simp add: ps_def min_absorb2 id_take_nth_drop [symmetric] take_Suc_conv_app_nth)
  have aks': "arr (ord - 1) (drop (Suc c) K) ks'"
    using arr_blit_to_start [of ord "take (Suc c) K" "drop (Suc c) K" "[]" ?tk ?nk] tk(3) c lenK
    by (simp add: ks'_def min_absorb2)
  have dP: "drop (Suc c) P = take ?d (drop (Suc c) P) @ [P ! ord]"
    using c lenK by (intro nth_equalityI) (auto simp: nth_append less_Suc_eq Suc_diff_Suc intro!: arg_cong [where f = "nth P"])
  have aps': "arr ord (drop (Suc c) P) (ps'[?d := Some (P ! ord)])"
    using arr_blit_snoc [of "Suc ord" "take (Suc c) P" "take ?d (drop (Suc c) P)" "P ! ord" "[]" ?tp ord ?np] tp(3) c lenK
    by (subst dP) (simp add: ps'_def min_absorb2 flip: dP)
  have len': "length ps = ord" "length ps' = ord" using aps aps' by (auto simp: arr_iff)
  let ?na = "n\<lparr>keys := ks, pointers := ps[c := Some (P ! c)], num_keys := c\<rparr>"
  let ?nb = "\<lparr>pointers = ps'[?d := Some (P ! ord)], keys = ks', parent = parent n, is_leaf = False, num_keys = ?d, qnext = NULL\<rparr>"
  have d: "length (drop (Suc c) P) = Suc ?d" using c lenK by simp
  have "split_node ord h a ?i key right =
      Option.bind (set_parents (h\<lparr>nodes := (nodes h)(a \<mapsto> ?na, ?b \<mapsto> ?nb), brk := brk h + 3 + tmp h\<rparr>)
             (pointers ?nb) ?b 0 (Suc ?d)) (\<lambda>h'. Some (K ! c, ?b, h'))"
    using assms(1) ab oom tk(1,2) tp(1,2) m1 m2 rds n(1) i len' c assms(6)
    by (simp add: split_node_def heap_ok_make_node temp_arrays_eq wr_Some put_def upd_twist_same Let_def heap_upd_swap add_ac)
  moreover have "inner_node ord par (take c K) (take (Suc c) P) ?na" "inner_node ord par (drop (Suc c) K) (drop (Suc c) P) ?nb"
    using aks aps aks' aps' n c lenK by (auto simp: inner_node_def)
  ultimately show ?thesis unfolding c(3) d diff_Suc_1 by - (rule exI [of _ ?na], rule exI [of _ ?nb], simp)
qed

lemma weave_append:
  assumes "length xs1 = Suc (length ks1)" "xs2 \<noteq> []"
  shows "weave (ks1 @ k # ks2) (xs1 @ xs2) = weave ks1 xs1 @ Sep k # weave ks2 xs2"
proof -
  obtain x xs where "xs1 = x # xs" "length xs = length ks1" using assms(1) by (cases xs1) auto
  with assms(2) show ?thesis by (simp add: rsep_weave)
qed

lemma weave_cut:
  assumes "i < length ks" "length xs = Suc (length ks)"
  shows "weave (take i ks) (take (Suc i) xs) @ Sep (ks ! i) # weave (drop (Suc i) ks) (drop (Suc i) xs) = weave ks xs"
  using weave_append [of "take (Suc i) xs" "take i ks" "drop (Suc i) xs" "ks ! i" "drop (Suc i) ks"] assms
  by (simp add: id_take_nth_drop [symmetric])

lemma split_node_rep:
  fixes C :: "'k bt list"
  assumes fr: "fr_rep ord (nodes h) par (root_of l) (Fr a ksl csl ksr csr)"
    and sub: "rep ord (nodes h) a l" "rep ord (nodes h) a r"
    and len: "length csl = length ksl" "length csr = length ksr" "length ksl + length ksr = ord - 1"
    and ok: "3 \<le> ord" "heap_ok h" and K: "K = ksl @ key # ksr" and C: "C = csl @ l # r # csr"
    and dist: "distinct (a # concat (map addrs C))"
  shows "\<exists>N. split_node ord h a (length ksl) key (root_of r) =
      Some (K ! (cut ord - 1), brk h + tmp h, h\<lparr>nodes := N, brk := brk h + 3 + tmp h\<rparr>) \<and>
    rep ord N par (Nd a (take (cut ord - 1) K) (take (cut ord) C)) \<and>
    rep ord N par (Nd (brk h + tmp h) (drop (cut ord) K) (drop (cut ord) C)) \<and>
    (\<forall>x. x \<notin> insert a (insert (brk h + tmp h) (set (map root_of C))) \<longrightarrow> N x = nodes h x) \<and>
    (\<forall>x. x \<noteq> a \<and> x \<noteq> brk h + tmp h \<longrightarrow> ptrs N x = ptrs (nodes h) x) \<and> dom N = insert (brk h + tmp h) (dom (nodes h))"
proof -
  let ?b = "brk h + tmp h" and ?N = "nodes h" and ?L = "take (cut ord) C" and ?R = "drop (cut ord) C"
  from fr obtain n where n: "?N a = Some n" "inner_node ord par (ksl @ ksr) (map root_of csl @ root_of l # map root_of csr) n"
    and cs: "\<forall>c \<in> set csl \<union> set csr. rep ord ?N a c"
    unfolding fr_rep_Fr by blast
  have "\<forall>c \<in> set C. rep ord ?N a c" using cs sub C by auto
  have P: "map root_of C = map root_of csl @ root_of l # root_of r # map root_of csr" using C by simp
  obtain na nb where s: "split_node ord h a (length ksl) key (root_of r) =
      Option.bind (set_parents (h\<lparr>nodes := ?N(a \<mapsto> na, ?b \<mapsto> nb), brk := brk h + 3 + tmp h\<rparr>)
             (pointers nb) ?b 0 (length (drop (cut ord) (map root_of C))))
        (\<lambda>h'. Some (K ! (cut ord - 1), ?b, h'))"
    "inner_node ord par (take (cut ord - 1) K) (take (cut ord) (map root_of C)) na"
    "inner_node ord par (drop (cut ord) K) (drop (cut ord) (map root_of C)) nb"
    using split_node_arrays [OF n(1,2) _ _ _ ok K P] len by auto
  let ?M = "?N(a \<mapsto> na, ?b \<mapsto> nb)"
  have ab: "a \<noteq> ?b" using n(1) heap_ok_fresh(1) [OF ok(2), of ?b] by auto
  have fresh: "?b \<notin> set (addrs c)" if "c \<in> set C" for c
    using rep_addrs [of ord ?N a c ?b] heap_ok_fresh(1) [OF ok(2), of ?b] \<open>\<forall>c \<in> set C. rep ord ?N a c\<close> that by auto
  have M: "\<forall>c \<in> set C. rep ord ?M a c"
    using \<open>\<forall>c \<in> set C. rep ord ?N a c\<close> fresh dist by (auto intro!: rep_upd [THEN iffD2])
  have dLR: "distinct (concat (map addrs (?L @ ?R)))" using dist by simp
  have MR: "\<forall>c \<in> set ?R. rep ord ?M a c" using M by (auto dest: in_set_dropD)
  have dR: "distinct (concat (map addrs ?R))" using dLR by (simp only: map_append concat_append distinct_append)
  have "arr ord (map root_of ?R) (pointers nb)" using s(3) by (simp add: inner_node_def drop_map)
  moreover define H where "H = h\<lparr>nodes := ?M, brk := brk h + 3 + tmp h\<rparr>"
  moreover have H: "nodes H = ?M" "\<And>N. H\<lparr>nodes := N\<rparr> = h\<lparr>nodes := N, brk := brk h + 3 + tmp h\<rparr>"
    by (simp_all add: H_def)
  moreover have "length ?R = length ([] :: addr list) + length ?R" by simp
  ultimately obtain N where N: "set_parents H (pointers nb) ?b 0 (length ?R) = Some (h\<lparr>nodes := N, brk := brk h + 3 + tmp h\<rparr>)"
      "\<forall>c \<in> set ?R. rep ord N ?b c" "\<forall>x. x \<notin> set (map root_of ?R) \<longrightarrow> N x = ?M x" "ptrs N = ptrs ?M" "dom N = dom ?M"
    using set_parents_rep [of ord "[]" ?R "pointers nb" "length ?R" ord H "\<lambda>_. a" ?b] MR dR
    unfolding H append_Nil list.size(3) by blast
  have disj: "set (concat (map addrs ?L)) \<inter> set (concat (map addrs ?R)) = {}"
    using dLR by (simp only: map_append concat_append distinct_append)
  have L: "\<forall>c \<in> set ?L. rep ord N a c"
  proof
    fix c assume c: "c \<in> set ?L"
    have "x \<notin> set (map root_of ?R)" if "x \<in> set (addrs c)" for x
    proof
      assume "x \<in> set (map root_of ?R)"
      then obtain d where "d \<in> set ?R" "x \<in> set (addrs d)" by auto
      then have "x \<in> set (concat (map addrs ?R))" by auto
      moreover have "x \<in> set (concat (map addrs ?L))" using c that by auto
      ultimately show False using disj by blast
    qed
    then have "\<And>x. x \<in> set (addrs c) \<Longrightarrow> N x = ?M x" using N(3) by blast
    then have "rep ord N a c \<longleftrightarrow> rep ord ?M a c" by (rule rep_cong)
    moreover have "c \<in> set C" using c by (rule in_set_takeD)
    ultimately show "rep ord N a c" using M by blast
  qed
  have "z \<notin> set (map root_of ?R)" if "\<forall>c \<in> set C. z \<notin> set (addrs c)" for z
  proof
    assume "z \<in> set (map root_of ?R)"
    then obtain c where "c \<in> set ?R" "z = root_of c" by auto
    then have "c \<in> set C" "z \<in> set (addrs c)" by (simp_all add: in_set_dropD)
    with that show False by blast
  qed
  then have "a \<notin> set (map root_of ?R)" "?b \<notin> set (map root_of ?R)" using dist fresh by auto
  then have Nab: "N a = Some na" "N ?b = Some nb" using N(3) ab by auto
  have lenC: "length C = Suc ord" "length K = ord" using len ok C K by auto
  then have "rep ord N par (Nd a (take (cut ord - 1) K) ?L)" "rep ord N par (Nd ?b (drop (cut ord) K) ?R)"
    unfolding rep_Nd using Nab s(2,3) L N(2) cut_bounds [OF ok(1)] by (auto simp: take_map drop_map)
  moreover have "N x = ?N x" if "x \<notin> insert a (insert ?b (set (map root_of C)))" for x
  proof -
    have "set ?R \<subseteq> set C" by (rule set_drop_subset)
    then have "x \<notin> set (map root_of ?R)" using that by auto
    with N(3) that show ?thesis by auto
  qed
  moreover have "ptrs N x = ptrs ?N x" if "x \<noteq> a" "x \<noteq> ?b" for x
    using N(4) that by (simp add: ptrs_upd)
  moreover have "dom N = insert ?b (dom ?N)" using N(5) n(1) by auto
  ultimately show ?thesis using s(1) N(1) by (intro exI [of _ N]) (simp add: H_def)
qed

lemma distinct_roots:
  "distinct (addrs l @ addrs r) \<Longrightarrow> root_of l \<notin> set (addrs r) \<and> root_of r \<notin> set (addrs l)"
  using root_in_addrs [of l] root_in_addrs [of r] by (simp only: distinct_append) blast

lemma get_left_index_frame:
  assumes "fr_rep ord (nodes h) par hole (Fr a ksl csl ksr csr)" "length csl = length ksl" "hole \<notin> set (map root_of csl)"
  shows "get_left_index h a hole = Some (length ksl)"
proof -
  from assms(1) obtain n where n: "nodes h a = Some n" "num_keys n = length ksl + length ksr"
    "length csl + length csr = length ksl + length ksr"
    "arr ord (map root_of csl @ hole # map root_of csr) (pointers n)" by auto
  with assms(2,3) scan_eq_split [OF n(4), of "Suc (num_keys n)" 0 hole] show ?thesis
    by (simp add: get_left_index_def)
qed

lemma insert_into_node_rep:
  assumes fr: "fr_rep ord (nodes h) par (root_of l) (Fr a ksl csl ksr csr)"
    and sub: "rep ord (nodes h) a l" "rep ord (nodes h) a r"
    and len: "length csl = length ksl" "length csr = length ksr" "length ksl + length ksr < ord - 1"
    and dist: "distinct (a # concat (map addrs (csl @ l # r # csr)))"
  shows "\<exists>n'. insert_into_node h root a (length ksl) key (root_of r) = Some (root, h\<lparr>nodes := (nodes h)(a \<mapsto> n')\<rparr>) \<and>
    rep ord ((nodes h)(a \<mapsto> n')) par (Nd a (ksl @ key # ksr) (csl @ l # r # csr))"
proof -
  from fr obtain n where n: "nodes h a = Some n" "inner_node ord par (ksl @ ksr) (map root_of csl @ root_of l # map root_of csr) n"
    and cs: "\<forall>c \<in> set csl \<union> set csr. rep ord (nodes h) a c"
    unfolding fr_rep_Fr by blast
  let ?ks = "keys n" and ?ps = "pointers n" and ?i = "length ksl" and ?m = "length ksr"
  have nn: "num_keys n = ?i + ?m" "arr (ord - 1) (ksl @ ksr) ?ks" "\<not> is_leaf n" "parent n = par"
      "arr ord (map root_of csl @ root_of l # map root_of csr) ?ps"
    using n(2) by (auto simp: inner_node_def)
  have l: "length ?ks = ord - 1" "length ?ps = ord" using nn by (auto simp: arr_length)
  let ?ks' = "(blit ?ks ?i ?ks (Suc ?i) ?m)[?i := Some key]"
  let ?ps' = "(blit ?ps (Suc ?i) ?ps (Suc (Suc ?i)) ?m)[Suc ?i := Some (root_of r)]"
  have "shift_up_node ?ks ?ps (num_keys n) ?i = Some (blit ?ks ?i ?ks (Suc ?i) ?m, blit ?ps (Suc ?i) ?ps (Suc (Suc ?i)) ?m)"
    using shift_up_node_eq [of ?i "num_keys n" ?ks ?ps] nn(1) l len
      arr_ini [OF nn(2), of "num_keys n" ?i] arr_ini [OF nn(5), of "Suc (num_keys n)" "Suc ?i"] by simp
  then have ins: "insert_into_node h root a ?i key (root_of r) =
      Some (root, h\<lparr>nodes := (nodes h)(a \<mapsto> n\<lparr>keys := ?ks', pointers := ?ps', num_keys := Suc (num_keys n)\<rparr>)\<rparr>)"
    using n(1) l len nn(1) by (simp add: insert_into_node_def wr_Some put_def)
  have "arr (ord - 1) (ksl @ key # ksr) ?ks'" using arr_shift_up [OF nn(2), of key] len by simp
  moreover have "arr ord (map root_of csl @ root_of l # root_of r # map root_of csr) ?ps'"
    using arr_shift_up_node [OF nn(5), of "root_of r"] len by simp
  ultimately have "inner_node ord par (ksl @ key # ksr) (map root_of (csl @ l # r # csr))
      (n\<lparr>keys := ?ks', pointers := ?ps', num_keys := Suc (num_keys n)\<rparr>)"
    using nn by (simp add: inner_node_def)
  moreover have "rep ord ((nodes h)(a \<mapsto> x)) a c" if "c \<in> set (csl @ l # r # csr)" for c x
  proof -
    have "a \<notin> set (addrs c)" using dist that by auto
    with that cs sub show ?thesis by auto
  qed
  ultimately show ?thesis using ins len
    by (intro exI [of _ "n\<lparr>keys := ?ks', pointers := ?ps', num_keys := Suc (num_keys n)\<rparr>"]) (auto simp: rep_Nd simp del: rep.simps)
qed

lemma insert_into_new_root_rep:
  assumes sub: "rep ord (nodes h) NULL l" "rep ord (nodes h) NULL r" and ok: "3 \<le> ord" "heap_ok h"
    and dist: "distinct (addrs l @ addrs r)"
  shows "\<exists>N. insert_into_new_root ord h (root_of l) key (root_of r) = Some (brk h, h\<lparr>nodes := N, brk := brk h + 3\<rparr>) \<and>
    rep ord N NULL (Nd (brk h) [key] [l, r]) \<and> dom N = insert (brk h) (dom (nodes h)) \<and>
    (\<forall>x. x \<noteq> brk h \<longrightarrow> ptrs N x = ptrs (nodes h) x)"
proof -
  obtain ln rn where n: "nodes h (root_of l) = Some ln" "nodes h (root_of r) = Some rn"
    using sub rep_node by metis
  have b: "brk h \<notin> set (addrs l)" "brk h \<notin> set (addrs r)"
    using rep_addrs [OF sub(1), of "brk h"] rep_addrs [OF sub(2), of "brk h"] heap_ok_fresh(1) [OF ok(2), of "brk h"] by auto
  then have bn: "root_of l \<noteq> brk h" "root_of r \<noteq> brk h" using root_in_addrs by metis+
  have lr: "root_of l \<noteq> root_of r" "root_of l \<notin> set (addrs r)" "root_of r \<notin> set (addrs l)"
    using distinct_roots [OF dist] root_in_addrs [of l] by metis+
  let ?rt = "\<lparr>pointers = (new_array ord)[0 := Some (root_of l), 1 := Some (root_of r)],
     keys = (new_array (ord - 1))[0 := Some key], parent = NULL, is_leaf = False, num_keys = 1, qnext = NULL\<rparr>"
  let ?N = "(nodes h)(brk h \<mapsto> ?rt, root_of l \<mapsto> ln\<lparr>parent := brk h\<rparr>, root_of r \<mapsto> rn\<lparr>parent := brk h\<rparr>)"
  have "insert_into_new_root ord h (root_of l) key (root_of r) = Some (brk h, h\<lparr>nodes := ?N, brk := brk h + 3\<rparr>)"
    using ok(1) n bn lr(1) heap_ok_make_node [of h ord] ok(2)
    by (simp add: insert_into_new_root_def wr_Some put_def Let_def heap_ok_def heap_upd_swap)
  moreover have "rep ord ?N (brk h) l"
    using rep_reparent [of ord "(nodes h)(brk h \<mapsto> ?rt)" NULL l ln "brk h"] sub(1) n(1) bn(1) b(1) lr(3) dist by simp
  moreover have "rep ord ?N (brk h) r"
    using rep_reparent [of ord "(nodes h)(brk h \<mapsto> ?rt, root_of l \<mapsto> ln\<lparr>parent := brk h\<rparr>)" NULL r rn "brk h"]
      sub(2) n(2) bn(2) b(2) lr dist by simp
  moreover have "inner_node ord NULL [key] (map root_of [l, r]) ?rt"
    using ok(1) by (auto simp: inner_node_def arr_iff nth_list_update less_Suc_eq)
  moreover have "?N (brk h) = Some ?rt" using bn by simp
  moreover have "dom ?N = insert (brk h) (dom (nodes h))" using n by auto
  moreover have "ptrs ?N x = ptrs (nodes h) x" if "x \<noteq> brk h" for x using that n by (auto simp: ptrs_def)
  ultimately show ?thesis unfolding rep_Nd by (intro exI [of _ ?N]) auto
qed

section \<open>The climb\<close>

text \<open>
  The state in which \<open>insert_into_parent\<close> is called: the subtree at the hole of \<open>fs\<close> has
  been split into \<open>l\<close>, which is in place, and \<open>r\<close>, which no node points to yet.
\<close>

definition pending :: "nat \<Rightarrow> ('k, 'r) heap \<Rightarrow> nat \<Rightarrow> 'k bt \<Rightarrow> 'k bt \<Rightarrow> 'k frame list \<Rightarrow> bool" where
  "pending ord h d l r fs \<longleftrightarrow> 3 \<le> ord \<and> heap_ok h \<and>
     rep ord (nodes h) (top_addr fs) l \<and> rep ord (nodes h) (top_addr fs) r \<and> ctx_rep ord (nodes h) (root_of l) fs \<and>
     distinct (addrs l @ addrs r @ ctx_addrs fs) \<and> dom (nodes h) = set (addrs l @ addrs r @ ctx_addrs fs) \<and>
     fits ord False d l \<and> fits ord False d r \<and> ctx_fits ord d fs"

definition grown ::
  "nat \<Rightarrow> ('k, 'r) heap \<Rightarrow> 'k bt \<Rightarrow> 'k \<Rightarrow> 'k bt \<Rightarrow> 'k frame list \<Rightarrow> (addr \<times> ('k, 'r) heap) option \<Rightarrow> bool" where
  "grown ord h l key r fs res \<longleftrightarrow> (\<exists>t d h'. res = Some (root_of t, h') \<and> heap_ok h' \<and> recs h' = recs h \<and>
     rep ord (nodes h') NULL t \<and> distinct (addrs t) \<and> dom (nodes h') = set (addrs t) \<and> fits ord True d t \<and>
     flat t = ctx_lflat fs @ flat l @ Sep key # flat r @ ctx_rflat fs \<and>
     leaf_addrs t = ctx_lleaves fs @ leaf_addrs l @ leaf_addrs r @ ctx_rleaves fs \<and>
     (\<forall>x \<in> set (leaf_addrs t). ptrs (nodes h') x = ptrs (nodes h) x))"

lemma grownI:
  assumes "res = Some (root_of t, h\<lparr>nodes := N, brk := k\<rparr>)" "heap_ok (h\<lparr>nodes := N, brk := k\<rparr>)"
    "rep ord N NULL t" "distinct (addrs t)" "set (addrs t) = dom N" "fits ord True d t"
    "flat t = ctx_lflat fs @ flat l @ Sep key # flat r @ ctx_rflat fs"
    "leaf_addrs t = ctx_lleaves fs @ leaf_addrs l @ leaf_addrs r @ ctx_rleaves fs"
    "\<And>x. x \<in> set (leaf_addrs t) \<Longrightarrow> ptrs N x = ptrs (nodes h) x"
  shows "grown ord h l key r fs res"
  unfolding grown_def using assms
  by (intro exI [of _ t] exI [of _ d] exI [of _ "h\<lparr>nodes := N, brk := k\<rparr>"]) simp

lemma root_zip_up: "root_of (zip_up t fs) = (if fs = [] then root_of t else fr_addr (last fs))"
  by (induction fs arbitrary: t) auto

lemma heap_ok_upd:
  assumes "heap_ok h" "dom N = insert b (dom (nodes h)) \<or> dom N = dom (nodes h)" "brk h \<le> b" "b < k"
  shows "heap_ok (h\<lparr>nodes := N, brk := k\<rparr>)"
proof -
  have h: "0 < brk h" "\<And>x. x \<in> dom (nodes h) \<union> dom (recs h) \<Longrightarrow> 0 < x \<and> x < brk h" "\<forall>a. \<not> oom h a"
    using assms(1) by (auto simp: heap_ok_def)
  have "0 < x \<and> x < k" if "x \<in> dom N \<union> dom (recs h)" for x
  proof (cases "x = b")
    case False
    with that assms(2) have "x \<in> dom (nodes h) \<union> dom (recs h)" by blast
    with h(2) assms(3,4) show ?thesis by (meson less_le_trans less_trans)
  qed (use h(1) assms(3,4) in simp)
  with h assms(3,4) show ?thesis by (simp add: heap_ok_def)
qed

lemma pending_root:
  assumes "pending ord h d l r []"
  shows "grown ord h l key r [] (insert_into_new_root ord h (root_of l) key (root_of r))"
proof -
  from assms have p: "rep ord (nodes h) NULL l" "rep ord (nodes h) NULL r" "3 \<le> ord" "heap_ok h"
      "distinct (addrs l @ addrs r)" "dom (nodes h) = set (addrs l @ addrs r)" "fits ord False d l" "fits ord False d r"
    by (auto simp: pending_def)
  obtain N where N: "insert_into_new_root ord h (root_of l) key (root_of r) = Some (brk h, h\<lparr>nodes := N, brk := brk h + 3\<rparr>)"
    "rep ord N NULL (Nd (brk h) [key] [l, r])" "dom N = insert (brk h) (dom (nodes h))"
    "\<forall>x. x \<noteq> brk h \<longrightarrow> ptrs N x = ptrs (nodes h) x"
    using insert_into_new_root_rep [OF p(1-5), of key] by blast
  have b: "brk h \<notin> dom (nodes h)" using heap_ok_fresh(1) [OF p(4), of "brk h"] by auto
  then have "x \<noteq> brk h" if "x \<in> set (leaf_addrs l) \<union> set (leaf_addrs r)" for x
    using p(6) leaf_addrs_subset [of l] leaf_addrs_subset [of r] that by auto
  then have "ptrs N x = ptrs (nodes h) x" if "x \<in> set (leaf_addrs l) \<union> set (leaf_addrs r)" for x
    using N(4) that by blast
  moreover have "heap_ok (h\<lparr>nodes := N, brk := brk h + 3\<rparr>)"
    using N(3) by (intro heap_ok_upd [OF p(4), of N "brk h"]) auto
  moreover note N(1-3)
  ultimately show ?thesis using p b unfolding grown_def
    by (intro exI [of _ "Nd (brk h) [key] [l, r]"] exI [of _ "Suc d"] exI [of _ "h\<lparr>nodes := N, brk := brk h + 3\<rparr>"])
      (auto simp: min_node_def simp del: rep.simps)
qed

lemma distinct_frame:
  assumes "distinct (addrs l @ addrs r @ ctx_addrs (Fr a ksl csl ksr csr # fs))"
  shows "distinct (a # concat (map addrs (csl @ l # r # csr)))" "a \<notin> set (ctx_addrs fs)"
    "set (concat (map addrs (csl @ l # r # csr))) \<inter> set (ctx_addrs fs) = {}" "distinct (ctx_addrs fs)"
    "root_of l \<notin> set (map root_of csl)"
proof -
  show "distinct (a # concat (map addrs (csl @ l # r # csr)))" using assms by auto
  show "a \<notin> set (ctx_addrs fs)" "distinct (ctx_addrs fs)" using assms by auto
  show "set (concat (map addrs (csl @ l # r # csr))) \<inter> set (ctx_addrs fs) = {}" using assms by auto
  have "set (concat (map addrs csl)) \<inter> set (addrs l) = {}" using assms by auto
  moreover have "root_of l \<in> set (addrs l)" by simp
  ultimately have "root_of l \<notin> set (concat (map addrs csl))" by blast
  then show "root_of l \<notin> set (map root_of csl)" using root_in_addrs by fastforce
qed

lemma leaf_addrs_zip_up_subset:
  "set (leaf_addrs (zip_up (Nd a ks cs) fs)) \<subseteq> set (concat (map addrs cs)) \<union> set (ctx_addrs fs)"
proof -
  have "set (leaf_addrs (Nd a ks cs)) \<subseteq> set (concat (map addrs cs))"
    using leaf_addrs_subset by fastforce
  then show ?thesis using ctx_leaves_subset [of fs] by (auto simp: leaf_addrs_zip_up)
qed

lemma pending_room:
  assumes p: "pending ord h d l r (Fr a ksl csl ksr csr # fs)" "length ksl + length ksr < ord - 1"
    and root: "root = root_of (zip_up l (Fr a ksl csl ksr csr # fs))"
  shows "grown ord h l key r (Fr a ksl csl ksr csr # fs) (insert_into_node h root a (length ksl) key (root_of r))"
proof -
  from p have q: "rep ord (nodes h) a l" "rep ord (nodes h) a r"
      "fr_rep ord (nodes h) (top_addr fs) (root_of l) (Fr a ksl csl ksr csr)" "ctx_rep ord (nodes h) a fs"
      "3 \<le> ord" "heap_ok h" "fits ord False d l" "fits ord False d r" "length csl = length ksl" "length csr = length ksr"
      "min_node ord (fs = []) \<le> length ksl + length ksr" "\<forall>c \<in> set csl \<union> set csr. fits ord False d c" "ctx_fits ord (Suc d) fs"
      "dom (nodes h) = set (addrs l @ addrs r @ ctx_addrs (Fr a ksl csl ksr csr # fs))"
    by (simp_all add: pending_def del: fr_rep.simps)
  from p(1) have "distinct (addrs l @ addrs r @ ctx_addrs (Fr a ksl csl ksr csr # fs))" by (simp only: pending_def)
  note dist = distinct_frame [OF this]
  let ?t = "Nd a (ksl @ key # ksr) (csl @ l # r # csr)" and ?F = "Fr a ksl csl ksr csr # fs"
  obtain n' where n': "insert_into_node h root a (length ksl) key (root_of r) = Some (root, h\<lparr>nodes := (nodes h)(a \<mapsto> n')\<rparr>)"
    "rep ord ((nodes h)(a \<mapsto> n')) (top_addr fs) ?t"
    using insert_into_node_rep [OF q(3,1,2,9,10) p(2) dist(1), of root key] by blast
  let ?N = "(nodes h)(a \<mapsto> n')"
  have a: "a \<in> dom (nodes h)" using q(14) by simp
  have ok: "\<forall>f \<in> set fs. fr_ok f" using q(13) by (rule ctx_fits_ok)
  have "insert_into_node h root a (length ksl) key (root_of r) = Some (root_of (zip_up ?t fs), h\<lparr>nodes := ?N, brk := brk h\<rparr>)"
    using n'(1) root by (simp add: root_zip_up)
  moreover have "heap_ok (h\<lparr>nodes := ?N, brk := brk h\<rparr>)" using q(6) a by (auto simp: heap_ok_def)
  moreover have "rep ord ?N NULL (zip_up ?t fs)"
    using n'(2) q(4) dist(2) by (simp add: rep_zip_up del: rep.simps)
  moreover have "distinct (addrs (zip_up ?t fs))" unfolding distinct_zip_up using dist by auto
  moreover have "set (addrs (zip_up ?t fs)) = dom ?N" unfolding set_addrs_zip_up using q(14) a by auto
  moreover have "fits ord True (Suc d + length fs) (zip_up ?t fs)"
    using fits_zip_up [OF ok, of ord "Suc d" ?t] q(7-13) p(2) by (auto simp: min_node_def)
  moreover have "flat (zip_up ?t fs) = ctx_lflat ?F @ flat l @ Sep key # flat r @ ctx_rflat ?F"
    using weave_split [of "map flat csl" ksl "key # ksr" "flat l" "flat r # map flat csr"] q(9) ok by (simp add: flat_zip_up)
  moreover have "leaf_addrs (zip_up ?t fs) = ctx_lleaves ?F @ leaf_addrs l @ leaf_addrs r @ ctx_rleaves ?F"
    by (simp add: leaf_addrs_zip_up)
  moreover have "ptrs ?N x = ptrs (nodes h) x" if "x \<in> set (leaf_addrs (zip_up ?t fs))" for x
  proof -
    have "x \<in> set (concat (map addrs (csl @ l # r # csr))) \<union> set (ctx_addrs fs)"
      using that leaf_addrs_zip_up_subset by blast
    then have "x \<noteq> a" using dist(1,2) by auto
    then show ?thesis by (simp add: ptrs_def)
  qed
  ultimately show ?thesis by (rule grownI)
qed

lemma roots_subset: "set (map root_of cs) \<subseteq> set (concat (map addrs cs))"
  by (induction cs) auto

lemma pending_split:
  fixes C :: "'k bt list"
  assumes p: "pending ord h d l r (Fr a ksl csl ksr csr # fs)" "\<not> length ksl + length ksr < ord - 1"
    and K: "K = ksl @ key # ksr" and C: "C = csl @ l # r # csr"
    and l': "l' = Nd a (take (cut ord - 1) K) (take (cut ord) C)"
    and r': "r' = Nd (brk h + tmp h) (drop (cut ord) K) (drop (cut ord) C)"
  shows "\<exists>h'. split_node ord h a (length ksl) key (root_of r) = Some (K ! (cut ord - 1), root_of r', h') \<and>
    pending ord h' (Suc d) l' r' fs \<and> recs h' = recs h \<and>
    flat l' @ Sep (K ! (cut ord - 1)) # flat r' = fr_lflat (Fr a ksl csl ksr csr) @ flat l @ Sep key # flat r @ fr_rflat (Fr a ksl csl ksr csr) \<and>
    leaf_addrs l' @ leaf_addrs r' = concat (map leaf_addrs C) \<and>
    (\<forall>x. x \<in> set (concat (map addrs C)) \<union> set (ctx_addrs fs) \<longrightarrow> ptrs (nodes h') x = ptrs (nodes h) x)"
proof -
  from p(1) have q: "rep ord (nodes h) a l" "rep ord (nodes h) a r"
      "fr_rep ord (nodes h) (top_addr fs) (root_of l) (Fr a ksl csl ksr csr)" "ctx_rep ord (nodes h) a fs"
      "3 \<le> ord" "heap_ok h" "fits ord False d l" "fits ord False d r" "length csl = length ksl" "length csr = length ksr"
      "length ksl + length ksr \<le> ord - 1" "\<forall>c \<in> set csl \<union> set csr. fits ord False d c" "ctx_fits ord (Suc d) fs"
      "dom (nodes h) = set (addrs l @ addrs r @ ctx_addrs (Fr a ksl csl ksr csr # fs))"
    by (simp_all add: pending_def del: fr_rep.simps)
  from p(1) have "distinct (addrs l @ addrs r @ ctx_addrs (Fr a ksl csl ksr csr # fs))" by (simp only: pending_def)
  note dist = distinct_frame [OF this]
  let ?b = "brk h + tmp h"
  have full: "length ksl + length ksr = ord - 1" using p(2) q(11) by simp
  obtain N where N: "split_node ord h a (length ksl) key (root_of r) = Some (K ! (cut ord - 1), ?b, h\<lparr>nodes := N, brk := brk h + 3 + tmp h\<rparr>)"
    "rep ord N (top_addr fs) l'" "rep ord N (top_addr fs) r'"
    "\<forall>x. x \<notin> insert a (insert ?b (set (map root_of C))) \<longrightarrow> N x = nodes h x"
    "\<forall>x. x \<noteq> a \<and> x \<noteq> ?b \<longrightarrow> ptrs N x = ptrs (nodes h) x" "dom N = insert ?b (dom (nodes h))"
    using split_node_rep [OF q(3,1,2,9,10) full q(5,6) K C] dist(1) unfolding l' r' C by blast
  define D where "D = set (concat (map addrs C))"
  have D: "dom (nodes h) = insert a (D \<union> set (ctx_addrs fs))" using q(14) by (auto simp: D_def C)
  have b: "?b \<notin> dom (nodes h)" using heap_ok_fresh(1) [OF q(6), of ?b] by auto
  have aD: "a \<notin> D" using dist(1) by (simp add: D_def C)
  have DF: "D \<inter> set (ctx_addrs fs) = {}" using dist(3) by (simp only: D_def C)
  have "N x = nodes h x" if x: "x \<in> set (ctx_addrs fs)" for x
  proof -
    have "x \<notin> set (map root_of C)" using roots_subset [of C, folded D_def] DF x by blast
    moreover have "x \<noteq> a" using dist(2) x by blast
    moreover have "x \<noteq> ?b" using D b x by blast
    ultimately show ?thesis using N(4) by blast
  qed
  then have ctx: "ctx_rep ord N (root_of l') fs" using q(4) ctx_rep_cong [of fs N "nodes h" ord a] by (simp add: l')
  have A: "mset (addrs l' @ addrs r') = add_mset a (add_mset ?b (mset (concat (map addrs C))))"
  proof -
    have "concat (map addrs C) = concat (map addrs (take (cut ord) C)) @ concat (map addrs (drop (cut ord) C))"
      by (metis append_take_drop_id concat_append map_append)
    then show ?thesis by (simp add: l' r')
  qed
  then have sA: "set (addrs l' @ addrs r') = insert a (insert ?b D)"
    unfolding D_def by (metis set_mset_add_mset_insert set_mset_mset)
  have dA: "distinct (addrs l' @ addrs r')"
  proof -
    have "distinct (addrs l' @ addrs r') \<longleftrightarrow> distinct (a # ?b # concat (map addrs C))"
      by (rule mset_eq_imp_distinct_iff) (simp add: A del: mset_append)
    then show ?thesis using dist(1) D b unfolding C [symmetric] D_def by auto
  qed
  have len: "length K = ord" "length C = Suc ord" using full q(5,9,10) by (auto simp: K C)
  have cb: "1 \<le> cut ord - 1" "cut ord \<le> ord - 1" "cut ord - 1 < ord" "Suc (cut ord - 1) = cut ord" "cut ord - 1 \<le> ord - cut ord"
    using q(5) unfolding cut_def by presburger+
  have fc: "\<forall>c \<in> set C. fits ord False d c" using q(7,8,12) by (auto simp: C)
  have fits: "fits ord False (Suc d) l'" "fits ord False (Suc d) r'"
    using fc cb len by (auto simp: l' r' min_node_def dest: in_set_takeD in_set_dropD)
  have "pending ord (h\<lparr>nodes := N, brk := brk h + 3 + tmp h\<rparr>) (Suc d) l' r' fs"
  proof -
    have "heap_ok (h\<lparr>nodes := N, brk := brk h + 3 + tmp h\<rparr>)" using N(6) by (intro heap_ok_upd [OF q(6), of N ?b]) auto
    moreover have "distinct (addrs l' @ addrs r' @ ctx_addrs fs)"
      using dA sA dist(2,4) DF D b unfolding append_assoc [symmetric] distinct_append by auto
    moreover have "dom N = set (addrs l' @ addrs r' @ ctx_addrs fs)"
      using N(6) D sA unfolding append_assoc [symmetric] set_append by auto
    ultimately show ?thesis unfolding pending_def using q(5,13) N(2,3) ctx fits by simp
  qed
  moreover have "flat l' @ Sep (K ! (cut ord - 1)) # flat r' = weave K (map flat C)"
    using weave_cut [of "cut ord - 1" K "map flat C"] cb len by (simp add: l' r' take_map drop_map)
  moreover have "weave K (map flat C) = fr_lflat (Fr a ksl csl ksr csr) @ flat l @ Sep key # flat r @ fr_rflat (Fr a ksl csl ksr csr)"
    using weave_split [of "map flat csl" ksl "key # ksr" "flat l" "flat r # map flat csr"] q(9) by (simp add: K C)
  moreover have "leaf_addrs l' @ leaf_addrs r' = concat (map leaf_addrs C)"
    unfolding l' r' leaf_addrs.simps by (metis append_take_drop_id concat_append map_append)
  moreover have "ptrs N x = ptrs (nodes h) x" if "x \<in> D \<union> set (ctx_addrs fs)" for x
  proof -
    have "x \<noteq> a" "x \<noteq> ?b" using that aD dist(2) D b by auto
    then show ?thesis using N(5) by blast
  qed
  ultimately show ?thesis using N(1) unfolding D_def
    by (intro exI [of _ "h\<lparr>nodes := N, brk := brk h + 3 + tmp h\<rparr>"]) (simp add: r')
qed

lemma leaves_subset: "set (concat (map leaf_addrs cs)) \<subseteq> set (concat (map addrs cs))"
  using leaf_addrs_subset by fastforce

lemma grown_lift:
  assumes "grown ord h' l' k' r' fs res" "recs h' = recs h"
    and "flat l' @ Sep k' # flat r' = fr_lflat f @ flat l @ Sep key # flat r @ fr_rflat f"
    and "leaf_addrs l' @ leaf_addrs r' = fr_lleaves f @ leaf_addrs l @ leaf_addrs r @ fr_rleaves f"
    and "\<And>x. x \<in> set (ctx_lleaves fs @ (leaf_addrs l' @ leaf_addrs r') @ ctx_rleaves fs) \<Longrightarrow> ptrs (nodes h') x = ptrs (nodes h) x"
  shows "grown ord h l key r (f # fs) res"
proof -
  from assms(1) obtain t d h'' where t: "res = Some (root_of t, h'')" "heap_ok h''" "recs h'' = recs h'"
     "rep ord (nodes h'') NULL t" "distinct (addrs t)" "dom (nodes h'') = set (addrs t)" "fits ord True d t"
     "flat t = ctx_lflat fs @ (flat l' @ Sep k' # flat r') @ ctx_rflat fs"
     "leaf_addrs t = ctx_lleaves fs @ (leaf_addrs l' @ leaf_addrs r') @ ctx_rleaves fs"
     "\<forall>x \<in> set (leaf_addrs t). ptrs (nodes h'') x = ptrs (nodes h') x"
    unfolding grown_def by auto
  have "\<forall>x \<in> set (leaf_addrs t). ptrs (nodes h'') x = ptrs (nodes h) x"
    using t(10) assms(5) unfolding t(9) by simp
  moreover have "flat t = ctx_lflat (f # fs) @ flat l @ Sep key # flat r @ ctx_rflat (f # fs)"
    unfolding t(8) assms(3) by simp
  moreover have "leaf_addrs t = ctx_lleaves (f # fs) @ leaf_addrs l @ leaf_addrs r @ ctx_rleaves (f # fs)"
    unfolding t(9) assms(4) by simp
  ultimately show ?thesis unfolding grown_def using t(1-7) assms(2) by metis
qed

text \<open>The climb ends: it goes up one frame at each call, and makes a new root above the last.\<close>

lemma insert_into_parent_grown:
  assumes "pending ord h d l r fs" "fs \<noteq> [] \<longrightarrow> root = fr_addr (last fs)"
  shows "grown ord h l key r fs (insert_into_parent ord h root (root_of l) key (root_of r))"
  using assms
proof (induction fs arbitrary: h d l r key)
  case Nil
  then have "rep ord (nodes h) NULL l" by (simp add: pending_def)
  then obtain ln where "nodes h (root_of l) = Some ln" "parent ln = NULL" by (rule rep_node)
  then have "insert_into_parent ord h root (root_of l) key (root_of r) = insert_into_new_root ord h (root_of l) key (root_of r)"
    by (subst insert_into_parent.simps) simp
  then show ?case using pending_root [OF Nil.prems(1), of key] by (simp only:)
next
  case (Cons f fs)
  obtain a ksl csl ksr csr where f: "f = Fr a ksl csl ksr csr" by (cases f)
  from Cons.prems(1) have q: "rep ord (nodes h) a l" "heap_ok h"
      "fr_rep ord (nodes h) (top_addr fs) (root_of l) (Fr a ksl csl ksr csr)" "length csl = length ksl"
    by (simp_all add: pending_def f del: fr_rep.simps)
  from Cons.prems(1) have "distinct (addrs l @ addrs r @ ctx_addrs (Fr a ksl csl ksr csr # fs))"
    by (simp only: pending_def f)
  note dist = distinct_frame [OF this]
  obtain ln where ln: "nodes h (root_of l) = Some ln" "parent ln = a" using rep_node [OF q(1)] .
  obtain n where n: "nodes h a = Some n" "num_keys n = length ksl + length ksr" using q(3) by auto
  have "a \<noteq> NULL" using n(1) heap_ok_NULL(1) [OF q(2)] by (metis option.distinct(1))
  then have step: "insert_into_parent ord h root (root_of l) key (root_of r) =
      (if num_keys n < ord - 1 then insert_into_node h root a (length ksl) key (root_of r)
       else do { (k_prime, new_node, h) \<leftarrow> split_node ord h a (length ksl) key (root_of r);
                 insert_into_parent ord h root a k_prime new_node })"
    using ln n(1) get_left_index_frame [OF q(3,4) dist(5)] by (subst insert_into_parent.simps) simp
  show ?case
  proof (cases "length ksl + length ksr < ord - 1")
    case True
    have "root = root_of (zip_up l (Fr a ksl csl ksr csr # fs))" using Cons.prems(2) f by (simp only: root_zip_up) simp
    with pending_room [OF _ True this] Cons.prems(1) show ?thesis using step True n(2) by (simp add: f)
  next
    case False
    let ?K = "ksl @ key # ksr" and ?C = "csl @ l # r # csr"
    let ?l = "Nd a (take (cut ord - 1) ?K) (take (cut ord) ?C)"
    let ?r = "Nd (brk h + tmp h) (drop (cut ord) ?K) (drop (cut ord) ?C)"
    obtain h' where h': "split_node ord h a (length ksl) key (root_of r) = Some (?K ! (cut ord - 1), root_of ?r, h')"
      "pending ord h' (Suc d) ?l ?r fs" "recs h' = recs h"
      "flat ?l @ Sep (?K ! (cut ord - 1)) # flat ?r = fr_lflat f @ flat l @ Sep key # flat r @ fr_rflat f"
      "leaf_addrs ?l @ leaf_addrs ?r = concat (map leaf_addrs ?C)"
      "\<forall>x. x \<in> set (concat (map addrs ?C)) \<union> set (ctx_addrs fs) \<longrightarrow> ptrs (nodes h') x = ptrs (nodes h) x"
      using pending_split [OF _ False refl refl refl refl] Cons.prems(1) unfolding f by blast
    have "grown ord h' ?l (?K ! (cut ord - 1)) ?r fs (insert_into_parent ord h' root (root_of ?l) (?K ! (cut ord - 1)) (root_of ?r))"
      using Cons.prems(2) by (intro Cons.IH [OF h'(2)]) simp
    then have "grown ord h l key r (f # fs) (insert_into_parent ord h' root (root_of ?l) (?K ! (cut ord - 1)) (root_of ?r))"
    proof (rule grown_lift)
      show "leaf_addrs ?l @ leaf_addrs ?r = fr_lleaves f @ leaf_addrs l @ leaf_addrs r @ fr_rleaves f"
        unfolding h'(5) by (simp add: f)
      fix x assume "x \<in> set (ctx_lleaves fs @ (leaf_addrs ?l @ leaf_addrs ?r) @ ctx_rleaves fs)"
      then have "x \<in> set (concat (map addrs ?C)) \<union> set (ctx_addrs fs)"
        unfolding h'(5) using ctx_leaves_subset [of fs] leaves_subset [of ?C] by auto
      then show "ptrs (nodes h') x = ptrs (nodes h) x" using h'(6) by blast
    qed (use h'(3,4) in simp_all)
    then show ?thesis using step False n(2) h'(1) by simp
  qed
qed

section \<open>The whole insertion\<close>

lemma chain_cong_next:
  assumes "\<And>a. a \<in> set as \<Longrightarrow> \<exists>ps. P a = Some ps \<Longrightarrow> \<exists>ps qs. P a = Some ps \<and> Q a = Some qs \<and> rd qs (ord - 1) = rd ps (ord - 1)"
    and "chain ord P x as y"
  shows "chain ord Q x as y"
  using assms by (induction as arbitrary: x) fastforce+

lemma around_ordered:
  assumes "ordered (ctx_lflat fs @ map (\<lambda>(k, p). Ent k p) (es1 @ es2) @ ctx_rflat fs)" "around key fs"
    "\<forall>x \<in> set (map fst es1). x < key" "\<forall>y \<in> set (map fst es2). key < y"
  shows "ordered (ctx_lflat fs @ map (\<lambda>(k, p). Ent k p) (es1 @ (key, p) # es2) @ ctx_rflat fs)"
  using assms unfolding around_def by (auto simp: sorted_wrt_append)

lemma mark_lt_Ent_Sep: "mark_lt m (Ent k1 p) \<Longrightarrow> k1 < k \<Longrightarrow> mark_lt m (Sep k)"
  by (cases m) auto

lemma mark_lt_Sep_Ent: "mark_lt (Ent k p) m \<Longrightarrow> mark_lt (Sep k) m"
  by (cases m) auto

lemma ordered_cut:
  assumes o: "ordered (X @ map (\<lambda>(k, p). Ent k p) E @ Y)" and c: "0 < c" "c < length E"
  shows "ordered (X @ map (\<lambda>(k, p). Ent k p) (take c E) @ Sep (fst (E ! c)) # map (\<lambda>(k, p). Ent k p) (drop c E) @ Y)"
proof -
  let ?en = "\<lambda>(k, p). Ent k p"
  obtain k q where kq: "E ! c = (k, q)" by (cases "E ! c")
  obtain k0 q0 E0 where E0: "take c E = (k0, q0) # E0" using c by (cases E; cases c) auto
  have E: "E = take c E @ (k, q) # drop (Suc c) E" using c kq by (metis id_take_nth_drop)
  have d: "drop c E = (k, q) # drop (Suc c) E" using c kq by (metis Cons_nth_drop_Suc)
  have o': "ordered (X @ map ?en (take c E) @ Ent k q # map ?en (drop (Suc c) E) @ Y)"
    using o by (subst (asm) E) simp
  then have "k0 < k" "\<forall>m \<in> set X. mark_lt m (Ent k0 q0)" by (auto simp: E0 sorted_wrt_append)
  then have "\<forall>m \<in> set X. mark_lt m (Sep k)" by (auto intro: mark_lt_Ent_Sep)
  moreover have "\<forall>m \<in> set (map ?en (take c E)). mark_lt m (Sep k)" using o' by (auto simp: sorted_wrt_append)
  moreover have "\<forall>m \<in> set (map ?en (drop (Suc c) E) @ Y). mark_lt (Sep k) m"
    using o' by (auto simp: sorted_wrt_append intro: mark_lt_Sep_Ent)
  ultimately show ?thesis using o' by (simp add: d kq sorted_wrt_append)
qed

lemma insert_room_shape:
  assumes z: "rep ord (nodes h) (top_addr fs) (Lf a es)" "ctx_rep ord (nodes h) a fs" "distinct (a # ctx_addrs fs)"
      "dom (nodes h) = insert a (set (ctx_addrs fs))" "ctx_fits ord 0 fs"
    and n: "nodes h a = Some n" "leaf_node ord (top_addr fs) es' n'" "rd (pointers n') (ord - 1) = rd (pointers n) (ord - 1)"
    and len: "length es' \<le> ord - 1" "min_leaf ord (fs = []) \<le> length es'"
    and ch: "chain ord (ptrs (nodes h)) y (ctx_lleaves fs @ a # ctx_rleaves fs) NULL"
  shows "shape ord ((nodes h)(a \<mapsto> n')) (zip_up (Lf a es') fs) (length fs)"
proof -
  let ?N = "(nodes h)(a \<mapsto> n')" and ?t = "zip_up (Lf a es') fs"
  have ok: "\<forall>f \<in> set fs. fr_ok f" using z(5) by (rule ctx_fits_ok)
  have "rep ord ?N NULL ?t"
    using z(2,3) n(2) by (simp add: rep_zip_up rep_Lf del: rep.simps)
  moreover have "distinct (addrs ?t)" using z(3) by (simp add: distinct_zip_up)
  moreover have "dom ?N = set (addrs ?t)" using z(4) by (auto simp: set_addrs_zip_up)
  moreover have "fits ord True (length fs) ?t" using fits_zip_up [OF ok, of ord 0 "Lf a es'"] len z(5) by simp
  moreover have "leaf_addrs ?t = ctx_lleaves fs @ a # ctx_rleaves fs" by (simp add: leaf_addrs_zip_up)
  moreover have "chain ord (ptrs ?N) y (leaf_addrs ?t) NULL"
    unfolding calculation(5) using ch n(1,3) by (intro chain_cong_next [OF _ ch]) (auto simp: ptrs_def)
  moreover from this have "y = hd (leaf_addrs ?t)" by (rule chain_hd) (simp add: leaf_addrs_zip_up)
  ultimately show ?thesis by (simp add: shape_def)
qed

text \<open>What an operation that changes the tree leaves behind.\<close>

definition tree_ok :: "nat \<Rightarrow> ('k::linorder, 'r) heap \<Rightarrow> 'k bt \<Rightarrow> bool" where
  "tree_ok ord h t \<longleftrightarrow> heap_ok h \<and> ordered (flat t) \<and> (\<exists>d. shape ord (nodes h) t d)"

lemma zip_leaf_facts:
  assumes "shape ord N (zip_up (Lf a es) fs) d"
  shows "distinct (a # ctx_addrs fs)" "dom N = insert a (set (ctx_addrs fs))"
    "chain ord (ptrs N) (hd (ctx_lleaves fs @ a # ctx_rleaves fs)) (ctx_lleaves fs @ a # ctx_rleaves fs) NULL"
  using assms by (simp_all add: shape_def distinct_zip_up set_addrs_zip_up leaf_addrs_zip_up)

lemma insert_record_room:
  assumes t: "shape ord (nodes h) (zip_up (Lf a es) fs) d" "ordered (flat (zip_up (Lf a es) fs))" "heap_ok h" "3 \<le> ord"
    and z: "\<forall>f \<in> set fs. fr_ok f" "around key fs" "rep ord (nodes h) (top_addr fs) (Lf a es)" "ctx_rep ord (nodes h) a fs"
      "ctx_fits ord 0 fs" "fits ord (fs = []) 0 (Lf a es)"
    and new: "map_of es key = None" "length es < ord - 1"
  shows "\<exists>es1 es2 h'. insert_into_leaf h a key p = Some (a, h') \<and> es = es1 @ es2 \<and>
    tree_ok ord h' (zip_up (Lf a (es1 @ (key, p) # es2)) fs) \<and> recs h' = recs h"
proof -
  obtain n where n: "nodes h a = Some n" "leaf_node ord (top_addr fs) es n" using z(3) unfolding rep_Lf by blast
  have fl: "flat (zip_up (Lf a es') fs) = ctx_lflat fs @ map (\<lambda>(k, p). Ent k p) es' @ ctx_rflat fs" for es'
    using flat_zip_up [OF z(1)] by simp
  have "sorted_wrt (<) (map fst es)" using t(2) unfolding fl by (rule leaf_keys_distinct)
  from leaf_insert_point [OF n(2) this new(1)] obtain es1 es2 where es: "es = es1 @ es2"
    "\<forall>x \<in> set (map fst es1). x < key" "\<forall>y \<in> set (map fst es2). key < y"
    "scan_lt (keys n) (length es) key 0 = Some (length es1)" by metis
  obtain n' where n': "insert_into_leaf h a key p = Some (a, put h a n')"
    "leaf_node ord (top_addr fs) (es1 @ (key, p) # es2) n'" "rd (pointers n') (ord - 1) = rd (pointers n) (ord - 1)"
    using insert_into_leaf_node [OF n(1), of ord "top_addr fs" es1 es2 key p] n(2) new(2) es by blast
  have "shape ord ((nodes h)(a \<mapsto> n')) (zip_up (Lf a (es1 @ (key, p) # es2)) fs) (length fs)"
    using new(2) z(6) es(1)
    by (intro insert_room_shape [OF z(3,4) zip_leaf_facts(1,2) [OF t(1)] z(5) n(1) n'(2,3) _ _ zip_leaf_facts(3) [OF t(1)]]) auto
  moreover have "ordered (flat (zip_up (Lf a (es1 @ (key, p) # es2)) fs))"
    unfolding fl using t(2) z(2) es(2,3) by (intro around_ordered) (simp_all add: fl es(1))
  moreover have "heap_ok (put h a n')" using t(3) n(1) by (auto simp: heap_ok_def put_def)
  ultimately have "tree_ok ord (put h a n') (zip_up (Lf a (es1 @ (key, p) # es2)) fs)"
    by (auto simp: tree_ok_def put_def)
  with n'(1) es(1) show ?thesis by (auto simp: put_def)
qed

lemma insert_record_split:
  assumes t: "shape ord (nodes h) (zip_up (Lf a es) fs) d" "ordered (flat (zip_up (Lf a es) fs))" "heap_ok h" "3 \<le> ord"
    and z: "\<forall>f \<in> set fs. fr_ok f" "around key fs" "rep ord (nodes h) (top_addr fs) (Lf a es)" "ctx_rep ord (nodes h) a fs"
      "ctx_fits ord 0 fs" "fits ord (fs = []) 0 (Lf a es)"
    and new: "map_of es key = None" "\<not> length es < ord - 1" and root: "root = root_of (zip_up (Lf a es) fs)"
  shows "\<exists>es1 es2 t' h'. insert_into_leaf_after_splitting ord h root a key p = Some (root_of t', h') \<and> es = es1 @ es2 \<and>
    tree_ok ord h' t' \<and> ents (flat t') = ents (ctx_lflat fs) @ (es1 @ (key, p) # es2) @ ents (ctx_rflat fs) \<and> recs h' = recs h"
proof -
  obtain n where n: "nodes h a = Some n" "leaf_node ord (top_addr fs) es n" using z(3) unfolding rep_Lf by blast
  have fl: "flat (zip_up (Lf a es') fs) = ctx_lflat fs @ map (\<lambda>(k, p). Ent k p) es' @ ctx_rflat fs" for es'
    using flat_zip_up [OF z(1)] by simp
  have full: "length es = ord - 1" using new(2) z(6) by simp
  have "sorted_wrt (<) (map fst es)" using t(2) unfolding fl by (rule leaf_keys_distinct)
  from leaf_insert_point [OF n(2) this new(1)] obtain es1 es2 where es: "es = es1 @ es2"
    "\<forall>x \<in> set (map fst es1). x < key" "\<forall>y \<in> set (map fst es2). key < y"
    "scan_lt (keys n) (ord - 1) key 0 = Some (length es1)" by (metis full)
  define E where "E = es1 @ (key, p) # es2"
  define c where "c = cut (ord - 1)"
  have lenE: "length E = ord" using full t(4) by (simp add: E_def es(1))
  have c: "1 \<le> c" "c \<le> ord - 1" "c < ord" "c \<le> ord - c" "ord - c \<le> ord - 1" using t(4) unfolding c_def cut_def by presburger+
  note sh = zip_leaf_facts [OF t(1)]
  let ?L = "ctx_lleaves fs" and ?R = "ctx_rleaves fs" and ?b = "brk h"
  from sh(3) obtain nxt where nxt: "rd (pointers n) (ord - 1) = Some nxt"
      "chain ord (ptrs (nodes h)) (hd (?L @ a # ?R)) ?L a" "chain ord (ptrs (nodes h)) nxt ?R NULL"
    using n(1) by (auto simp: chain_append ptrs_def)
  obtain na nb where s: "split_leaf ord h a key p = Some (fst (E ! c), ?b,
      h\<lparr>nodes := (nodes h)(a \<mapsto> na, ?b \<mapsto> nb), brk := brk h + 3 + tmp h\<rparr>)"
    "leaf_node ord (top_addr fs) (take c E) na" "leaf_node ord (top_addr fs) (drop c E) nb"
    "rd (pointers na) (ord - 1) = Some ?b" "rd (pointers nb) (ord - 1) = Some nxt"
    using split_leaf_node [OF n(1) _ _ es(4) t(4,3) nxt(1) E_def] n(2) full es(1) unfolding c_def by blast
  let ?N = "(nodes h)(a \<mapsto> na, ?b \<mapsto> nb)" and ?h = "h\<lparr>nodes := (nodes h)(a \<mapsto> na, brk h \<mapsto> nb), brk := brk h + 3 + tmp h\<rparr>"
  let ?l = "Lf a (take c E)" and ?r = "Lf ?b (drop c E)"
  have b: "?b \<notin> dom (nodes h)" using heap_ok_fresh(1) [OF t(3), of ?b] by auto
  then have b': "?b \<noteq> a" "?b \<notin> set (ctx_addrs fs)" using sh(2) by auto
  have "pending ord ?h 0 ?l ?r fs"
  proof -
    have "heap_ok ?h" using n(1) by (intro heap_ok_upd [OF t(3), of _ ?b]) auto
    moreover have "rep ord ?N (top_addr fs) ?l" "rep ord ?N (top_addr fs) ?r" using s(2,3) b' by (auto simp: rep_Lf simp del: rep.simps)
    moreover have "ctx_rep ord ?N a fs" using z(4) b' sh(1) by simp
    moreover have "dom ?N = set (addrs ?l @ addrs ?r @ ctx_addrs fs)" using sh(2) by auto
    moreover have "fits ord False 0 ?l" "fits ord False 0 ?r" using c lenE by (auto simp: min_leaf_def c_def)
    ultimately show ?thesis unfolding pending_def using sh(1) b' t(4) z(5) by simp
  qed
  then have "grown ord ?h ?l (fst (E ! c)) ?r fs (insert_into_parent ord ?h root (root_of ?l) (fst (E ! c)) (root_of ?r))"
    using root by (intro insert_into_parent_grown) (auto simp: root_zip_up)
  then obtain t' d' h' where g: "insert_into_parent ord ?h root a (fst (E ! c)) ?b = Some (root_of t', h')" "heap_ok h'" "recs h' = recs ?h"
     "rep ord (nodes h') NULL t'" "distinct (addrs t')" "dom (nodes h') = set (addrs t')" "fits ord True d' t'"
     "flat t' = ctx_lflat fs @ flat ?l @ Sep (fst (E ! c)) # flat ?r @ ctx_rflat fs"
     "leaf_addrs t' = ?L @ leaf_addrs ?l @ leaf_addrs ?r @ ?R"
     "\<forall>x \<in> set (leaf_addrs t'). ptrs (nodes h') x = ptrs ?N x"
    unfolding grown_def by auto
  have lv: "leaf_addrs t' = ?L @ a # ?b # ?R" using g(9) by simp
  have fresh: "a \<notin> set ?L" "a \<notin> set ?R" "?b \<notin> set ?L" "?b \<notin> set ?R" using ctx_leaves_subset [of fs] sh(1) b' by auto
  have "chain ord (ptrs ?N) (hd (?L @ a # ?R)) (leaf_addrs t') NULL"
    unfolding lv chain_append using nxt(2,3) fresh s(4,5) b'
    by (intro exI [of _ a]) (simp add: ptrs_upd)
  then have ch: "chain ord (ptrs (nodes h')) (hd (?L @ a # ?R)) (leaf_addrs t') NULL"
    using g(10) chain_cong [of "leaf_addrs t'" "ptrs (nodes h')" "ptrs ?N"] by blast
  moreover from this have "hd (?L @ a # ?R) = hd (leaf_addrs t')" by (rule chain_hd) (simp add: lv)
  ultimately have "shape ord (nodes h') t' d'" using g(4-7) by (simp add: shape_def)
  moreover have "ordered (ctx_lflat fs @ map (\<lambda>(k, p). Ent k p) E @ ctx_rflat fs)"
    unfolding E_def using t(2) z(2) es(2,3) by (intro around_ordered) (simp_all add: fl es(1))
  then have "ordered (flat t')" using ordered_cut [of "ctx_lflat fs" E "ctx_rflat fs" c] c lenE by (simp add: g(8))
  ultimately have "tree_ok ord h' t'" using g(2) by (auto simp: tree_ok_def)
  moreover have "ents (flat t') = ents (ctx_lflat fs) @ E @ ents (ctx_rflat fs)"
    unfolding g(8) by simp
  ultimately show ?thesis using s(1) g(1,3) es(1) by (auto simp: insert_into_leaf_after_splitting_def E_def)
qed

lemma insert_record_tree:
  assumes "shape ord (nodes h) t d" "ordered (flat t)" "heap_ok h" "3 \<le> ord" "map_of (ents (flat t)) key = None"
  shows "\<exists>t' h' xs ys. insert_record ord h (root_of t) key p = Some (root_of t', h') \<and> tree_ok ord h' t' \<and>
    ents (flat t) = xs @ ys \<and> ents (flat t') = xs @ (key, p) # ys \<and> recs h' = recs h"
proof -
  obtain a es fs where z: "t = zip_up (Lf a es) fs" "find_leaf h (root_of t) key = Some a" "a \<noteq> NULL"
     "\<forall>f \<in> set fs. fr_ok f" "around key fs" "rep ord (nodes h) (top_addr fs) (Lf a es)" "ctx_rep ord (nodes h) a fs"
     "fits ord (fs = []) 0 (Lf a es)" "ctx_fits ord 0 fs" "d = length fs"
     "flat t = ctx_lflat fs @ map (\<lambda>(k, p). Ent k p) es @ ctx_rflat fs"
    by (rule find_leaf_zip [OF assms(1-3), of key])
  have new: "map_of es key = None" using around_ents [OF z(5), of es] assms(5) by (simp only: z(11))
  from z(6) obtain n where n: "nodes h a = Some n" "num_keys n = length es" by auto
  have "root_of t \<noteq> NULL" using shape_root [OF assms(1)] heap_ok_NULL [OF assms(3)] by metis
  then have ir: "insert_record ord h (root_of t) key p =
      (if length es < ord - 1 then do { (_, h) \<leftarrow> insert_into_leaf h a key p; Some (root_of t, h) }
       else insert_into_leaf_after_splitting ord h (root_of t) a key p)"
    using z(2) n by (simp add: insert_record_def)
  note pre = assms(1) [unfolded z(1)] assms(2) [unfolded z(1)] assms(3,4) z(4-7,9,8) new
  show ?thesis
  proof (cases "length es < ord - 1")
    case True
    from insert_record_room [OF pre True, of p] obtain es1 es2 h' where
      i: "insert_into_leaf h a key p = Some (a, h')" "es = es1 @ es2"
        "tree_ok ord h' (zip_up (Lf a (es1 @ (key, p) # es2)) fs)" "recs h' = recs h" by blast
    have "root_of (zip_up (Lf a (es1 @ (key, p) # es2)) fs) = root_of t" by (simp add: z(1) root_zip_up)
    moreover have "ents (flat (zip_up (Lf a (es1 @ (key, p) # es2)) fs)) =
        (ents (ctx_lflat fs) @ es1) @ (key, p) # (es2 @ ents (ctx_rflat fs))"
      using flat_zip_up [OF z(4)] by simp
    moreover have "ents (flat t) = (ents (ctx_lflat fs) @ es1) @ (es2 @ ents (ctx_rflat fs))"
      by (simp add: z(11) i(2))
    moreover have "insert_record ord h (root_of t) key p = Some (root_of t, h')" using ir True i(1) by simp
    ultimately show ?thesis using i(3,4) by metis
  next
    case False
    from insert_record_split [OF pre False refl, of p] obtain es1 es2 t' h' where
      i: "insert_into_leaf_after_splitting ord h (root_of t) a key p = Some (root_of t', h')" "es = es1 @ es2" "tree_ok ord h' t'"
        "ents (flat t') = ents (ctx_lflat fs) @ (es1 @ (key, p) # es2) @ ents (ctx_rflat fs)" "recs h' = recs h"
      by (auto simp: z(1))
    have "ents (flat t') = (ents (ctx_lflat fs) @ es1) @ (key, p) # (es2 @ ents (ctx_rflat fs))" by (simp add: i(4))
    moreover have "ents (flat t) = (ents (ctx_lflat fs) @ es1) @ (es2 @ ents (ctx_rflat fs))"
      by (simp add: z(11) i(2))
    moreover have "insert_record ord h (root_of t) key p = Some (root_of t', h')" using ir False i(1) by simp
    ultimately show ?thesis using i(3,5) by metis
  qed
qed

lemma start_new_tree_ok:
  assumes "heap_ok h" "nodes h = Map.empty" "3 \<le> ord"
  shows "\<exists>a h'. start_new_tree ord h key p = Some (root_of (Lf a [(key, p)]), h') \<and> tree_ok ord h' (Lf a [(key, p)]) \<and>
    recs h' = recs h"
proof -
  let ?n = "\<lparr>pointers = (new_array ord)[0 := Some p, ord - 1 := Some NULL], keys = (new_array (ord - 1))[0 := Some key],
    parent = NULL, is_leaf = True, num_keys = 1, qnext = NULL\<rparr>"
  let ?h = "h\<lparr>nodes := [brk h \<mapsto> ?n], brk := brk h + 3\<rparr>"
  have "start_new_tree ord h key p = Some (brk h, ?h)"
    using assms heap_ok_make_leaf [of h ord]
    by (simp add: start_new_tree_def wr_Some put_def heap_ok_def heap_upd_swap)
  moreover have "leaf_node ord NULL [(key, p)] ?n"
    using assms(3) by (auto simp: leaf_node_def arr_iff nth_list_update)
  then have "rep ord (nodes ?h) NULL (Lf (brk h) [(key, p)])" by (simp add: rep_Lf del: rep.simps)
  moreover have "chain ord (ptrs (nodes ?h)) (brk h) [brk h] NULL" using assms(3) by (simp add: ptrs_def rd_update)
  moreover have "heap_ok ?h" using assms(1,2) by (intro heap_ok_upd [of h _ "brk h"]) auto
  ultimately show ?thesis
    using assms(3) by (intro exI [of _ "brk h"] exI [of _ ?h]) (auto simp: tree_ok_def shape_def min_leaf_def simp del: rep.simps)
qed

lemma map_of_insert:
  "map_of (xs @ ys) k = None \<Longrightarrow> map_of (xs @ (k, p) # ys) = (map_of (xs @ ys))(k \<mapsto> p)"
  by (rule ext) (auto simp: map_add_def split: option.splits)

text \<open>A new entry and a new record, in a heap that the rest of the map does not see.\<close>

lemma holds_tree_new:
  assumes t': "tree_ok ord h' t'" "ents (flat t') = xs @ (key, p) # ys" "recs h' = (recs h)(p \<mapsto> v)"
    and t: "distinct (map snd (xs @ ys))" "snd ` set (xs @ ys) = dom (recs h)" "p \<notin> dom (recs h)" "map_of (xs @ ys) key = None"
  shows "\<exists>d. holds_tree ord h' (root_of t') t' d \<and> bpt_map h' t' = (\<lambda>k. Option.bind (map_of (xs @ ys) k) (recs h))(key \<mapsto> v)"
proof -
  obtain d where d: "shape ord (nodes h') t' d" "ordered (flat t')" using t'(1) by (auto simp: tree_ok_def)
  have p: "p \<notin> snd ` set (xs @ ys)" using t(2,3) by simp
  have "holds_tree ord h' (root_of t') t' d"
    unfolding holds_tree_def t'(2,3) using d t p by auto
  moreover have "q \<noteq> p" if "map_of (xs @ ys) k = Some q" for k q
    using p map_of_SomeD [OF that] by force
  then have "Option.bind (map_of (xs @ ys) k) ((recs h)(p \<mapsto> v)) = Option.bind (map_of (xs @ ys) k) (recs h)" for k
    by (cases "map_of (xs @ ys) k") (simp_all del: map_of_append)
  then have "bpt_map h' t' = (\<lambda>k. Option.bind (map_of (xs @ ys) k) (recs h))(key \<mapsto> v)"
    unfolding bpt_map_def t'(2,3) map_of_insert [OF t(4)] by (auto simp: fun_eq_iff simp del: map_of_append)
  ultimately show ?thesis by blast
qed

lemma heap_recs_swap: "h\<lparr>brk := x, recs := y\<rparr> = h\<lparr>recs := y, brk := x\<rparr>"
  by simp

lemma map_of_inj_snd:
  assumes "distinct (map snd xs)" "map_of xs k = Some p" "map_of xs k' = Some p"
  shows "k = k'"
proof -
  have "(k, p) \<in> set xs" "(k', p) \<in> set xs" using assms(2,3) by (auto dest: map_of_SomeD)
  moreover have "inj_on snd (set xs)" using assms(1) by (simp add: distinct_map)
  ultimately show ?thesis by (metis fst_conv inj_onD snd_conv)
qed

lemma heap_ok_recs:
  assumes "heap_ok h" "dom R \<subseteq> insert p (dom (recs h))" "p \<in> dom (recs h) \<or> p = brk h" "b = brk h \<or> b = Suc (brk h)" "p = brk h \<longrightarrow> b = Suc (brk h)"
  shows "heap_ok (h\<lparr>recs := R, brk := b\<rparr>)"
proof -
  have h: "0 < brk h" "\<And>x. x \<in> dom (nodes h) \<union> dom (recs h) \<Longrightarrow> 0 < x \<and> x < brk h" "\<forall>a. \<not> oom h a"
    using assms(1) by (auto simp: heap_ok_def)
  have "0 < x \<and> x < b" if "x \<in> dom (nodes h) \<union> dom R" for x
  proof (cases "x = p")
    case True
    then show ?thesis using h(1) h(2) [of p] assms(3-5) by fastforce
  next
    case False
    then have "x \<in> dom (nodes h) \<union> dom (recs h)" using that assms(2) by blast
    with h(2) [of x] assms(4) show ?thesis by auto
  qed
  with h assms(4) show ?thesis by (auto simp: heap_ok_def)
qed

text \<open>\<open>insert\<close> for any kind of record: a new record, or a change to the one that is there.\<close>

definition insert_with ::
  "nat \<Rightarrow> ('k::linorder, 'r) heap \<Rightarrow> addr \<Rightarrow> 'k \<Rightarrow> 'r \<Rightarrow> ('r \<Rightarrow> 'r) \<Rightarrow> (addr \<times> ('k, 'r) heap) option" where
  "insert_with ord h root key new upd = do {
     (p, _) \<leftarrow> find_bpt h root key;
     if p \<noteq> NULL then do { r \<leftarrow> recs h p; Some (root, h\<lparr>recs := (recs h)(p \<mapsto> upd r)\<rparr>) }
     else do { (p, h) \<leftarrow> make_record h new; insert_record ord h root key p }
   }"

lemma insert_with_present:
  assumes "is_map ord h root m" "m key = Some r"
  shows "\<exists>root' h'. insert_with ord h root key new upd = Some (root', h') \<and> is_map ord h' root' (m(key \<mapsto> upd r))"
proof -
  from assms obtain t d where t: "holds_tree ord h root t d" "m = bpt_map h t" and ok: "heap_ok h" "3 \<le> ord" "root \<noteq> NULL"
    by (auto simp: is_map_def split: if_splits)
  from assms(2) t(2) obtain p where p: "map_of (ents (flat t)) key = Some p" "recs h p = Some r"
    by (auto simp: bpt_map_def bind_eq_Some_conv)
  then have "p \<noteq> NULL" using heap_ok_NULL(2) [OF ok(1)] by (metis option.distinct(1))
  obtain leaf where "find_bpt h root key = Some (p, leaf)" using find_bpt_tree [OF t(1) ok(1), of key] p(1) by auto
  then have i: "insert_with ord h root key new upd = Some (root, h\<lparr>recs := (recs h)(p \<mapsto> upd r)\<rparr>)"
    using p(2) \<open>p \<noteq> NULL\<close> by (simp add: insert_with_def)
  let ?h = "h\<lparr>recs := (recs h)(p \<mapsto> upd r)\<rparr>"
  have d: "distinct (map snd (ents (flat t)))" using t(1) by (simp add: holds_tree_def)
  have "holds_tree ord ?h root t d" using t(1) p(2) by (auto simp: holds_tree_def)
  moreover have "bpt_map ?h t k = (m(key \<mapsto> upd r)) k" for k
  proof (cases "map_of (ents (flat t)) k")
    case None
    then show ?thesis using p(1) t(2) by (auto simp: bpt_map_def)
  next
    case (Some q)
    then have "q = p \<longleftrightarrow> k = key" using map_of_inj_snd [OF d p(1), of k] p(1) by auto
    with Some t(2) show ?thesis by (auto simp: bpt_map_def)
  qed
  then have "bpt_map ?h t = m(key \<mapsto> upd r)" by (rule ext)
  moreover have "heap_ok ?h" using heap_ok_recs [OF ok(1), of "(recs h)(p \<mapsto> upd r)" p "brk h"] p(2) ok(1)
    by (fastforce simp: heap_ok_def)
  ultimately have "is_map ord ?h root (m(key \<mapsto> upd r))"
    unfolding is_map_def using ok(2,3) by auto
  with i show ?thesis by blast
qed

lemma insert_with_absent:
  assumes "is_map ord h root m" "m key = None"
  shows "\<exists>root' h'. insert_with ord h root key new upd = Some (root', h') \<and> is_map ord h' root' (m(key \<mapsto> new))"
proof -
  let ?p = "brk h" and ?v = "new"
  let ?h = "h\<lparr>recs := (recs h)(?p \<mapsto> ?v), brk := Suc (brk h)\<rparr>"
  have ok: "heap_ok h" "3 \<le> ord" using assms(1) by (auto simp: is_map_def)
  obtain leaf where "find_bpt h root key = Some (NULL, leaf)" using find_bpt_map [OF assms(1), of key] assms(2) by auto
  then have i: "insert_with ord h root key new upd = insert_record ord ?h root key ?p"
    using heap_ok_malloc [OF ok(1)] by (simp add: insert_with_def make_record_def heap_recs_swap)
  have okh: "heap_ok ?h" using ok(1) by (intro heap_ok_recs) auto
  have fresh: "?p \<notin> dom (recs h)" using heap_ok_fresh(2) [OF ok(1), of ?p] by auto
  show ?thesis
  proof (cases "root = NULL")
    case True
    then have e: "nodes h = Map.empty" "recs h = Map.empty" "m = Map.empty" using assms(1) by (auto simp: is_map_def)
    then have "nodes ?h = Map.empty" by simp
    from start_new_tree_ok [OF okh this ok(2), of key ?p] obtain a h' where
      s: "start_new_tree ord ?h key ?p = Some (root_of (Lf a [(key, ?p)]), h')" "tree_ok ord h' (Lf a [(key, ?p)])" "recs h' = recs ?h" by blast
    obtain d where "holds_tree ord h' (root_of (Lf a [(key, ?p)])) (Lf a [(key, ?p)]) d"
        "bpt_map h' (Lf a [(key, ?p)]) = (\<lambda>k. Option.bind (map_of ([] @ []) k) (recs h))(key \<mapsto> ?v)"
      using holds_tree_new [OF s(2), of "[]" key ?p "[]" h ?v] s(3) e(2) by auto
    moreover have "root_of (Lf a [(key, ?p)]) \<noteq> NULL"
      using s(2) shape_root heap_ok_NULL(1) unfolding tree_ok_def by metis
    ultimately have "is_map ord h' (root_of (Lf a [(key, ?p)])) (m(key \<mapsto> ?v))"
      using s(2) ok(2) e(3) unfolding is_map_def tree_ok_def by auto
    then show ?thesis using i s(1) True by (auto simp: insert_record_def)
  next
    case False
    with assms obtain t d where t: "holds_tree ord h root t d" "m = bpt_map h t"
      by (auto simp: is_map_def)
    have sh: "shape ord (nodes ?h) t d" "ordered (flat t)" "root = root_of t" using t(1) by (auto simp: holds_tree_def)
    have none: "map_of (ents (flat t)) key = None"
    proof (cases "map_of (ents (flat t)) key")
      case (Some p)
      then have "p \<in> dom (recs h)" using t(1) map_of_SomeD [OF Some] by (force simp: holds_tree_def)
      with assms(2) t(2) Some show ?thesis by (auto simp: bpt_map_def)
    qed
    from insert_record_tree [OF sh(1,2) okh ok(2) none, of ?p] obtain t' h' xs ys where
      s: "insert_record ord ?h (root_of t) key ?p = Some (root_of t', h')" "tree_ok ord h' t'" "ents (flat t) = xs @ ys"
        "ents (flat t') = xs @ (key, ?p) # ys" "recs h' = recs ?h" by blast
    have "recs h' = (recs h)(?p \<mapsto> ?v)" using s(5) by simp
    moreover have "distinct (map snd (xs @ ys))" "snd ` set (xs @ ys) = dom (recs h)" "map_of (xs @ ys) key = None"
      using t(1) none unfolding holds_tree_def s(3) by blast+
    ultimately obtain d' where "holds_tree ord h' (root_of t') t' d'"
        "bpt_map h' t' = (\<lambda>k. Option.bind (map_of (xs @ ys) k) (recs h))(key \<mapsto> ?v)"
      using holds_tree_new [OF s(2,4)] fresh by blast
    moreover have "root_of t' \<noteq> NULL"
      using s(2) shape_root heap_ok_NULL(1) unfolding tree_ok_def by metis
    moreover have "m = (\<lambda>k. Option.bind (map_of (xs @ ys) k) (recs h))" unfolding t(2) bpt_map_def s(3) ..
    ultimately have "is_map ord h' (root_of t') (m(key \<mapsto> ?v))"
      using s(2) ok(2) unfolding is_map_def tree_ok_def by auto
    then show ?thesis using i s(1) sh(3) by auto
  qed
qed

text \<open>
  \<open>insert\<close> on a tree for \<open>m\<close> returns, and leaves a tree for \<open>m\<close> with the new value at the key.
\<close>

lemma insert_bpt_map:
  "is_map ord h root m \<Longrightarrow>
   \<exists>root' h'. insert_bpt ord h root key v = Some (root', h') \<and> is_map ord h' root' (m(key \<mapsto> \<lparr>rec_value = v\<rparr>))"
proof -
  assume m: "is_map ord h root m"
  have i: "insert_bpt ord h root key v = insert_with ord h root key \<lparr>rec_value = v\<rparr> (\<lambda>r. \<lparr>rec_value = v\<rparr>)"
  proof -
    have "r\<lparr>rec_value := v\<rparr> = \<lparr>rec_value = v\<rparr>" for r :: bpt_record by (cases r) simp
    then show ?thesis by (simp only: insert_bpt_def insert_with_def)
  qed
  show ?thesis unfolding i using insert_with_absent [OF m, of key] insert_with_present [OF m, of key] by (cases "m key") blast+
qed

end
