(* ===== verification/BPTree_Delete.thy ===== *)
theory BPTree_Delete
  imports BPTree_Insert
begin

text \<open>
  Deletion: each node operation on the arrays of the nodes it changes (removal of an entry,
  merge, the four rotations), the same on the representation of the tree, the climb of
  \<open>delete_entry\<close> and \<open>coalesce_nodes\<close> by induction on the context, and the map law of
  \<open>delete\<close>. A node that has been merged into its neighbour is still allocated while the
  climb goes on above it; the heap is the tree and a set of such nodes.
\<close>

section \<open>Removal and merge on the arrays\<close>

lemma shift_down_arr:
  assumes "arr L (xs @ x # ys) a" "n = length (xs @ x # ys)"
  obtains b where "shift_down a (Suc (length xs)) n = Some b" "arr L (xs @ ys) b" "\<And>m. n \<le> m \<Longrightarrow> rd b m = rd a m"
proof
  show "shift_down a (Suc (length xs)) n = Some (blit a (Suc (length xs)) a (length xs) (length ys))"
    using shift_down_eq [of "Suc (length xs)" n a] assms arr_ini [OF assms(1), of n] by simp
  show "arr L (xs @ ys) (blit a (Suc (length xs)) a (length xs) (length ys))"
    using assms(1) by (rule arr_shift_down)
  show "rd (blit a (Suc (length xs)) a (length xs) (length ys)) m = rd a m" if "n \<le> m" for m
    using assms that arr_le [OF assms(1)] arr_length [OF assms(1)] by (intro rd_blit_above) auto
qed

lemma remove_leaf_node:
  assumes "nodes h a = Some n" "leaf_node ord par (es1 @ (key, p) # es2) n" "key \<notin> fst ` set es1" "p \<notin> snd ` set es1"
  shows "\<exists>n'. remove_entry_from_node ord h a key p = Some (put h a n') \<and>
    leaf_node ord par (es1 @ es2) n' \<and> rd (pointers n') (ord - 1) = rd (pointers n) (ord - 1)"
proof -
  let ?N = "Suc (length es1 + length es2)"
  have n: "is_leaf n" "parent n = par" "num_keys n = ?N"
    "arr (ord - 1) (map fst es1 @ key # map fst es2) (keys n)" "arr ord (map snd es1 @ p # map snd es2) (pointers n)"
    using assms(2) by (auto simp: leaf_node_def)
  have le: "?N \<le> ord - 1" using arr_le [OF n(4)] by simp
  have s: "seek (keys n) key 0 = Some (length es1)" "seek (pointers n) p 0 = Some (length es1)"
    using seek_split [OF n(4)] seek_split [OF n(5)] assms(3,4) by auto
  obtain ks where ks: "shift_down (keys n) (Suc (length es1)) ?N = Some ks" "arr (ord - 1) (map fst es1 @ map fst es2) ks"
    using shift_down_arr [OF n(4), of ?N] by auto
  obtain ps where ps: "shift_down (pointers n) (Suc (length es1)) ?N = Some ps" "arr ord (map snd es1 @ map snd es2) ps"
     "\<And>m. ?N \<le> m \<Longrightarrow> rd ps m = rd (pointers n) m"
    using shift_down_arr [OF n(5), of ?N] by auto
  obtain qs where qs: "fill_null ps (length es1 + length es2) (ord - 1) = Some qs" "arr ord (map snd es1 @ map snd es2) qs"
     "\<And>m. ord - 1 \<le> m \<Longrightarrow> rd qs m = rd ps m"
    using fill_null_above [OF ps(2), of "length es1 + length es2" "ord - 1"] by auto
  have "remove_entry_from_node ord h a key p =
      Some (put h a (n\<lparr>keys := ks, pointers := qs, num_keys := length es1 + length es2\<rparr>))"
    using assms(1) s ks(1) ps(1) qs(1) n(1,3) by (simp add: remove_entry_from_node_def Let_def)
  moreover have "leaf_node ord par (es1 @ es2) (n\<lparr>keys := ks, pointers := qs, num_keys := length es1 + length es2\<rparr>)"
    using n ks(2) qs(2) by (simp add: leaf_node_def)
  moreover have "rd qs (ord - 1) = rd (pointers n) (ord - 1)" using qs(3) ps(3) le by simp
  ultimately show ?thesis by (intro exI [of _ "n\<lparr>keys := ks, pointers := qs, num_keys := length es1 + length es2\<rparr>"]) simp
qed

lemma remove_inner_node:
  assumes "nodes h a = Some n" "inner_node ord par (ksl @ key # ksr) (psl @ x # psr) n"
    and "key \<notin> set ksl" "x \<notin> set psl" "length psl + length psr = Suc (length ksl + length ksr)"
  shows "\<exists>n'. remove_entry_from_node ord h a key x = Some (put h a n') \<and> inner_node ord par (ksl @ ksr) (psl @ psr) n'"
proof -
  let ?N = "Suc (length ksl + length ksr)"
  have n: "\<not> is_leaf n" "parent n = par" "num_keys n = ?N"
    "arr (ord - 1) (ksl @ key # ksr) (keys n)" "arr ord (psl @ x # psr) (pointers n)"
    using assms(2) by (auto simp: inner_node_def)
  have s: "seek (keys n) key 0 = Some (length ksl)" "seek (pointers n) x 0 = Some (length psl)"
    using seek_split [OF n(4)] seek_split [OF n(5)] assms(3,4) by auto
  obtain ks where ks: "shift_down (keys n) (Suc (length ksl)) ?N = Some ks" "arr (ord - 1) (ksl @ ksr) ks"
    using shift_down_arr [OF n(4), of ?N] by auto
  obtain ps where ps: "shift_down (pointers n) (Suc (length psl)) (Suc ?N) = Some ps" "arr ord (psl @ psr) ps"
    using shift_down_arr [OF n(5), of "Suc ?N"] assms(5) by auto
  obtain qs where qs: "fill_null ps ?N ord = Some qs" "arr ord (psl @ psr) qs"
    using fill_null_above [OF ps(2), of ?N ord] assms(5) by auto
  have "remove_entry_from_node ord h a key x =
      Some (put h a (n\<lparr>keys := ks, pointers := qs, num_keys := length ksl + length ksr\<rparr>))"
    using assms(1) s ks(1) ps(1) qs(1) n(1,3) by (simp add: remove_entry_from_node_def Let_def)
  moreover have "inner_node ord par (ksl @ ksr) (psl @ psr) (n\<lparr>keys := ks, pointers := qs, num_keys := length ksl + length ksr\<rparr>)"
    using n ks(2) qs(2) by (simp add: inner_node_def)
  ultimately show ?thesis by blast
qed

lemma merge_leaf_nodes:
  assumes "nodes h b = Some nn" "leaf_node ord par' es2 nn" "nodes h a = Some bn" "leaf_node ord par es1 bn"
    and "length es1 + length es2 \<le> ord - 1" "0 < ord" "rd (pointers nn) (ord - 1) = Some nxt"
  shows "\<exists>n'. merge_nodes ord h b a k' = Some (put h a n') \<and> leaf_node ord par (es1 @ es2) n' \<and> rd (pointers n') (ord - 1) = Some nxt"
proof -
  let ?m = "length es1" and ?n = "length es2"
  have n: "is_leaf nn" "num_keys nn = ?n" "arr (ord - 1) (map fst es2) (keys nn)" "arr ord (map snd es2) (pointers nn)"
    and bn: "is_leaf bn" "parent bn = par" "num_keys bn = ?m" "arr (ord - 1) (map fst es1) (keys bn)" "arr ord (map snd es1) (pointers bn)"
    using assms(2,4) by (auto simp: leaf_node_def)
  let ?ks = "blit (keys nn) 0 (keys bn) ?m ?n" and ?ps = "blit (pointers nn) 0 (pointers bn) ?m ?n"
  have l: "length (keys bn) = ord - 1" "length (pointers bn) = ord" "length (pointers nn) = ord" "?n \<le> length (pointers nn)"
    using n bn by (auto simp: arr_iff)
  have m: "move_entries (keys nn) (pointers nn) (keys bn) (pointers bn) ?m 0 ?m ?n = Some (?ks, ?ps, ?m + ?n, ?n, ?m + ?n)"
    using move_entries_eq [of 0 ?n "keys nn" "pointers nn" ?m "keys bn" "pointers bn" ?m] arr_ini [OF n(3), of ?n 0]
      arr_ini [OF n(4), of ?n 0] l assms(5,6) by simp
  have ks: "arr (ord - 1) (map fst es1 @ map fst es2) ?ks"
    using arr_blit_append [of "ord - 1" "map fst es2" "[]" "keys nn" "ord - 1" "map fst es1" "keys bn"] n bn assms(5) by simp
  have ps: "arr ord (map snd es1 @ map snd es2) ?ps"
    using arr_blit_append [of ord "map snd es2" "[]" "pointers nn" ord "map snd es1" "pointers bn"] n bn assms(5) by simp
  let ?n' = "bn\<lparr>keys := ?ks, pointers := ?ps[ord - 1 := Some nxt], num_keys := ?m + ?n\<rparr>"
  have "length ?ps = ord" using ps by (simp add: arr_length)
  then have "merge_nodes ord h b a k' = Some (put h a ?n')" "rd (pointers ?n') (ord - 1) = Some nxt"
    using assms(1,3,6,7) m n bn by (simp_all add: merge_nodes_def wr_Some rd_update)
  moreover have "leaf_node ord par (es1 @ es2) ?n'"
    using ks ps bn assms(5) by (simp add: leaf_node_def arr_upd_above)
  ultimately show ?thesis by blast
qed

lemma merge_inner_nodes:
  assumes "nodes h b = Some nn" "inner_node ord par' ks2 ps2 nn" "nodes h a = Some bn" "inner_node ord par ks1 ps1 bn"
    and "length ps1 = Suc (length ks1)" "length ps2 = Suc (length ks2)" "Suc (length ks1 + length ks2) \<le> ord - 1"
  shows "\<exists>n'. merge_nodes ord h b a k' = set_parents (h\<lparr>nodes := (nodes h)(b \<mapsto> nn\<lparr>num_keys := 0\<rparr>, a \<mapsto> n')\<rparr>) (pointers n') a 0 (length (ps1 @ ps2)) \<and>
    inner_node ord par (ks1 @ k' # ks2) (ps1 @ ps2) n'"
proof -
  let ?m = "Suc (length ks1)" and ?n = "length ks2"
  have n: "\<not> is_leaf nn" "num_keys nn = ?n" "arr (ord - 1) ks2 (keys nn)" "arr ord ps2 (pointers nn)"
    and bn: "\<not> is_leaf bn" "parent bn = par" "num_keys bn = length ks1" "arr (ord - 1) ks1 (keys bn)" "arr ord ps1 (pointers bn)"
    using assms(2,4) by (auto simp: inner_node_def)
  obtain q ps where q: "ps2 = ps @ [q]" "length ps = ?n" using assms(6) by (cases ps2 rule: rev_cases) auto
  have l: "length (keys bn) = ord - 1" "length (pointers bn) = ord" "length (pointers nn) = ord" "?n < length (pointers nn)"
    using n bn assms(6) by (auto simp: arr_iff)
  let ?bk = "(keys bn)[length ks1 := Some k']"
  let ?ks = "blit (keys nn) 0 ?bk ?m ?n" and ?ps = "blit (pointers nn) 0 (pointers bn) ?m ?n"
  have bk: "arr (ord - 1) (ks1 @ [k']) ?bk" using arr_snoc_upd [OF bn(4), of k'] assms(7) by simp
  have m: "move_entries (keys nn) (pointers nn) ?bk (pointers bn) ?m 0 ?m ?n = Some (?ks, ?ps, ?m + ?n, ?n, ?m + ?n)"
    using move_entries_eq [of 0 ?n "keys nn" "pointers nn" ?m ?bk "pointers bn" ?m] arr_ini [OF n(3), of ?n 0]
      arr_ini [OF n(4), of ?n 0] l assms(6,7) by simp
  have ks: "arr (ord - 1) (ks1 @ k' # ks2) ?ks"
    using arr_blit_append [of "ord - 1" ks2 "[]" "keys nn" "ord - 1" "ks1 @ [k']" ?bk] n bk assms(7) by simp
  have "arr ord (ps1 @ ps) ?ps"
    using arr_blit_append [of ord ps "[q]" "pointers nn" ord ps1 "pointers bn"] n bn assms(5,7) q by simp
  then have ps: "arr ord (ps1 @ ps2) (?ps[?m + ?n := Some q])" "length ?ps = ord"
    using arr_snoc_upd [of ord "ps1 @ ps" ?ps q] assms(5,7) q by (auto simp: arr_length)
  have qn: "rd (pointers nn) ?n = Some q" using arr_rd [OF n(4), of ?n] q by (simp add: nth_append)
  let ?n' = "bn\<lparr>keys := ?ks, pointers := ?ps[?m + ?n := Some q], num_keys := ?m + ?n\<rparr>"
  have "merge_nodes ord h b a k' = set_parents (h\<lparr>nodes := (nodes h)(b \<mapsto> nn\<lparr>num_keys := 0\<rparr>, a \<mapsto> ?n')\<rparr>) (pointers ?n') a 0 (length (ps1 @ ps2))"
    using assms(1,3,5,6,7) m n bn l ps(2) qn by (simp add: merge_nodes_def wr_Some put_def Let_def)
  moreover have "inner_node ord par (ks1 @ k' # ks2) (ps1 @ ps2) ?n'" using ks ps bn by (simp add: inner_node_def)
  ultimately show ?thesis by blast
qed

section \<open>Rotations on the arrays\<close>

lemma arr_set_key:
  assumes "inner_node ord gp (ksl @ k # ksr) ps n"
  shows "inner_node ord gp (ksl @ k2 # ksr) ps (n\<lparr>keys := (keys n)[length ksl := Some k2]\<rparr>)"
  using assms arr_upd_in [of "ord - 1" "ksl @ k # ksr" "keys n" "length ksl" k2]
  by (auto simp: inner_node_def)

lemma key_in_array: "inner_node ord gp (ksl @ k # ksr) ps n \<Longrightarrow> length ksl < length (keys n)"
  by (auto simp: inner_node_def arr_iff)

lemma arr_snoc_rd: "arr L xs a \<Longrightarrow> rd a (length xs) = Some x \<Longrightarrow> arr L (xs @ [x]) a"
  by (auto simp: arr_iff nth_append less_Suc_eq rd_def split: if_splits)

lemma borrow_left_leaf:
  assumes "nodes h a = Some nn" "leaf_node ord par es2 nn" "nodes h b = Some bn" "leaf_node ord par (es1 @ [e]) bn"
    and "nodes h par = Some pn" "inner_node ord gp (ksl @ k' # ksr) ps pn" "length es2 < ord - 1" "distinct [a, b, par]"
  shows "\<exists>nn' bn' pn'. borrow_left h a b (length ksl) k' = Some (h\<lparr>nodes := (nodes h)(par \<mapsto> pn', a \<mapsto> nn', b \<mapsto> bn')\<rparr>) \<and>
    leaf_node ord par (e # es2) nn' \<and> leaf_node ord par es1 bn' \<and> inner_node ord gp (ksl @ fst e # ksr) ps pn' \<and>
    rd (pointers nn') (ord - 1) = rd (pointers nn) (ord - 1) \<and> rd (pointers bn') (ord - 1) = rd (pointers bn) (ord - 1)"
proof -
  let ?n = "length es2" and ?m = "length es1"
  have n: "is_leaf nn" "parent nn = par" "num_keys nn = ?n" "arr (ord - 1) (map fst es2) (keys nn)" "arr ord (map snd es2) (pointers nn)"
    and bn: "is_leaf bn" "parent bn = par" "num_keys bn = Suc ?m" "arr (ord - 1) (map fst es1 @ [fst e]) (keys bn)" "arr ord (map snd es1 @ [snd e]) (pointers bn)"
    using assms(2,4) by (auto simp: leaf_node_def)
  have l: "length (keys nn) = ord - 1" "length (pointers nn) = ord" "length (pointers bn) = ord" "Suc ?m \<le> ord - 1"
    using n bn by (auto simp: arr_iff)
  let ?ks = "blit (keys nn) 0 (keys nn) (Suc 0) ?n" and ?ps = "blit (pointers nn) 0 (pointers nn) (Suc 0) ?n"
  have sh: "shift_up (keys nn) (pointers nn) ?n 0 = Some (?ks, ?ps)"
    using shift_up_eq [of 0 ?n "keys nn" "pointers nn"] arr_ini [OF n(4), of ?n 0] arr_ini [OF n(5), of ?n 0] l assms(7) by simp
  have a: "arr (ord - 1) (fst e # map fst es2) (?ks[0 := Some (fst e)])" "arr ord (snd e # map snd es2) (?ps[0 := Some (snd e)])"
    using arr_shift_up [of "ord - 1" "[]" "map fst es2" "keys nn" "fst e"] arr_shift_up [of ord "[]" "map snd es2" "pointers nn" "snd e"]
      n assms(7) by auto
  have r: "rd (keys bn) ?m = Some (fst e)" "rd (pointers bn) ?m = Some (snd e)"
    using arr_rd [OF bn(4), of ?m] arr_rd [OF bn(5), of ?m] by (simp_all add: nth_append)
  let ?nn = "nn\<lparr>keys := ?ks[0 := Some (fst e)], pointers := ?ps[0 := Some (snd e)], num_keys := Suc ?n\<rparr>"
  let ?bn = "bn\<lparr>pointers := (pointers bn)[?m := Some NULL], num_keys := ?m\<rparr>"
  let ?pn = "pn\<lparr>keys := (keys pn)[length ksl := Some (fst e)]\<rparr>"
  note pk = arr_set_key [OF assms(6), of "fst e"] key_in_array [OF assms(6)]
  have "length ?ks = ord - 1" "length ?ps = ord" using l assms(7) by auto
  then have "borrow_left h a b (length ksl) k' = Some (h\<lparr>nodes := (nodes h)(par \<mapsto> ?pn, a \<mapsto> ?nn, b \<mapsto> ?bn)\<rparr>)"
    using assms(1,3,5,8) n(1-3) bn(3) sh r pk(2) l assms(7) by (simp add: borrow_left_def wr_Some put_def Let_def)
  moreover have "leaf_node ord par (e # es2) ?nn" using a n by (simp add: leaf_node_def)
  moreover have "leaf_node ord par es1 ?bn"
    using bn arr_prefix [OF bn(4)] arr_upd_above [OF arr_prefix [OF bn(5)], of ?m] by (simp add: leaf_node_def)
  moreover have "rd (pointers ?nn) (ord - 1) = rd (pointers nn) (ord - 1)" "rd (pointers ?bn) (ord - 1) = rd (pointers bn) (ord - 1)"
    using l assms(7) by (auto simp: rd_update rd_blit_above)
  ultimately show ?thesis using pk(1) by blast
qed

lemma borrow_right_leaf:
  assumes "nodes h a = Some nn" "leaf_node ord par es1 nn" "nodes h b = Some bn" "leaf_node ord par (e # e2 # es2) bn"
    and "nodes h par = Some pn" "inner_node ord gp (ksl @ k' # ksr) ps pn" "length es1 < ord - 1" "distinct [a, b, par]"
  shows "\<exists>nn' bn' pn'. borrow_right h a b (length ksl) k' = Some (h\<lparr>nodes := (nodes h)(par \<mapsto> pn', a \<mapsto> nn', b \<mapsto> bn')\<rparr>) \<and>
    leaf_node ord par (es1 @ [e]) nn' \<and> leaf_node ord par (e2 # es2) bn' \<and> inner_node ord gp (ksl @ fst e2 # ksr) ps pn' \<and>
    rd (pointers nn') (ord - 1) = rd (pointers nn) (ord - 1) \<and> rd (pointers bn') (ord - 1) = rd (pointers bn) (ord - 1)"
proof -
  let ?n = "length es1" and ?m = "Suc (Suc (length es2))"
  have n: "is_leaf nn" "parent nn = par" "num_keys nn = ?n" "arr (ord - 1) (map fst es1) (keys nn)" "arr ord (map snd es1) (pointers nn)"
    and bn: "is_leaf bn" "parent bn = par" "num_keys bn = ?m" "arr (ord - 1) ([] @ fst e # fst e2 # map fst es2) (keys bn)"
      "arr ord ([] @ snd e # snd e2 # map snd es2) (pointers bn)"
    using assms(2,4) by (auto simp: leaf_node_def)
  have l: "length (keys nn) = ord - 1" "length (pointers nn) = ord" "?m \<le> ord - 1"
    using n bn by (auto simp: arr_iff)
  obtain bks where ks: "shift_down (keys bn) (Suc 0) ?m = Some bks" "arr (ord - 1) (fst e2 # map fst es2) bks"
    using shift_down_arr [OF bn(4), of ?m] by auto
  obtain bps where ps: "shift_down (pointers bn) (Suc 0) ?m = Some bps" "arr ord (snd e2 # map snd es2) bps"
     "\<And>m. ?m \<le> m \<Longrightarrow> rd bps m = rd (pointers bn) m"
    using shift_down_arr [OF bn(5), of ?m] by auto
  have r: "rd (keys bn) 0 = Some (fst e)" "rd (pointers bn) 0 = Some (snd e)" "rd (keys bn) (Suc 0) = Some (fst e2)"
    using arr_rd [OF bn(4), of 0] arr_rd [OF bn(5), of 0] arr_rd [OF bn(4), of 1] by simp_all
  let ?nn = "nn\<lparr>keys := (keys nn)[?n := Some (fst e)], pointers := (pointers nn)[?n := Some (snd e)], num_keys := Suc ?n\<rparr>"
  let ?bn = "bn\<lparr>keys := bks, pointers := bps, num_keys := Suc (length es2)\<rparr>"
  let ?pn = "pn\<lparr>keys := (keys pn)[length ksl := Some (fst e2)]\<rparr>"
  note pk = arr_set_key [OF assms(6), of "fst e2"] key_in_array [OF assms(6)]
  have "borrow_right h a b (length ksl) k' = Some (h\<lparr>nodes := (nodes h)(par \<mapsto> ?pn, a \<mapsto> ?nn, b \<mapsto> ?bn)\<rparr>)"
    using assms(1,3,5,8) n(1-3) bn(3) r pk(2) l assms(7) ks(1) ps(1) by (simp add: borrow_right_def wr_Some put_def Let_def)
  moreover have "leaf_node ord par (es1 @ [e]) ?nn"
    using n arr_snoc_upd [OF n(4), of "fst e"] arr_snoc_upd [OF n(5), of "snd e"] assms(7) by (simp add: leaf_node_def)
  moreover have "leaf_node ord par (e2 # es2) ?bn" using bn ks(2) ps(2) by (simp add: leaf_node_def)
  moreover have "rd (pointers ?nn) (ord - 1) = rd (pointers nn) (ord - 1)" "rd (pointers ?bn) (ord - 1) = rd (pointers bn) (ord - 1)"
    using l assms(7) ps(3) by (simp_all add: rd_update)
  ultimately show ?thesis using pk(1) by blast
qed

lemma borrow_left_inner:
  assumes "nodes h a = Some nn" "inner_node ord par ks2 ps2 nn" "nodes h b = Some bn" "inner_node ord par (ks1 @ [k]) (ps1 @ [q]) bn"
    and "nodes h par = Some pn" "inner_node ord gp (ksl @ k' # ksr) ps pn" "length ks2 < ord - 1" "distinct [a, b, par]"
    and "length ps2 = Suc (length ks2)" "length ps1 = Suc (length ks1)" "nodes h q = Some qn" "q \<notin> {a, b, par}"
  shows "\<exists>nn' bn' pn'. borrow_left h a b (length ksl) k' =
      Some (h\<lparr>nodes := (nodes h)(q \<mapsto> qn\<lparr>parent := a\<rparr>, par \<mapsto> pn', a \<mapsto> nn', b \<mapsto> bn')\<rparr>) \<and>
    inner_node ord par (k' # ks2) (q # ps2) nn' \<and> inner_node ord par ks1 ps1 bn' \<and> inner_node ord gp (ksl @ k # ksr) ps pn'"
proof -
  let ?n = "length ks2" and ?m = "length ks1"
  have n: "\<not> is_leaf nn" "parent nn = par" "num_keys nn = ?n" "arr (ord - 1) ks2 (keys nn)" "arr ord ps2 (pointers nn)"
    and bn: "\<not> is_leaf bn" "parent bn = par" "num_keys bn = Suc ?m" "arr (ord - 1) (ks1 @ [k]) (keys bn)" "arr ord (ps1 @ [q]) (pointers bn)"
    using assms(2,4) by (auto simp: inner_node_def)
  have l: "length (keys nn) = ord - 1" "length (pointers nn) = ord" "length (pointers bn) = ord" "Suc ?m < ord" "Suc ?n < ord"
    using n bn assms(7,10) by (auto simp: arr_iff)
  obtain us u where u: "ps2 = us @ [u]" "length us = ?n" using assms(9) by (cases ps2 rule: rev_cases) auto
  have ru: "rd (pointers nn) ?n = Some u" using arr_rd [OF n(5), of ?n] u by (simp add: nth_append)
  let ?p0 = "(pointers nn)[Suc ?n := Some u]"
  have p0: "arr ord (us @ [u]) ?p0" using arr_upd_above [OF n(5), of "Suc ?n"] u by simp
  let ?ks = "blit (keys nn) 0 (keys nn) (Suc 0) ?n" and ?ps = "blit ?p0 0 ?p0 (Suc 0) ?n"
  have sh: "shift_up (keys nn) ?p0 ?n 0 = Some (?ks, ?ps)"
    using shift_up_eq [of 0 ?n "keys nn" ?p0] arr_ini [OF n(4), of ?n 0] arr_ini [OF p0, of ?n 0] l assms(7) u(2) by simp
  have a: "arr (ord - 1) (k' # ks2) (?ks[0 := Some k'])" "arr ord (q # us) (?ps[0 := Some q])"
    using arr_shift_up [of "ord - 1" "[]" ks2 "keys nn" k'] arr_shift_up [of ord "[]" us ?p0 q] arr_prefix [OF p0] n assms(7) u l by auto
  have "rd (?ps[0 := Some q]) (Suc ?n) = Some u"
    using l rd_blit_above [of 0 ?n ?p0 "Suc 0" "Suc ?n" ?p0] by (simp add: rd_update)
  then have a2: "arr ord (q # ps2) (?ps[0 := Some q])"
    using arr_snoc_rd [OF a(2), of u] u by simp
  have r: "rd (keys bn) ?m = Some k" "rd (pointers bn) (Suc ?m) = Some q"
    using arr_rd [OF bn(4), of ?m] arr_rd [OF bn(5), of "Suc ?m"] assms(10) by (simp_all add: nth_append)
  let ?nn = "nn\<lparr>keys := ?ks[0 := Some k'], pointers := ?ps[0 := Some q], num_keys := Suc ?n\<rparr>"
  let ?bn = "bn\<lparr>pointers := (pointers bn)[Suc ?m := Some NULL], num_keys := ?m\<rparr>"
  let ?pn = "pn\<lparr>keys := (keys pn)[length ksl := Some k]\<rparr>"
  note pk = arr_set_key [OF assms(6), of k] key_in_array [OF assms(6)]
  have "length ?ks = ord - 1" "length ?ps = ord" using l by auto
  then have "borrow_left h a b (length ksl) k' = Some (h\<lparr>nodes := (nodes h)(q \<mapsto> qn\<lparr>parent := a\<rparr>, par \<mapsto> ?pn, a \<mapsto> ?nn, b \<mapsto> ?bn)\<rparr>)"
    using assms(1,3,5,8,11,12) n(1-3) bn(3) sh r pk(2) l ru assms(7) by (simp add: borrow_left_def wr_Some put_def Let_def)
  moreover have "inner_node ord par (k' # ks2) (q # ps2) ?nn" using a(1) a2 n by (simp add: inner_node_def)
  moreover have "inner_node ord par ks1 ps1 ?bn"
    using bn arr_prefix [OF bn(4)] arr_upd_above [OF arr_prefix [OF bn(5)], of "Suc ?m"] assms(10) by (simp add: inner_node_def)
  ultimately show ?thesis using pk(1) by blast
qed

lemma borrow_right_inner:
  assumes "nodes h a = Some nn" "inner_node ord par ks1 ps1 nn" "nodes h b = Some bn" "inner_node ord par (k # ks2) (q # ps2) bn"
    and "nodes h par = Some pn" "inner_node ord gp (ksl @ k' # ksr) ps pn" "length ks1 < ord - 1" "distinct [a, b, par]"
    and "length ps2 = Suc (length ks2)" "length ps1 = Suc (length ks1)" "nodes h q = Some qn" "q \<notin> {a, b, par}"
  shows "\<exists>nn' bn' pn'. borrow_right h a b (length ksl) k' =
      Some (h\<lparr>nodes := (nodes h)(q \<mapsto> qn\<lparr>parent := a\<rparr>, par \<mapsto> pn', a \<mapsto> nn', b \<mapsto> bn')\<rparr>) \<and>
    inner_node ord par (ks1 @ [k']) (ps1 @ [q]) nn' \<and> inner_node ord par ks2 ps2 bn' \<and> inner_node ord gp (ksl @ k # ksr) ps pn'"
proof -
  let ?n = "length ks1" and ?m = "Suc (length ks2)"
  have n: "\<not> is_leaf nn" "parent nn = par" "num_keys nn = ?n" "arr (ord - 1) ks1 (keys nn)" "arr ord ps1 (pointers nn)"
    and bn: "\<not> is_leaf bn" "parent bn = par" "num_keys bn = ?m" "arr (ord - 1) ([] @ k # ks2) (keys bn)" "arr ord ([] @ q # ps2) (pointers bn)"
    using assms(2,4) by (auto simp: inner_node_def)
  have l: "length (keys nn) = ord - 1" "length (pointers nn) = ord" "length (pointers bn) = ord" "?m < ord" "Suc ?n < ord"
    using n bn assms(7,9) by (auto simp: arr_iff)
  obtain bks where ks: "shift_down (keys bn) (Suc 0) ?m = Some bks" "arr (ord - 1) ks2 bks"
    using shift_down_arr [OF bn(4), of ?m] by auto
  obtain us u where u: "ps2 = us @ [u]" "length us = length ks2" using assms(9) by (cases ps2 rule: rev_cases) auto
  have "arr ord ([] @ q # us) (pointers bn)" using arr_prefix [of ord "q # us" "[u]"] bn(5) u by simp
  then obtain bps where ps: "shift_down (pointers bn) (Suc 0) ?m = Some bps" "arr ord us bps"
     "\<And>m. ?m \<le> m \<Longrightarrow> rd bps m = rd (pointers bn) m"
    using shift_down_arr [of ord "[]" q us "pointers bn" ?m] u(2) by auto
  have ru: "rd bps ?m = Some u" using arr_rd [OF bn(5), of ?m] ps(3) u by (simp add: nth_append)
  have bps: "arr ord ps2 (bps[length ks2 := Some u])" using arr_snoc_upd [OF ps(2), of u] u l by simp
  have r: "rd (keys bn) 0 = Some k" "rd (pointers bn) 0 = Some q"
    using arr_rd [OF bn(4), of 0] arr_rd [OF bn(5), of 0] by simp_all
  let ?nn = "nn\<lparr>keys := (keys nn)[?n := Some k'], pointers := (pointers nn)[Suc ?n := Some q], num_keys := Suc ?n\<rparr>"
  let ?bn = "bn\<lparr>keys := bks, pointers := bps[length ks2 := Some u], num_keys := length ks2\<rparr>"
  let ?pn = "pn\<lparr>keys := (keys pn)[length ksl := Some k]\<rparr>"
  note pk = arr_set_key [OF assms(6), of k] key_in_array [OF assms(6)]
  have "length bps = ord" using ps(2) by (simp add: arr_length)
  then have "borrow_right h a b (length ksl) k' = Some (h\<lparr>nodes := (nodes h)(q \<mapsto> qn\<lparr>parent := a\<rparr>, par \<mapsto> ?pn, a \<mapsto> ?nn, b \<mapsto> ?bn)\<rparr>)"
    using assms(1,3,5,8,11,12) n(1-3) bn(3) r pk(2) l assms(7) ks(1) ps(1) ru by (simp add: borrow_right_def wr_Some put_def Let_def)
  moreover have "inner_node ord par (ks1 @ [k']) (ps1 @ [q]) ?nn"
    using n arr_snoc_upd [OF n(4), of k'] arr_snoc_upd [OF n(5), of q] assms(7,10) l by (simp add: inner_node_def)
  moreover have "inner_node ord par ks2 ps2 ?bn" using bn ks(2) bps by (simp add: inner_node_def)
  ultimately show ?thesis using pk(1) by blast
qed

section \<open>Steps on the tree\<close>

text \<open>
  The heap during a deletion: the nodes of the tree \<open>t\<close>, which may have nodes below their
  minimum, and the set \<open>Z\<close> of nodes that have been merged away and are still to be freed.
\<close>

definition held :: "nat \<Rightarrow> ('k::linorder, 'r) heap \<Rightarrow> 'k bt \<Rightarrow> addr set \<Rightarrow> bool" where
  "held ord h t Z \<longleftrightarrow> 3 \<le> ord \<and> heap_ok h \<and> rep ord (nodes h) NULL t \<and> distinct (addrs t) \<and>
     dom (nodes h) = set (addrs t) \<union> Z \<and> Z \<inter> set (addrs t) = {} \<and> ordered (flat t) \<and>
     (\<exists>y. chain ord (ptrs (nodes h)) y (leaf_addrs t) NULL)"

lemma held_replace:
  assumes h: "held ord h (zip_up P fs) Z" and ok: "\<forall>f \<in> set fs. fr_ok f"
    and N: "rep ord N (top_addr fs) P'" "root_of P' = root_of P" "\<And>x. x \<notin> set (addrs P) \<Longrightarrow> N x = nodes h x" "dom N = dom (nodes h)"
    and addr: "distinct (addrs P')" "set (addrs P) = set (addrs P') \<union> W" "W \<inter> set (addrs P') = {}"
    and o: "ordered (ctx_lflat fs @ flat P @ ctx_rflat fs) \<Longrightarrow> ordered (ctx_lflat fs @ flat P' @ ctx_rflat fs)"
    and ch: "\<And>x y. chain ord (ptrs (nodes h)) x (leaf_addrs P) y \<Longrightarrow> chain ord (ptrs N) x (leaf_addrs P') y"
  shows "held ord (h\<lparr>nodes := N\<rparr>) (zip_up P' fs) (Z \<union> W)"
proof -
  from h have q: "3 \<le> ord" "heap_ok h" "rep ord (nodes h) (top_addr fs) P" "ctx_rep ord (nodes h) (root_of P) fs"
      "distinct (addrs P @ ctx_addrs fs)" "dom (nodes h) = set (addrs P) \<union> set (ctx_addrs fs) \<union> Z"
      "Z \<inter> (set (addrs P) \<union> set (ctx_addrs fs)) = {}" "ordered (flat (zip_up P fs))"
    by (simp_all add: held_def rep_zip_up distinct_zip_up set_addrs_zip_up)
  from h obtain y u v where c: "chain ord (ptrs (nodes h)) y (ctx_lleaves fs) u" "chain ord (ptrs (nodes h)) u (leaf_addrs P) v"
      "chain ord (ptrs (nodes h)) v (ctx_rleaves fs) NULL"
    by (auto simp: held_def leaf_addrs_zip_up chain_append)
  have disj: "set (addrs P) \<inter> set (ctx_addrs fs) = {}" using q(5) by simp
  have out: "N x = nodes h x" if "x \<in> set (ctx_addrs fs)" for x using N(3) disj that by blast
  have "ctx_rep ord N (root_of P') fs" unfolding N(2) using q(4) out by (subst ctx_rep_cong [of fs N "nodes h"]) auto
  then have "rep ord N NULL (zip_up P' fs)" using N(1) by (simp add: rep_zip_up)
  moreover have "distinct (addrs (zip_up P' fs))"
    unfolding distinct_zip_up using addr q(5) by auto
  moreover have "dom N = set (addrs (zip_up P' fs)) \<union> (Z \<union> W)"
    unfolding N(4) q(6) set_addrs_zip_up addr(2) by blast
  moreover have "(Z \<union> W) \<inter> set (addrs (zip_up P' fs)) = {}"
    unfolding set_addrs_zip_up using addr(2,3) q(7) disj by blast
  moreover have "ordered (flat (zip_up P' fs))" using o q(8) by (simp add: flat_zip_up [OF ok])
  moreover have "chain ord (ptrs N) y (leaf_addrs (zip_up P' fs)) NULL"
  proof -
    have eq: "ptrs N x = ptrs (nodes h) x" if "x \<in> set (ctx_lleaves fs) \<union> set (ctx_rleaves fs)" for x
      using out [of x] that ctx_leaves_subset [of fs] by (auto simp: ptrs_def)
    have "chain ord (ptrs N) y (ctx_lleaves fs) u" "chain ord (ptrs N) v (ctx_rleaves fs) NULL"
      using c(1,3) eq chain_cong [of "ctx_lleaves fs" "ptrs N" "ptrs (nodes h)"] chain_cong [of "ctx_rleaves fs" "ptrs N" "ptrs (nodes h)"]
      by auto
    with ch [OF c(2)] show ?thesis by (auto simp: leaf_addrs_zip_up chain_append)
  qed
  moreover have "heap_ok (h\<lparr>nodes := N\<rparr>)" using q(2) N(4) by (simp add: heap_ok_def)
  ultimately show ?thesis unfolding held_def using q(1) by auto
qed

lemma held_parts:
  assumes "held ord h (zip_up P fs) Z"
  shows "rep ord (nodes h) (top_addr fs) P" "ctx_rep ord (nodes h) (root_of P) fs" "distinct (addrs P)" "3 \<le> ord" "heap_ok h"
    "set (addrs P) \<subseteq> dom (nodes h)" "\<exists>x y. chain ord (ptrs (nodes h)) x (leaf_addrs P) y" "distinct (addrs P @ ctx_addrs fs)"
  using assms by (auto simp: held_def rep_zip_up distinct_zip_up set_addrs_zip_up leaf_addrs_zip_up chain_append)

lemma flat_pair:
  assumes "length csl = length ksl"
  shows "flat (Nd a (ksl @ k # ksr) (csl @ L # R # csr)) =
    lsep (map flat csl) ksl @ flat L @ Sep k # flat R @ rsep ksr (map flat csr)"
  using weave_split [of "map flat csl" ksl "k # ksr" "flat L" "flat R # map flat csr"] assms by simp

lemma flat_single:
  assumes "length csl = length ksl"
  shows "flat (Nd a (ksl @ ksr) (csl @ T # csr)) = lsep (map flat csl) ksl @ flat T @ rsep ksr (map flat csr)"
  using weave_split [of "map flat csl" ksl ksr "flat T" "map flat csr"] assms by simp

text \<open>The parent and the other children of two siblings that change.\<close>

lemma rep_siblings:
  assumes "rep ord N par (Nd a ks (csl @ cs @ csr))" "distinct (addrs (Nd a ks (csl @ cs @ csr)))"
    and "\<And>x. x \<notin> insert a (set (concat (map addrs cs))) \<Longrightarrow> N' x = N x"
    and "N' a = Some n'" "inner_node ord par ks' (map root_of (csl @ cs' @ csr)) n'" "length (csl @ cs' @ csr) = Suc (length ks')"
    and "\<forall>c \<in> set cs'. rep ord N' a c"
  shows "rep ord N' par (Nd a ks' (csl @ cs' @ csr))"
proof -
  have "rep ord N' a c" if "c \<in> set csl \<union> set csr" for c
  proof -
    have "set (addrs c) \<inter> insert a (set (concat (map addrs cs))) = {}" using assms(2) that by auto
    then have "rep ord N' a c \<longleftrightarrow> rep ord N a c" using assms(3) by (intro rep_cong) blast
    with assms(1) that show ?thesis by auto
  qed
  with assms(4-7) show ?thesis unfolding rep_Nd by auto
qed

lemma merge_leaf_step:
  assumes h: "held ord h (zip_up (Nd a (ksl @ k # ksr) (csl @ Lf b es1 # Lf c es2 # csr)) fs) Z"
    and ok: "\<forall>f \<in> set fs. fr_ok f" "length csl = length ksl" "length csr = length ksr" "length es1 + length es2 \<le> ord - 1" "k \<notin> set ksl"
  shows "\<exists>h1 rn N. merge_nodes ord h c b k = Some h1 \<and> nodes h1 c = Some rn \<and> parent rn = a \<and>
    remove_entry_from_node ord h1 a k c = Some (h\<lparr>nodes := N\<rparr>) \<and>
    held ord (h\<lparr>nodes := N\<rparr>) (zip_up (Nd a (ksl @ ksr) (csl @ Lf b (es1 @ es2) # csr)) fs) (insert c Z)"
proof -
  let ?P = "Nd a (ksl @ k # ksr) (csl @ Lf b es1 # Lf c es2 # csr)" and ?P' = "Nd a (ksl @ ksr) (csl @ Lf b (es1 @ es2) # csr)"
  note hp = held_parts [OF h]
  from hp(1) obtain pn bn cn where n: "nodes h a = Some pn"
      "inner_node ord (top_addr fs) (ksl @ k # ksr) (map root_of csl @ b # c # map root_of csr) pn"
      "nodes h b = Some bn" "leaf_node ord a es1 bn" "nodes h c = Some cn" "leaf_node ord a es2 cn"
    unfolding rep_Nd by (auto simp: rep_Lf simp del: rep.simps)
  have dist: "a \<noteq> b" "a \<noteq> c" "b \<noteq> c" "c \<notin> set (map root_of csl)" "b \<notin> set (concat (map addrs csl @ map addrs csr))"
      "c \<notin> set (concat (map addrs csl @ map addrs csr))"
    using hp(3) roots_subset [of csl] by auto
  obtain nxt where nxt: "rd (pointers cn) (ord - 1) = Some nxt"
    using hp(7) n(5) by (auto simp: chain_append ptrs_def)
  obtain bn' where m: "merge_nodes ord h c b k = Some (put h b bn')" "leaf_node ord a (es1 @ es2) bn'" "rd (pointers bn') (ord - 1) = Some nxt"
    using merge_leaf_nodes [OF n(5,6,3,4) ok(4) _ nxt] hp(4) by auto
  have "nodes (put h b bn') a = Some pn" using n(1) dist(1) by (simp add: put_def)
  from remove_inner_node [of "put h b bn'" a pn ord "top_addr fs" ksl k ksr "map root_of csl @ [b]" c "map root_of csr", OF this] n(2) ok dist(3,4)
  obtain pn' where r: "remove_entry_from_node ord (put h b bn') a k c = Some (put (put h b bn') a pn')"
    "inner_node ord (top_addr fs) (ksl @ ksr) (map root_of csl @ b # map root_of csr) pn'" by auto
  let ?N = "(nodes h)(b \<mapsto> bn', a \<mapsto> pn')"
  have "held ord (h\<lparr>nodes := ?N\<rparr>) (zip_up ?P' fs) (Z \<union> {c})"
  proof (rule held_replace [OF h ok(1)])
    show "rep ord ?N (top_addr fs) ?P'"
      using rep_siblings [of ord "nodes h" "top_addr fs" a "ksl @ k # ksr" csl "[Lf b es1, Lf c es2]" csr ?N pn' "ksl @ ksr" "[Lf b (es1 @ es2)]"]
        hp(1,3) r(2) ok(2,3) m(2) dist(1) by (simp add: rep_Lf del: rep.simps)
    show "dom ?N = dom (nodes h)" using n by auto
    show "?N x = nodes h x" if "x \<notin> set (addrs ?P)" for x using that by auto
    show "distinct (addrs ?P')" using hp(3) by auto
    show "set (addrs ?P) = set (addrs ?P') \<union> {c}" by auto
    show "{c} \<inter> set (addrs ?P') = {}" using dist by auto
    show "ordered (ctx_lflat fs @ flat ?P' @ ctx_rflat fs)" if "ordered (ctx_lflat fs @ flat ?P @ ctx_rflat fs)"
      using that unfolding flat_pair [OF ok(2)] flat_single [OF ok(2)] by (auto simp: sorted_wrt_append)
    show "chain ord (ptrs ?N) x (leaf_addrs ?P') y" if "chain ord (ptrs (nodes h)) x (leaf_addrs ?P) y" for x y
    proof -
      let ?A = "concat (map leaf_addrs csl)" and ?B = "concat (map leaf_addrs csr)"
      have "a \<notin> set (?A @ ?B)" "b \<notin> set (?A @ ?B)" using hp(3) leaves_subset [of csl] leaves_subset [of csr] by auto
      with that m(3) nxt n(3,5) dist(1) show ?thesis by (auto simp: chain_append ptrs_upd) (auto simp: ptrs_def)
    qed
  qed simp
  then show ?thesis using m(1) r(1) n(5,6) dist
    by (intro exI [of _ "put h b bn'"] exI [of _ cn] exI [of _ ?N]) (auto simp: put_def leaf_node_def)
qed

lemma merge_inner_step:
  assumes h: "held ord h (zip_up (Nd a (ksl @ k # ksr) (csl @ Nd b ks1 cs1 # Nd c ks2 cs2 # csr)) fs) Z"
    and ok: "\<forall>f \<in> set fs. fr_ok f" "length csl = length ksl" "length csr = length ksr" "Suc (length ks1 + length ks2) \<le> ord - 1" "k \<notin> set ksl"
  shows "\<exists>h1 rn N. merge_nodes ord h c b k = Some h1 \<and> nodes h1 c = Some rn \<and> parent rn = a \<and>
    remove_entry_from_node ord h1 a k c = Some (h\<lparr>nodes := N\<rparr>) \<and>
    held ord (h\<lparr>nodes := N\<rparr>) (zip_up (Nd a (ksl @ ksr) (csl @ Nd b (ks1 @ k # ks2) (cs1 @ cs2) # csr)) fs) (insert c Z)"
proof -
  let ?L = "Nd b ks1 cs1" and ?R = "Nd c ks2 cs2" and ?T = "Nd b (ks1 @ k # ks2) (cs1 @ cs2)"
  let ?P = "Nd a (ksl @ k # ksr) (csl @ ?L # ?R # csr)" and ?P' = "Nd a (ksl @ ksr) (csl @ ?T # csr)"
  note hp = held_parts [OF h]
  from hp(1) have rLR: "rep ord (nodes h) a ?L" "rep ord (nodes h) a ?R" by auto
  from hp(1) obtain pn bn cn where n: "nodes h a = Some pn"
      "inner_node ord (top_addr fs) (ksl @ k # ksr) (map root_of csl @ b # c # map root_of csr) pn"
      "nodes h b = Some bn" "inner_node ord a ks1 (map root_of cs1) bn" "nodes h c = Some cn" "inner_node ord a ks2 (map root_of cs2) cn"
    unfolding rep_Nd by (auto simp: rep_Nd simp del: rep.simps)
  from rLR have len: "length cs1 = Suc (length ks1)" "length cs2 = Suc (length ks2)"
    and sub: "\<forall>t \<in> set cs1. rep ord (nodes h) b t" "\<forall>t \<in> set cs2. rep ord (nodes h) c t" by auto
  define D where "D = set (concat (map addrs (cs1 @ cs2)))"
  have D: "a \<notin> D" "b \<notin> D" "c \<notin> D" "distinct (concat (map addrs (cs1 @ cs2)))"
    using hp(3) unfolding D_def by auto
  have dist: "a \<noteq> b" "a \<noteq> c" "b \<noteq> c" "c \<notin> set (map root_of csl)" using hp(3) roots_subset [of csl] by auto
  obtain bn' where m: "merge_nodes ord h c b k =
       set_parents (h\<lparr>nodes := (nodes h)(c \<mapsto> cn\<lparr>num_keys := 0\<rparr>, b \<mapsto> bn')\<rparr>) (pointers bn') b 0 (length (map root_of cs1 @ map root_of cs2))"
    "inner_node ord a (ks1 @ k # ks2) (map root_of cs1 @ map root_of cs2) bn'"
    using merge_inner_nodes [OF n(5,6,3,4) _ _ ok(4)] len by auto
  let ?M = "(nodes h)(c \<mapsto> cn\<lparr>num_keys := 0\<rparr>, b \<mapsto> bn')"
  have sD: "t \<in> set (cs1 @ cs2) \<Longrightarrow> set (addrs t) \<subseteq> D" for t unfolding D_def by auto
  have "rep ord ?M (if t \<in> set cs1 then b else c) t" if "t \<in> set (cs1 @ cs2)" for t
  proof -
    have "b \<notin> set (addrs t)" "c \<notin> set (addrs t)" using sD [OF that] D by auto
    then show ?thesis using sub that by auto
  qed
  moreover have "arr ord ([] @ map root_of (cs1 @ cs2)) (pointers bn')" using m(2) by (simp add: inner_node_def)
  ultimately obtain N where N: "set_parents (h\<lparr>nodes := ?M\<rparr>) (pointers bn') b 0 (length (cs1 @ cs2)) = Some (h\<lparr>nodes := N\<rparr>)"
      "\<forall>t \<in> set (cs1 @ cs2). rep ord N b t" "\<forall>x. x \<notin> set (map root_of (cs1 @ cs2)) \<longrightarrow> N x = ?M x" "ptrs N = ptrs ?M" "dom N = dom ?M"
    using set_parents_rep [of ord "[]" "cs1 @ cs2" "pointers bn'" "length (cs1 @ cs2)" ord "h\<lparr>nodes := ?M\<rparr>" "\<lambda>t. if t \<in> set cs1 then b else c" b] D(4)
    by (simp del: set_append map_append) blast
  have NM: "N x = ?M x" if "x \<notin> D" for x using N(3) that roots_subset [of "cs1 @ cs2", folded D_def] by blast
  have Nabc: "N a = Some pn" "N b = Some bn'" "N c = Some (cn\<lparr>num_keys := 0\<rparr>)" using NM D n(1) dist by simp_all
  from remove_inner_node [of "h\<lparr>nodes := N\<rparr>" a pn ord "top_addr fs" ksl k ksr "map root_of csl @ [b]" c "map root_of csr"] Nabc(1) n(2) ok dist
  obtain pn' where r: "remove_entry_from_node ord (h\<lparr>nodes := N\<rparr>) a k c = Some (h\<lparr>nodes := N(a \<mapsto> pn')\<rparr>)"
    "inner_node ord (top_addr fs) (ksl @ ksr) (map root_of csl @ b # map root_of csr) pn'" by (auto simp: put_def)
  let ?N = "N(a \<mapsto> pn')"
  have "held ord (h\<lparr>nodes := ?N\<rparr>) (zip_up ?P' fs) (Z \<union> {c})"
  proof (rule held_replace [OF h ok(1)])
    have "rep ord ?N b t" if "t \<in> set (cs1 @ cs2)" for t
    proof -
      have "a \<notin> set (addrs t)" using sD [OF that] D(1) by blast
      with N(2) that show ?thesis by simp
    qed
    then have rT: "rep ord ?N a ?T" using Nabc(2) m(2) dist(1) len unfolding rep_Nd by auto
    have out: "?N x = nodes h x" if "x \<notin> insert a (set (addrs ?L @ addrs ?R))" for x
      using NM [of x] that by (auto simp: D_def)
    show "rep ord ?N (top_addr fs) ?P'"
      using rep_siblings [of ord "nodes h" "top_addr fs" a "ksl @ k # ksr" csl "[?L, ?R]" csr ?N pn' "ksl @ ksr" "[?T]"]
        hp(1,3) r(2) ok(2,3) out rT by (simp del: rep.simps)
    show "?N x = nodes h x" if "x \<notin> set (addrs ?P)" for x using out that by auto
    show "dom ?N = dom (nodes h)" using N(5) n by auto
    show "distinct (addrs ?P')" using hp(3) by auto
    show "set (addrs ?P) = set (addrs ?P') \<union> {c}" by auto
    show "{c} \<inter> set (addrs ?P') = {}" using hp(3) by auto
    show "ordered (ctx_lflat fs @ flat ?P' @ ctx_rflat fs)" if "ordered (ctx_lflat fs @ flat ?P @ ctx_rflat fs)"
      using that weave_append [of "map flat cs1" ks1 "map flat cs2" k ks2] len
      unfolding flat_pair [OF ok(2)] flat_single [OF ok(2)] by (cases cs2) auto
    show "chain ord (ptrs ?N) x (leaf_addrs ?P') y" if "chain ord (ptrs (nodes h)) x (leaf_addrs ?P) y" for x y
    proof -
      have e: "leaf_addrs ?P' = leaf_addrs ?P" by simp
      have "a \<notin> set (leaf_addrs ?P)" "b \<notin> set (leaf_addrs ?P)" "c \<notin> set (leaf_addrs ?P)"
        using hp(3) leaves_subset [of csl] leaves_subset [of csr] leaves_subset [of cs1] leaves_subset [of cs2] by auto
      then have "ptrs ?N z = ptrs (nodes h) z" if "z \<in> set (leaf_addrs ?P)" for z
        using N(4) that by (auto simp: ptrs_upd fun_eq_iff)
      with that show ?thesis unfolding e using chain_cong [of "leaf_addrs ?P" "ptrs ?N" "ptrs (nodes h)"] by blast
    qed
  qed simp
  then show ?thesis using m(1) N(1) r(1) n(5,6) Nabc(3)
    by (intro exI [of _ "h\<lparr>nodes := N\<rparr>"] exI [of _ "cn\<lparr>num_keys := 0\<rparr>"] exI [of _ ?N]) (auto simp: inner_node_def)
qed

lemma held_rotate:
  assumes h: "held ord h (zip_up (Nd a (ksl @ k # ksr) (csl @ L # R # csr)) fs) Z"
    and ok: "\<forall>f \<in> set fs. fr_ok f" "length csl = length ksl" "length csr = length ksr"
    and N: "N a = Some pn" "inner_node ord (top_addr fs) (ksl @ k2 # ksr) (map root_of csl @ root_of L' # root_of R' # map root_of csr) pn"
      "rep ord N a L'" "rep ord N a R'" "\<And>x. x \<notin> insert a (set (addrs L @ addrs R)) \<Longrightarrow> N x = nodes h x" "dom N = dom (nodes h)"
    and addr: "mset (addrs L' @ addrs R') = mset (addrs L @ addrs R)" "leaf_addrs L' @ leaf_addrs R' = leaf_addrs L @ leaf_addrs R"
    and o: "\<And>X Y. ordered (X @ flat L @ Sep k # flat R @ Y) \<Longrightarrow> ordered (X @ flat L' @ Sep k2 # flat R' @ Y)"
    and nxt: "\<And>x n. x \<in> set (leaf_addrs L @ leaf_addrs R) \<Longrightarrow> nodes h x = Some n \<Longrightarrow>
      \<exists>n'. N x = Some n' \<and> rd (pointers n') (ord - 1) = rd (pointers n) (ord - 1)"
  shows "held ord (h\<lparr>nodes := N\<rparr>) (zip_up (Nd a (ksl @ k2 # ksr) (csl @ L' # R' # csr)) fs) Z"
proof -
  let ?P = "Nd a (ksl @ k # ksr) (csl @ L # R # csr)" and ?P' = "Nd a (ksl @ k2 # ksr) (csl @ L' # R' # csr)"
  note hp = held_parts [OF h]
  have m: "mset (addrs ?P') = mset (addrs ?P)" using addr(1) by (simp add: add.assoc [symmetric]) 
  then have s: "set (addrs ?P') = set (addrs ?P)" "distinct (addrs ?P') \<longleftrightarrow> distinct (addrs ?P)"
    by (rule mset_eq_setD, rule mset_eq_imp_distinct_iff)
  have lv: "leaf_addrs ?P' = leaf_addrs ?P" using addr(2) by (simp add: append_assoc [symmetric] del: append_assoc)
  have "held ord (h\<lparr>nodes := N\<rparr>) (zip_up ?P' fs) (Z \<union> {})"
  proof (rule held_replace [OF h ok(1)])
    show "rep ord N (top_addr fs) ?P'"
      using rep_siblings [of ord "nodes h" "top_addr fs" a "ksl @ k # ksr" csl "[L, R]" csr N pn "ksl @ k2 # ksr" "[L', R']"]
        hp(1,3) N ok(2,3) by (simp del: rep.simps)
    show "N x = nodes h x" if "x \<notin> set (addrs ?P)" for x using N(5) that by auto
    show "dom N = dom (nodes h)" by (rule N(6))
    show "distinct (addrs ?P')" using s(2) hp(3) by blast
    show "set (addrs ?P) = set (addrs ?P') \<union> {}" using s(1) by blast
    show "ordered (ctx_lflat fs @ flat ?P' @ ctx_rflat fs)" if "ordered (ctx_lflat fs @ flat ?P @ ctx_rflat fs)"
      using that o [of "ctx_lflat fs @ lsep (map flat csl) ksl" "rsep ksr (map flat csr) @ ctx_rflat fs"]
      unfolding flat_pair [OF ok(2)] by simp
    show "chain ord (ptrs N) x (leaf_addrs ?P') y" if ch: "chain ord (ptrs (nodes h)) x (leaf_addrs ?P) y" for x y
      unfolding lv
    proof (rule chain_cong_next [OF _ ch])
      fix z assume z: "z \<in> set (leaf_addrs ?P)" and "\<exists>ps. ptrs (nodes h) z = Some ps"
      then obtain n where n: "nodes h z = Some n" by (auto simp: ptrs_def)
      show "\<exists>ps qs. ptrs (nodes h) z = Some ps \<and> ptrs N z = Some qs \<and> rd qs (ord - 1) = rd ps (ord - 1)"
      proof (cases "z \<in> set (leaf_addrs L @ leaf_addrs R)")
        case True
        with nxt [OF this n] n show ?thesis by (auto simp: ptrs_def)
      next
        case False
        then have "z \<in> set (concat (map addrs csl)) \<union> set (concat (map addrs csr))"
          using z leaves_subset [of csl] leaves_subset [of csr] by auto
        then have "z \<notin> insert a (set (addrs L @ addrs R))" using hp(3) by auto
        with N(5) n show ?thesis by (auto simp: ptrs_def)
      qed
    qed
  qed simp_all
  then show ?thesis by simp
qed

lemma rotate_left_leaf:
  assumes h: "held ord h (zip_up (Nd a (ksl @ k # ksr) (csl @ Lf b (es1 @ [e]) # Lf c es2 # csr)) fs) Z"
    and ok: "\<forall>f \<in> set fs. fr_ok f" "length csl = length ksl" "length csr = length ksr" "length es2 < ord - 1" "es1 \<noteq> []"
  shows "\<exists>N. borrow_left h c b (length ksl) k = Some (h\<lparr>nodes := N\<rparr>) \<and>
    held ord (h\<lparr>nodes := N\<rparr>) (zip_up (Nd a (ksl @ fst e # ksr) (csl @ Lf b es1 # Lf c (e # es2) # csr)) fs) Z"
proof -
  note hp = held_parts [OF h]
  from hp(1) obtain pn bn cn where n: "nodes h a = Some pn"
      "inner_node ord (top_addr fs) (ksl @ k # ksr) (map root_of csl @ b # c # map root_of csr) pn"
      "nodes h b = Some bn" "leaf_node ord a (es1 @ [e]) bn" "nodes h c = Some cn" "leaf_node ord a es2 cn"
    unfolding rep_Nd by (auto simp: rep_Lf simp del: rep.simps)
  have dist: "distinct [c, b, a]" using hp(3) by auto
  obtain cn' bn' pn' where b: "borrow_left h c b (length ksl) k = Some (h\<lparr>nodes := (nodes h)(a \<mapsto> pn', c \<mapsto> cn', b \<mapsto> bn')\<rparr>)"
    "leaf_node ord a (e # es2) cn'" "leaf_node ord a es1 bn'"
    "inner_node ord (top_addr fs) (ksl @ fst e # ksr) (map root_of csl @ b # c # map root_of csr) pn'"
    "rd (pointers cn') (ord - 1) = rd (pointers cn) (ord - 1)" "rd (pointers bn') (ord - 1) = rd (pointers bn) (ord - 1)"
    using borrow_left_leaf [OF n(5,6,3,4,1,2) ok(4) dist] by blast
  let ?N = "(nodes h)(a \<mapsto> pn', c \<mapsto> cn', b \<mapsto> bn')"
  have "held ord (h\<lparr>nodes := ?N\<rparr>) (zip_up (Nd a (ksl @ fst e # ksr) (csl @ Lf b es1 # Lf c (e # es2) # csr)) fs) Z"
  proof (rule held_rotate [OF h ok(1-3)])
    show "ordered (X @ flat (Lf b es1) @ Sep (fst e) # flat (Lf c (e # es2)) @ Y)"
      if "ordered (X @ flat (Lf b (es1 @ [e])) @ Sep k # flat (Lf c es2) @ Y)" for X Y
    proof -
      have "ordered (X @ map (\<lambda>(k, p). Ent k p) (es1 @ e # es2) @ Y)" using that by (auto simp: sorted_wrt_append)
      from ordered_cut [OF this, of "length es1"] ok(5) show ?thesis by simp
    qed
  qed (use n b dist in \<open>auto simp: rep_Lf simp del: rep.simps\<close>)
  with b(1) show ?thesis by blast
qed

lemma rotate_right_leaf:
  assumes h: "held ord h (zip_up (Nd a (ksl @ k # ksr) (csl @ Lf b es1 # Lf c (e # e2 # es2) # csr)) fs) Z"
    and ok: "\<forall>f \<in> set fs. fr_ok f" "length csl = length ksl" "length csr = length ksr" "length es1 < ord - 1"
  shows "\<exists>N. borrow_right h b c (length ksl) k = Some (h\<lparr>nodes := N\<rparr>) \<and>
    held ord (h\<lparr>nodes := N\<rparr>) (zip_up (Nd a (ksl @ fst e2 # ksr) (csl @ Lf b (es1 @ [e]) # Lf c (e2 # es2) # csr)) fs) Z"
proof -
  note hp = held_parts [OF h]
  from hp(1) obtain pn bn cn where n: "nodes h a = Some pn"
      "inner_node ord (top_addr fs) (ksl @ k # ksr) (map root_of csl @ b # c # map root_of csr) pn"
      "nodes h b = Some bn" "leaf_node ord a es1 bn" "nodes h c = Some cn" "leaf_node ord a (e # e2 # es2) cn"
    unfolding rep_Nd by (auto simp: rep_Lf simp del: rep.simps)
  have dist: "distinct [b, c, a]" using hp(3) by auto
  obtain bn' cn' pn' where b: "borrow_right h b c (length ksl) k = Some (h\<lparr>nodes := (nodes h)(a \<mapsto> pn', b \<mapsto> bn', c \<mapsto> cn')\<rparr>)"
    "leaf_node ord a (es1 @ [e]) bn'" "leaf_node ord a (e2 # es2) cn'"
    "inner_node ord (top_addr fs) (ksl @ fst e2 # ksr) (map root_of csl @ b # c # map root_of csr) pn'"
    "rd (pointers bn') (ord - 1) = rd (pointers bn) (ord - 1)" "rd (pointers cn') (ord - 1) = rd (pointers cn) (ord - 1)"
    using borrow_right_leaf [OF n(3,4,5,6,1,2) ok(4) dist] by blast
  let ?N = "(nodes h)(a \<mapsto> pn', b \<mapsto> bn', c \<mapsto> cn')"
  have "held ord (h\<lparr>nodes := ?N\<rparr>) (zip_up (Nd a (ksl @ fst e2 # ksr) (csl @ Lf b (es1 @ [e]) # Lf c (e2 # es2) # csr)) fs) Z"
  proof (rule held_rotate [OF h ok(1-3)])
    show "ordered (X @ flat (Lf b (es1 @ [e])) @ Sep (fst e2) # flat (Lf c (e2 # es2)) @ Y)"
      if "ordered (X @ flat (Lf b es1) @ Sep k # flat (Lf c (e # e2 # es2)) @ Y)" for X Y
    proof -
      have "ordered (X @ map (\<lambda>(k, p). Ent k p) (es1 @ e # e2 # es2) @ Y)" using that by (auto simp: sorted_wrt_append)
      from ordered_cut [OF this, of "Suc (length es1)"] show ?thesis by (simp add: nth_append)
    qed
  qed (use n b dist in \<open>auto simp: rep_Lf simp del: rep.simps\<close>)
  with b(1) show ?thesis by blast
qed

lemma rotate_left_inner:
  assumes h: "held ord h (zip_up (Nd a (ksl @ k # ksr) (csl @ Nd b (ks1 @ [k1]) (cs1 @ [q]) # Nd c ks2 cs2 # csr)) fs) Z"
    and ok: "\<forall>f \<in> set fs. fr_ok f" "length csl = length ksl" "length csr = length ksr" "length ks2 < ord - 1"
  shows "\<exists>N. borrow_left h c b (length ksl) k = Some (h\<lparr>nodes := N\<rparr>) \<and>
    held ord (h\<lparr>nodes := N\<rparr>) (zip_up (Nd a (ksl @ k1 # ksr) (csl @ Nd b ks1 cs1 # Nd c (k # ks2) (q # cs2) # csr)) fs) Z"
proof -
  let ?L = "Nd b (ks1 @ [k1]) (cs1 @ [q])" and ?R = "Nd c ks2 cs2" and ?L' = "Nd b ks1 cs1" and ?R' = "Nd c (k # ks2) (q # cs2)"
  note hp = held_parts [OF h]
  from hp(1) have rLR: "rep ord (nodes h) a ?L" "rep ord (nodes h) a ?R" by auto
  then have len: "length cs1 = Suc (length ks1)" "length cs2 = Suc (length ks2)"
    and sub: "\<forall>t \<in> set cs1. rep ord (nodes h) b t" "\<forall>t \<in> set cs2. rep ord (nodes h) c t" "rep ord (nodes h) b q" by auto
  from hp(1) obtain pn bn cn where n: "nodes h a = Some pn"
      "inner_node ord (top_addr fs) (ksl @ k # ksr) (map root_of csl @ b # c # map root_of csr) pn"
      "nodes h b = Some bn" "inner_node ord a (ks1 @ [k1]) (map root_of cs1 @ [root_of q]) bn"
      "nodes h c = Some cn" "inner_node ord a ks2 (map root_of cs2) cn"
    unfolding rep_Nd by (auto simp: rep_Nd simp del: rep.simps)
  obtain qn where qn: "nodes h (root_of q) = Some qn" using sub(3) rep_node by blast
  have dist: "distinct [c, b, a]" "{a, b, c} \<inter> set (addrs t) = {}" if "t \<in> set (cs1 @ q # cs2)" for t
    using hp(3) that by auto
  have q: "root_of q \<notin> {c, b, a}" using dist(2) [of q] root_in_addrs [of q] by auto
  have dq: "root_of q \<notin> set (addrs t)" if "t \<in> set (cs1 @ cs2)" for t
  proof -
    have "set (addrs q) \<inter> set (addrs t) = {}" using hp(3) that by auto
    then show ?thesis using root_in_addrs [of q] by blast
  qed
  obtain cn' bn' pn' where b: "borrow_left h c b (length ksl) k =
      Some (h\<lparr>nodes := (nodes h)(root_of q \<mapsto> qn\<lparr>parent := c\<rparr>, a \<mapsto> pn', c \<mapsto> cn', b \<mapsto> bn')\<rparr>)"
    "inner_node ord a (k # ks2) (root_of q # map root_of cs2) cn'" "inner_node ord a ks1 (map root_of cs1) bn'"
    "inner_node ord (top_addr fs) (ksl @ k1 # ksr) (map root_of csl @ b # c # map root_of csr) pn'"
    using borrow_left_inner [OF n(5,6,3,4,1,2) ok(4) dist(1) [of q] _ _ qn q] len by auto
  let ?N = "(nodes h)(root_of q \<mapsto> qn\<lparr>parent := c\<rparr>, a \<mapsto> pn', c \<mapsto> cn', b \<mapsto> bn')"
  have keep: "rep ord ?N p t \<longleftrightarrow> rep ord (nodes h) p t" if "t \<in> set (cs1 @ cs2)" for t p
    using dist(2) [of t] dq [OF that] that by (intro rep_cong) auto
  have "rep ord ((nodes h)(root_of q \<mapsto> qn\<lparr>parent := c\<rparr>)) c q"
    using sub(3) qn hp(3) by (intro rep_reparent [of _ _ b]) auto
  then have rq: "rep ord ?N c q" using dist(2) [of q] by auto
  have root_ne: "root_of q \<noteq> a" "root_of q \<noteq> b" "root_of q \<noteq> c" "a \<noteq> b" "a \<noteq> c" "b \<noteq> c" using q dist(1) [of q] by auto
  have "held ord (h\<lparr>nodes := ?N\<rparr>) (zip_up (Nd a (ksl @ k1 # ksr) (csl @ ?L' # ?R' # csr)) fs) Z"
  proof (rule held_rotate [OF h ok(1-3)])
    show "?N a = Some pn'" using root_ne by simp
    show "inner_node ord (top_addr fs) (ksl @ k1 # ksr) (map root_of csl @ root_of ?L' # root_of ?R' # map root_of csr) pn'"
      using b(4) by simp
    show "rep ord ?N a ?L'" unfolding rep_Nd using b(3) root_ne len keep sub(1) by auto
    show "rep ord ?N a ?R'" unfolding rep_Nd using b(2) root_ne len keep sub(2) rq by auto
    show "?N x = nodes h x" if "x \<notin> insert a (set (addrs ?L @ addrs ?R))" for x
      using that root_in_addrs [of q] by auto
    show "dom ?N = dom (nodes h)" using n qn by auto
    show "mset (addrs ?L' @ addrs ?R') = mset (addrs ?L @ addrs ?R)" by simp
    show "leaf_addrs ?L' @ leaf_addrs ?R' = leaf_addrs ?L @ leaf_addrs ?R" by simp
    show "ordered (X @ flat ?L' @ Sep k1 # flat ?R' @ Y)" if "ordered (X @ flat ?L @ Sep k # flat ?R @ Y)" for X Y
      using that weave_append [of "map flat cs1" ks1 "[flat q]" k1 "[]"] weave_append [of "[flat q]" "[]" "map flat cs2" k ks2] len
      by (cases cs2) auto
    show "\<exists>n'. ?N x = Some n' \<and> rd (pointers n') (ord - 1) = rd (pointers n) (ord - 1)"
      if "x \<in> set (leaf_addrs ?L @ leaf_addrs ?R)" "nodes h x = Some n" for x n
    proof -
      have "x \<notin> {a, b, c}"
        using that(1) hp(3) leaves_subset [of cs1] leaves_subset [of cs2] leaf_addrs_subset [of q] by auto
      with that(2) qn show ?thesis by auto
    qed
  qed
  with b(1) show ?thesis by blast
qed

lemma rotate_right_inner:
  assumes h: "held ord h (zip_up (Nd a (ksl @ k # ksr) (csl @ Nd b ks1 cs1 # Nd c (k1 # ks2) (q # cs2) # csr)) fs) Z"
    and ok: "\<forall>f \<in> set fs. fr_ok f" "length csl = length ksl" "length csr = length ksr" "length ks1 < ord - 1"
  shows "\<exists>N. borrow_right h b c (length ksl) k = Some (h\<lparr>nodes := N\<rparr>) \<and>
    held ord (h\<lparr>nodes := N\<rparr>) (zip_up (Nd a (ksl @ k1 # ksr) (csl @ Nd b (ks1 @ [k]) (cs1 @ [q]) # Nd c ks2 cs2 # csr)) fs) Z"
proof -
  let ?L = "Nd b ks1 cs1" and ?R = "Nd c (k1 # ks2) (q # cs2)" and ?L' = "Nd b (ks1 @ [k]) (cs1 @ [q])" and ?R' = "Nd c ks2 cs2"
  note hp = held_parts [OF h]
  from hp(1) have rLR: "rep ord (nodes h) a ?L" "rep ord (nodes h) a ?R" by auto
  then have len: "length cs1 = Suc (length ks1)" "length cs2 = Suc (length ks2)"
    and sub: "\<forall>t \<in> set cs1. rep ord (nodes h) b t" "\<forall>t \<in> set cs2. rep ord (nodes h) c t" "rep ord (nodes h) c q" by auto
  from hp(1) obtain pn bn cn where n: "nodes h a = Some pn"
      "inner_node ord (top_addr fs) (ksl @ k # ksr) (map root_of csl @ b # c # map root_of csr) pn"
      "nodes h b = Some bn" "inner_node ord a ks1 (map root_of cs1) bn"
      "nodes h c = Some cn" "inner_node ord a (k1 # ks2) (root_of q # map root_of cs2) cn"
    unfolding rep_Nd by (auto simp: rep_Nd simp del: rep.simps)
  obtain qn where qn: "nodes h (root_of q) = Some qn" using sub(3) rep_node by blast
  have dist: "distinct [b, c, a]" "{a, b, c} \<inter> set (addrs t) = {}" if "t \<in> set (cs1 @ q # cs2)" for t
    using hp(3) that by auto
  have q: "root_of q \<notin> {b, c, a}" using dist(2) [of q] root_in_addrs [of q] by auto
  have dq: "root_of q \<notin> set (addrs t)" if "t \<in> set (cs1 @ cs2)" for t
  proof -
    have "set (addrs q) \<inter> set (addrs t) = {}" using hp(3) that by auto
    then show ?thesis using root_in_addrs [of q] by blast
  qed
  obtain bn' cn' pn' where b: "borrow_right h b c (length ksl) k =
      Some (h\<lparr>nodes := (nodes h)(root_of q \<mapsto> qn\<lparr>parent := b\<rparr>, a \<mapsto> pn', b \<mapsto> bn', c \<mapsto> cn')\<rparr>)"
    "inner_node ord a (ks1 @ [k]) (map root_of cs1 @ [root_of q]) bn'" "inner_node ord a ks2 (map root_of cs2) cn'"
    "inner_node ord (top_addr fs) (ksl @ k1 # ksr) (map root_of csl @ b # c # map root_of csr) pn'"
    using borrow_right_inner [OF n(3,4,5,6,1,2) ok(4) dist(1) [of q] _ _ qn q] len by auto
  let ?N = "(nodes h)(root_of q \<mapsto> qn\<lparr>parent := b\<rparr>, a \<mapsto> pn', b \<mapsto> bn', c \<mapsto> cn')"
  have keep: "rep ord ?N p t \<longleftrightarrow> rep ord (nodes h) p t" if "t \<in> set (cs1 @ cs2)" for t p
    using dist(2) [of t] dq [OF that] that by (intro rep_cong) auto
  have "rep ord ((nodes h)(root_of q \<mapsto> qn\<lparr>parent := b\<rparr>)) b q"
    using sub(3) qn hp(3) by (intro rep_reparent [of _ _ c]) auto
  then have rq: "rep ord ?N b q" using dist(2) [of q] by auto
  have root_ne: "root_of q \<noteq> a" "root_of q \<noteq> b" "root_of q \<noteq> c" "a \<noteq> b" "a \<noteq> c" "b \<noteq> c" using q dist(1) [of q] by auto
  have "held ord (h\<lparr>nodes := ?N\<rparr>) (zip_up (Nd a (ksl @ k1 # ksr) (csl @ ?L' # ?R' # csr)) fs) Z"
  proof (rule held_rotate [OF h ok(1-3)])
    show "?N a = Some pn'" using root_ne by simp
    show "inner_node ord (top_addr fs) (ksl @ k1 # ksr) (map root_of csl @ root_of ?L' # root_of ?R' # map root_of csr) pn'"
      using b(4) by simp
    show "rep ord ?N a ?L'" unfolding rep_Nd using b(2) root_ne len keep sub(1) rq by auto
    show "rep ord ?N a ?R'" unfolding rep_Nd using b(3) root_ne len keep sub(2) by auto
    show "?N x = nodes h x" if "x \<notin> insert a (set (addrs ?L @ addrs ?R))" for x
      using that root_in_addrs [of q] by auto
    show "dom ?N = dom (nodes h)" using n qn by auto
    show "mset (addrs ?L' @ addrs ?R') = mset (addrs ?L @ addrs ?R)" by simp
    show "leaf_addrs ?L' @ leaf_addrs ?R' = leaf_addrs ?L @ leaf_addrs ?R" by simp
    show "ordered (X @ flat ?L' @ Sep k1 # flat ?R' @ Y)" if "ordered (X @ flat ?L @ Sep k # flat ?R @ Y)" for X Y
      using that weave_append [of "map flat cs1" ks1 "[flat q]" k "[]"] weave_append [of "[flat q]" "[]" "map flat cs2" k1 ks2] len
      by (cases cs2) auto
    show "\<exists>n'. ?N x = Some n' \<and> rd (pointers n') (ord - 1) = rd (pointers n) (ord - 1)"
      if "x \<in> set (leaf_addrs ?L @ leaf_addrs ?R)" "nodes h x = Some n" for x n
    proof -
      have "x \<notin> {a, b, c}"
        using that(1) hp(3) leaves_subset [of cs1] leaves_subset [of cs2] leaf_addrs_subset [of q] by auto
      with that(2) qn show ?thesis by auto
    qed
  qed
  with b(1) show ?thesis by blast
qed

section \<open>Occupancy\<close>

text \<open>A node that may be one entry short.\<close>

fun lax :: "nat \<Rightarrow> bool \<Rightarrow> nat \<Rightarrow> 'k bt \<Rightarrow> bool" where
  "lax ord r d (Lf a es) \<longleftrightarrow> d = 0 \<and> length es \<le> ord - 1 \<and> min_leaf ord r \<le> Suc (length es)"
| "lax ord r d (Nd a ks cs) \<longleftrightarrow>
     0 < d \<and> length cs = Suc (length ks) \<and> length ks \<le> ord - 1 \<and> min_node ord r \<le> Suc (length ks) \<and>
     (\<forall>c \<in> set cs. fits ord False (d - 1) c)"

fun bsize :: "'k bt \<Rightarrow> nat" where
  "bsize (Lf a es) = length es"
| "bsize (Nd a ks cs) = length ks"

definition bmin :: "nat \<Rightarrow> nat \<Rightarrow> nat" where
  "bmin ord d = (if d = 0 then cut (ord - 1) else cut ord - 1)"

definition bcap :: "nat \<Rightarrow> nat \<Rightarrow> nat" where
  "bcap ord d = (if d = 0 then ord else ord - 1)"

lemma fits_lax: "fits ord r d t \<Longrightarrow> lax ord r d t"
  by (cases t) auto

lemma lax_fits: "lax ord False d t \<Longrightarrow> fits ord False d t \<longleftrightarrow> bmin ord d \<le> bsize t"
  by (cases t) (auto simp: bmin_def min_leaf_def min_node_def)

lemma lax_min: "lax ord False d t \<Longrightarrow> bmin ord d \<le> Suc (bsize t)"
  by (cases t) (auto simp: bmin_def min_leaf_def min_node_def)

lemma lax_cases:
  assumes "lax ord r d t" "lax ord r' d u"
  obtains a es b es' where "t = Lf a es" "u = Lf b es'" "d = 0"
    | a ks cs b ks' cs' where "t = Nd a ks cs" "u = Nd b ks' cs'" "0 < d"
  using assms by (cases t; cases u) auto

lemma fits_root: "3 \<le> ord \<Longrightarrow> fits ord False d t \<Longrightarrow> fits ord True d t"
  using cut_bounds [of ord] by (cases t) (auto simp: min_leaf_def min_node_def)

lemma ents_weave: "length xs = Suc (length ks) \<Longrightarrow> ents (weave ks xs) = concat (map ents xs)"
proof (cases xs)
  case (Cons x ys)
  have "length ys = length ks \<Longrightarrow> ents (rsep ks ys) = concat (map ents ys)" for ks ys
    by (induction ys ks rule: list_induct2) auto
  moreover assume "length xs = Suc (length ks)"
  ultimately show ?thesis using Cons by simp
qed simp

lemma fits_ents: "3 \<le> ord \<Longrightarrow> fits ord r d t \<Longrightarrow> ents (flat t) \<noteq> []"
proof (induction t arbitrary: r d)
  case (Lf a es)
  then show ?case using cut_bounds [of ord] by (auto simp: min_leaf_def split: if_splits)
next
  case (Nd a ks cs)
  then obtain c cs' where cs: "cs = c # cs'" by (cases cs) auto
  with Nd have "ents (flat c) \<noteq> []" by fastforce
  with Nd.prems(2) show ?case by (simp add: ents_weave cs)
qed

definition shrunk ::
  "nat \<Rightarrow> ('k::linorder, 'r) heap \<Rightarrow> ('k \<times> addr) list \<Rightarrow> addr set \<Rightarrow> (addr \<times> ('k, 'r) heap) option \<Rightarrow> bool" where
  "shrunk ord h E Z res \<longleftrightarrow> (\<exists>root' h'. res = Some (root', h') \<and> recs h' = recs h \<and>
     (if E = [] then root' = NULL \<and> heap_ok h' \<and> dom (nodes h') = Z
      else \<exists>t d. root' = root_of t \<and> held ord h' t Z \<and> fits ord True d t \<and> ents (flat t) = E))"

lemma shrunk_tree:
  assumes "held ord (h\<lparr>nodes := N\<rparr>) t Z" "fits ord True d t"
  shows "shrunk ord h (ents (flat t)) Z (Some (root_of t, h\<lparr>nodes := N\<rparr>))"
proof -
  have "3 \<le> ord" using assms(1) by (simp add: held_def)
  with assms fits_ents [of ord True d t] show ?thesis unfolding shrunk_def by auto
qed

lemma shrunk_free:
  assumes "shrunk ord h E (insert c Z) res" "c \<notin> Z"
  shows "shrunk ord h E Z (do { (root, h) \<leftarrow> res; h \<leftarrow> free_node h c; Some (root, h) })"
proof -
  from assms(1) obtain root' h' where r: "res = Some (root', h')" "recs h' = recs h" 
     and s: "if E = [] then root' = NULL \<and> heap_ok h' \<and> dom (nodes h') = insert c Z
      else \<exists>t d. root' = root_of t \<and> held ord h' t (insert c Z) \<and> fits ord True d t \<and> ents (flat t) = E"
    unfolding shrunk_def by blast
  let ?h = "h'\<lparr>nodes := (nodes h')(c := None)\<rparr>"
  have c: "c \<in> dom (nodes h')" using s by (auto simp: held_def split: if_splits)
  then have f: "(do { (root, h) \<leftarrow> res; h \<leftarrow> free_node h c; Some (root, h) }) = Some (root', ?h)"
    using r by (auto simp: free_node_def)
  have okh: "heap_ok h' \<Longrightarrow> heap_ok ?h" by (auto simp: heap_ok_def)
  show ?thesis
  proof (cases "E = []")
    case True
    with s have "dom (nodes h') = insert c Z" "heap_ok h'" "root' = NULL" by auto
    with assms(2) okh have "dom (nodes ?h) = Z" by auto
    with f True r(2) okh \<open>heap_ok h'\<close> \<open>root' = NULL\<close> show ?thesis unfolding shrunk_def by auto
  next
    case False
    with s obtain t d where t: "root' = root_of t" "held ord h' t (insert c Z)" "fits ord True d t" "ents (flat t) = E" by auto
    have ct: "c \<notin> set (addrs t)" using t(2) by (auto simp: held_def)
    then have "c \<notin> set (leaf_addrs t)" using leaf_addrs_subset by blast
    with ct t(2) assms(2) okh have "held ord ?h t Z"
      unfolding held_def by (auto simp: ptrs_upd)
    with f False r(2) t show ?thesis unfolding shrunk_def by auto
  qed
qed

lemma adjust_root_ok:
  assumes h: "held ord h T Z" and lx: "lax ord True d T"
  shows "shrunk ord h (ents (flat T)) Z (adjust_root h (root_of T))"
proof -
  have h': "heap_ok h" "rep ord (nodes h) NULL T" "distinct (addrs T)" "3 \<le> ord" using h by (auto simp: held_def)
  show ?thesis
  proof (cases T)
    case (Lf a es)
    with h'(2) obtain n where n: "nodes h a = Some n" "is_leaf n" "num_keys n = length es" by auto
    show ?thesis
    proof (cases "es = []")
      case True
      have "dom ((nodes h)(a := None)) = Z" using h Lf by (auto simp: held_def)
      moreover have "heap_ok (h\<lparr>nodes := (nodes h)(a := None)\<rparr>)" using h'(1) by (auto simp: heap_ok_def)
      ultimately show ?thesis using n True Lf unfolding shrunk_def by (simp add: adjust_root_def free_node_def)
    next
      case False
      have "fits ord True 0 T" using lx Lf False by (cases es) (auto simp: min_leaf_def)
      with shrunk_tree [where ord = ord and h = h and N = "nodes h" and t = T and Z = Z and d = 0] h n False Lf show ?thesis by (simp add: adjust_root_def)
    qed
  next
    case (Nd a ks cs)
    with h'(2) obtain n where n: "nodes h a = Some n" "\<not> is_leaf n" "num_keys n = length ks" "arr ord (map root_of cs) (pointers n)"
      and len: "length cs = Suc (length ks)" and sub: "\<forall>c \<in> set cs. rep ord (nodes h) a c" by auto
    show ?thesis
    proof (cases "ks = []")
      case True
      with len obtain c where cs: "cs = [c]" by (cases cs) auto
      obtain cn where cn: "nodes h (root_of c) = Some cn" using sub cs rep_node by (metis list.set_intros(1))
      have ac: "a \<notin> set (addrs c)" "distinct (addrs c)" using h'(3) Nd cs by auto
      then have ar: "a \<noteq> root_of c" using root_in_addrs by metis
      let ?N = "(nodes h)(root_of c \<mapsto> cn\<lparr>parent := NULL\<rparr>, a := None)"
      have "rd (pointers n) 0 = Some (root_of c)" using arr_rd [OF n(4), of 0] cs by simp
      then have adj: "adjust_root h a = Some (root_of c, h\<lparr>nodes := ?N\<rparr>)"
        using n True cn ar by (simp add: adjust_root_def free_node_def put_def)
      have "held ord (h\<lparr>nodes := ?N\<rparr>) c Z"
      proof -
        have "rep ord ?N NULL c" using rep_reparent [of ord "nodes h" a c cn NULL] sub cs cn ac by simp
        moreover have "dom ?N = set (addrs c) \<union> Z"
          using h Nd cs cn ac root_in_addrs [of c] by (auto simp: held_def)
        moreover have "a \<notin> set (leaf_addrs c)" using ac leaf_addrs_subset by blast
        then have "chain ord (ptrs ?N) y (leaf_addrs c) NULL \<longleftrightarrow> chain ord (ptrs (nodes h)) y (leaf_addrs c) NULL" for y
          using cn by (intro chain_cong) (auto simp: ptrs_def)
        moreover have "heap_ok (h\<lparr>nodes := ?N\<rparr>)" using h'(1) cn by (auto simp: heap_ok_def)
        ultimately show ?thesis using h Nd cs ac True unfolding held_def by auto
      qed
      moreover have "fits ord True (d - 1) c" using lx Nd cs h'(4) by (auto intro: fits_root)
      ultimately have "shrunk ord h (ents (flat c)) Z (Some (root_of c, h\<lparr>nodes := ?N\<rparr>))" by (rule shrunk_tree)
      then show ?thesis using adj Nd cs True by simp
    next
      case False
      have "fits ord True d T" using lx Nd False by (cases ks) (auto simp: min_node_def)
      with shrunk_tree [where ord = ord and h = h and N = "nodes h" and t = T and Z = Z and d = d] h n False Nd show ?thesis by (simp add: adjust_root_def)
    qed
  qed
qed

lemma fits_Nd_lax:
  "lax ord r d (Nd a ks cs) \<longleftrightarrow> 0 < d \<and> length cs = Suc (length ks) \<and> length ks \<le> ord - 1 \<and> min_node ord r \<le> Suc (length ks) \<and>
     (\<forall>c \<in> set cs. fits ord False (d - 1) c)"
  by simp

text \<open>Two siblings that fit into one node are merged.\<close>

lemma merge_step:
  assumes h: "held ord h (zip_up (Nd a (ksl @ k # ksr) (csl @ L # R # csr)) fs) Z"
    and ok: "\<forall>f \<in> set fs. fr_ok f" "length csl = length ksl" "length csr = length ksr" "k \<notin> set ksl"
    and d: "lax ord False d L" "lax ord False d R" "bsize L + bsize R < bcap ord d" "bmin ord d \<le> bsize L + bsize R"
  shows "\<exists>T h1 rn N. merge_nodes ord h (root_of R) (root_of L) k = Some h1 \<and> nodes h1 (root_of R) = Some rn \<and> parent rn = a \<and>
    remove_entry_from_node ord h1 a k (root_of R) = Some (h\<lparr>nodes := N\<rparr>) \<and> fits ord False d T \<and>
    ents (flat T) = ents (flat L) @ ents (flat R) \<and>
    held ord (h\<lparr>nodes := N\<rparr>) (zip_up (Nd a (ksl @ ksr) (csl @ T # csr)) fs) (insert (root_of R) Z)"
  using d(1,2)
proof (cases rule: lax_cases)
  case (1 b es1 c es2)
  have T: "fits ord False d (Lf b (es1 @ es2))" using 1 d by (auto simp: bmin_def bcap_def min_leaf_def)
  from 1 d have "length es1 + length es2 \<le> ord - 1" by (simp add: bcap_def)
  from merge_leaf_step [OF h [unfolded 1] ok(1-3) this ok(4)] T 1 show ?thesis
    by (intro exI [of _ "Lf b (es1 @ es2)"]) simp
next
  case (2 b ks1 cs1 c ks2 cs2)
  let ?T = "Nd b (ks1 @ k # ks2) (cs1 @ cs2)"
  have T: "fits ord False d ?T" using 2 d by (auto simp: bmin_def bcap_def min_node_def)
  have "ents (flat ?T) = ents (flat L) @ ents (flat R)" using 2 d by (auto simp: ents_weave simp del: weave.simps)
  moreover from 2 d have "Suc (length ks1 + length ks2) \<le> ord - 1" by (simp add: bcap_def)
  from merge_inner_step [OF h [unfolded 2] ok(1-3) this ok(4)] have
    "\<exists>h1 rn N. merge_nodes ord h (root_of R) (root_of L) k = Some h1 \<and> nodes h1 (root_of R) = Some rn \<and> parent rn = a \<and>
    remove_entry_from_node ord h1 a k (root_of R) = Some (h\<lparr>nodes := N\<rparr>) \<and>
    held ord (h\<lparr>nodes := N\<rparr>) (zip_up (Nd a (ksl @ ksr) (csl @ ?T # csr)) fs) (insert (root_of R) Z)"
    by (simp add: 2)
  ultimately show ?thesis using T by blast
qed

lemma split_last: "xs \<noteq> [] \<Longrightarrow> \<exists>ys y. xs = ys @ [y]"
  by (cases xs rule: rev_cases) auto

lemma rotate_left_step:
  assumes h: "held ord h (zip_up (Nd a (ksl @ k # ksr) (csl @ L # R # csr)) fs) Z"
    and ok: "\<forall>f \<in> set fs. fr_ok f" "length csl = length ksl" "length csr = length ksr"
    and d: "fits ord False d L" "lax ord False d R" "bmin ord d < bsize L" "bsize R < bmin ord d"
  shows "\<exists>k2 L' R' N. borrow_left h (root_of R) (root_of L) (length ksl) k = Some (h\<lparr>nodes := N\<rparr>) \<and>
    fits ord False d L' \<and> fits ord False d R' \<and> ents (flat L') @ ents (flat R') = ents (flat L) @ ents (flat R) \<and>
    held ord (h\<lparr>nodes := N\<rparr>) (zip_up (Nd a (ksl @ k2 # ksr) (csl @ L' # R' # csr)) fs) Z"
  using fits_lax [OF d(1)] d(2)
proof (cases rule: lax_cases)
  case (1 b es c es2)
  have b: "bmin ord d \<le> ord - 1" "1 \<le> bmin ord d" using cut_bounds held_parts(4) [OF h] 1 by (auto simp: bmin_def)
  with 1 d obtain es1 e where es: "es = es1 @ [e]" "es1 \<noteq> []" using split_last [of es] by fastforce
  have "length es2 < ord - 1" using 1 d b by simp
  from rotate_left_leaf [OF h [unfolded 1 es] ok this es(2)] obtain N where
    N: "borrow_left h c b (length ksl) k = Some (h\<lparr>nodes := N\<rparr>)"
      "held ord (h\<lparr>nodes := N\<rparr>) (zip_up (Nd a (ksl @ fst e # ksr) (csl @ Lf b es1 # Lf c (e # es2) # csr)) fs) Z" by blast
  have "fits ord False d (Lf b es1)" "fits ord False d (Lf c (e # es2))" "ents (flat (Lf b es1)) @ ents (flat (Lf c (e # es2))) = ents (flat L) @ ents (flat R)"
    using 1 d es b by (cases e; auto simp: bmin_def min_leaf_def)+
  moreover have "borrow_left h (root_of R) (root_of L) (length ksl) k = Some (h\<lparr>nodes := N\<rparr>)" using N(1) 1 by simp
  ultimately show ?thesis using N(2) by blast
next
  case (2 b ks cs c ks2 cs2)
  have b: "bmin ord d \<le> ord - 1" "1 \<le> bmin ord d" using cut_bounds [of ord] held_parts(4) [OF h] 2 by (auto simp: bmin_def)
  with 2 d obtain ks1 k1 where ks: "ks = ks1 @ [k1]" using split_last [of ks] by fastforce
  from 2 d obtain cs1 q where cs: "cs = cs1 @ [q]" using split_last [of cs] by fastforce
  have "length ks2 < ord - 1" using 2 d b by simp
  from rotate_left_inner [OF h [unfolded 2 ks cs] ok this] obtain N where
    N: "borrow_left h c b (length ksl) k = Some (h\<lparr>nodes := N\<rparr>)"
      "held ord (h\<lparr>nodes := N\<rparr>) (zip_up (Nd a (ksl @ k1 # ksr) (csl @ Nd b ks1 cs1 # Nd c (k # ks2) (q # cs2) # csr)) fs) Z" by blast
  have len: "length cs1 = Suc (length ks1)" "length cs2 = Suc (length ks2)" using 2 d ks cs by auto
  have "fits ord False d (Nd b ks1 cs1)" "fits ord False d (Nd c (k # ks2) (q # cs2))"
    using 2 d ks cs b by (auto simp: bmin_def min_node_def)
  moreover have "ents (flat (Nd b ks1 cs1)) @ ents (flat (Nd c (k # ks2) (q # cs2))) = ents (flat L) @ ents (flat R)"
    using 2 ks cs len by (simp add: ents_weave del: weave.simps)
  moreover have "borrow_left h (root_of R) (root_of L) (length ksl) k = Some (h\<lparr>nodes := N\<rparr>)" using N(1) 2 by simp
  ultimately show ?thesis using N(2) by blast
qed

lemma rotate_right_step:
  assumes h: "held ord h (zip_up (Nd a (ksl @ k # ksr) (csl @ L # R # csr)) fs) Z"
    and ok: "\<forall>f \<in> set fs. fr_ok f" "length csl = length ksl" "length csr = length ksr"
    and d: "lax ord False d L" "fits ord False d R" "bmin ord d < bsize R" "bsize L < bmin ord d"
  shows "\<exists>k2 L' R' N. borrow_right h (root_of L) (root_of R) (length ksl) k = Some (h\<lparr>nodes := N\<rparr>) \<and>
    fits ord False d L' \<and> fits ord False d R' \<and> ents (flat L') @ ents (flat R') = ents (flat L) @ ents (flat R) \<and>
    held ord (h\<lparr>nodes := N\<rparr>) (zip_up (Nd a (ksl @ k2 # ksr) (csl @ L' # R' # csr)) fs) Z"
  using d(1) fits_lax [OF d(2)]
proof (cases rule: lax_cases)
  case (1 b es1 c es)
  have b: "bmin ord d \<le> ord - 1" "1 \<le> bmin ord d" using cut_bounds held_parts(4) [OF h] 1 by (auto simp: bmin_def)
  with 1 d obtain e e2 es2 where es: "es = e # e2 # es2" by (cases es rule: remdups_adj.cases) auto
  have "length es1 < ord - 1" using 1 d b by simp
  from rotate_right_leaf [OF h [unfolded 1 es] ok this] obtain N where
    N: "borrow_right h b c (length ksl) k = Some (h\<lparr>nodes := N\<rparr>)"
      "held ord (h\<lparr>nodes := N\<rparr>) (zip_up (Nd a (ksl @ fst e2 # ksr) (csl @ Lf b (es1 @ [e]) # Lf c (e2 # es2) # csr)) fs) Z" by blast
  have "fits ord False d (Lf b (es1 @ [e]))" "fits ord False d (Lf c (e2 # es2))" "ents (flat (Lf b (es1 @ [e]))) @ ents (flat (Lf c (e2 # es2))) = ents (flat L) @ ents (flat R)"
    using 1 d es b by (cases e; auto simp: bmin_def min_leaf_def)+
  moreover have "borrow_right h (root_of L) (root_of R) (length ksl) k = Some (h\<lparr>nodes := N\<rparr>)" using N(1) 1 by simp
  ultimately show ?thesis using N(2) by blast
next
  case (2 b ks1 cs1 c ks cs)
  have b: "bmin ord d \<le> ord - 1" "1 \<le> bmin ord d" using cut_bounds [of ord] held_parts(4) [OF h] 2 by (auto simp: bmin_def)
  with 2 d obtain k1 ks2 where ks: "ks = k1 # ks2" by (cases ks) auto
  from 2 d obtain q cs2 where cs: "cs = q # cs2" by (cases cs) auto
  have "length ks1 < ord - 1" using 2 d b by simp
  from rotate_right_inner [OF h [unfolded 2 ks cs] ok this] obtain N where
    N: "borrow_right h b c (length ksl) k = Some (h\<lparr>nodes := N\<rparr>)"
      "held ord (h\<lparr>nodes := N\<rparr>) (zip_up (Nd a (ksl @ k1 # ksr) (csl @ Nd b (ks1 @ [k]) (cs1 @ [q]) # Nd c ks2 cs2 # csr)) fs) Z" by blast
  have len: "length cs1 = Suc (length ks1)" "length cs2 = Suc (length ks2)" using 2 d ks cs by auto
  have "fits ord False d (Nd b (ks1 @ [k]) (cs1 @ [q]))" "fits ord False d (Nd c ks2 cs2)"
    using 2 d ks cs b by (auto simp: bmin_def min_node_def)
  moreover have "ents (flat (Nd b (ks1 @ [k]) (cs1 @ [q]))) @ ents (flat (Nd c ks2 cs2)) = ents (flat L) @ ents (flat R)"
    using 2 ks cs len by (simp add: ents_weave del: weave.simps)
  moreover have "borrow_right h (root_of L) (root_of R) (length ksl) k = Some (h\<lparr>nodes := N\<rparr>)" using N(1) 2 by simp
  ultimately show ?thesis using N(2) by blast
qed

section \<open>The climb\<close>

text \<open>\<open>delete_entry\<close> after its first statement.\<close>

definition rebalance :: "nat \<Rightarrow> ('k, 'r) heap \<Rightarrow> addr \<Rightarrow> addr \<Rightarrow> (addr \<times> ('k, 'r) heap) option" where
  "rebalance ord h root n =
     (if n = root then adjust_root h root
      else do {
       nn \<leftarrow> nodes h n;
       if num_keys nn \<ge> (if is_leaf nn then cut (ord - 1) else cut ord - 1) then Some (root, h)
       else do {
         neighbor_index \<leftarrow> get_neighbor_index h n;
         pn \<leftarrow> nodes h (parent nn);
         k_prime \<leftarrow> rd (keys pn) (if neighbor_index = -1 then 0 else nat neighbor_index);
         neighbor \<leftarrow> rd (pointers pn) (if neighbor_index = -1 then 1 else nat neighbor_index);
         bn \<leftarrow> nodes h neighbor;
         if num_keys bn + num_keys nn < (if is_leaf nn then ord else ord - 1)
         then coalesce_nodes ord h root n neighbor neighbor_index k_prime
         else redistribute_nodes h root n neighbor neighbor_index
                (if neighbor_index = -1 then 0 else nat neighbor_index) k_prime
       }
     })"

lemma delete_entry_rebalance:
  "delete_entry ord h root n key p = do { h \<leftarrow> remove_entry_from_node ord h n key p; rebalance ord h root n }"
  by (subst delete_entry.simps) (simp only: rebalance_def coalesce_nodes_def)

lemma rep_size:
  assumes "rep ord N par t" "lax ord r d t"
  obtains n where "N (root_of t) = Some n" "parent n = par" "num_keys n = bsize t" "is_leaf n \<longleftrightarrow> d = 0"
  using assms by (cases t) auto

lemma get_neighbor_index_child:
  assumes "rep ord (nodes h) par (Nd a ks (csl @ T # csr))" "lax ord r d T" "root_of T \<notin> set (map root_of csl)"
  shows "get_neighbor_index h (root_of T) = Some (int (length csl) - 1)"
proof -
  from assms(1) obtain n where n: "nodes h a = Some n" "num_keys n = length ks" "length (csl @ T # csr) = Suc (length ks)"
    "arr ord (map root_of csl @ root_of T # map root_of csr) (pointers n)" and T: "rep ord (nodes h) a T" by auto
  obtain tn where tn: "nodes h (root_of T) = Some tn" "parent tn = a" using rep_size [OF T assms(2)] by blast
  have "scan_eq (pointers n) (Suc (num_keys n)) (root_of T) 0 = Some (length csl)"
    using scan_eq_split [OF n(4), of "Suc (num_keys n)" 0 "root_of T"] assms(3) n(2,3) by simp
  with tn n show ?thesis by (simp add: get_neighbor_index_def)
qed

lemma coalesce_shrunk:
  fixes h :: "('k::linorder, 'r) heap"
  assumes h: "held ord h (zip_up (Nd a (ksl @ k # ksr) (csl @ L # R # csr)) fs) Z"
    and ok: "\<forall>f \<in> set fs. fr_ok f" "length csl = length ksl" "length csr = length ksr" "k \<notin> set ksl"
    and d: "lax ord False d L" "lax ord False d R" "bsize L + bsize R < bcap ord d" "bmin ord d \<le> bsize L + bsize R"
    and ctx: "ctx_fits ord (Suc d) fs" "\<forall>c \<in> set csl \<union> set csr. fits ord False d c"
      "length ksl + length ksr < ord - 1" "min_node ord (fs = []) \<le> Suc (length ksl + length ksr)"
    and IH: "\<And>(h :: ('k, 'r) heap) T d Z. held ord h (zip_up T fs) Z \<Longrightarrow> lax ord (fs = []) d T \<Longrightarrow> ctx_fits ord d fs \<Longrightarrow> root = root_of (zip_up T fs) \<Longrightarrow>
      shrunk ord h (ents (flat (zip_up T fs))) Z (rebalance ord h root (root_of T))"
    and root: "root = root_of (zip_up (Nd a (ksl @ k # ksr) (csl @ L # R # csr)) fs)"
  shows "shrunk ord h (ents (flat (zip_up (Nd a (ksl @ k # ksr) (csl @ L # R # csr)) fs))) Z
    (do { h \<leftarrow> merge_nodes ord h (root_of R) (root_of L) k; rn \<leftarrow> nodes h (root_of R);
          (root, h) \<leftarrow> delete_entry ord h root (parent rn) k (root_of R); h \<leftarrow> free_node h (root_of R); Some (root, h) })"
proof -
  from merge_step [OF h ok d] obtain T h1 rn N where
    m: "merge_nodes ord h (root_of R) (root_of L) k = Some h1" "nodes h1 (root_of R) = Some rn" "parent rn = a"
      "remove_entry_from_node ord h1 a k (root_of R) = Some (h\<lparr>nodes := N\<rparr>)" "fits ord False d T"
      "ents (flat T) = ents (flat L) @ ents (flat R)"
      "held ord (h\<lparr>nodes := N\<rparr>) (zip_up (Nd a (ksl @ ksr) (csl @ T # csr)) fs) (insert (root_of R) Z)" by blast
  let ?P = "Nd a (ksl @ k # ksr) (csl @ L # R # csr)" and ?P' = "Nd a (ksl @ ksr) (csl @ T # csr)"
  have "lax ord (fs = []) (Suc d) ?P'" using ctx ok m(5) by auto
  moreover have "root = root_of (zip_up ?P' fs)" using root by (simp add: root_zip_up)
  ultimately have "shrunk ord (h\<lparr>nodes := N\<rparr>) (ents (flat (zip_up ?P' fs))) (insert (root_of R) Z) (rebalance ord (h\<lparr>nodes := N\<rparr>) root (root_of ?P'))"
    by (rule IH [OF m(7) _ ctx(1)])
  then have "shrunk ord (h\<lparr>nodes := N\<rparr>) (ents (flat (zip_up ?P' fs))) (insert (root_of R) Z) (rebalance ord (h\<lparr>nodes := N\<rparr>) root a)"
    by (simp only: root_of.simps)
  moreover have "ents (flat (zip_up ?P' fs)) = ents (flat (zip_up ?P fs))"
    using m(6) ok by (simp add: flat_zip_up flat_pair flat_single del: flat.simps)
  moreover have "delete_entry ord h1 root a k (root_of R) = rebalance ord (h\<lparr>nodes := N\<rparr>) root a"
    using m(4) by (simp add: delete_entry_rebalance)
  ultimately have "shrunk ord h (ents (flat (zip_up ?P fs))) (insert (root_of R) Z) (delete_entry ord h1 root a k (root_of R))"
    by (simp add: shrunk_def)
  moreover have "root_of R \<in> set (addrs ?P)" using root_in_addrs [of R] by simp
  then have "root_of R \<notin> Z" using h by (auto simp: held_def set_addrs_zip_up)
  ultimately show ?thesis using shrunk_free m(1-3) by simp
qed

lemma rotated_shrunk:
  assumes h: "held ord (h\<lparr>nodes := N\<rparr>) (zip_up (Nd a (ksl @ k2 # ksr) (csl @ L' # R' # csr)) fs) Z"
    and ok: "\<forall>f \<in> set fs. fr_ok f" "length csl = length ksl" "length csr = length ksr"
    and d: "fits ord False d L'" "fits ord False d R'" "ents (flat L') @ ents (flat R') = ents (flat L) @ ents (flat R)"
    and ctx: "ctx_fits ord (Suc d) fs" "\<forall>c \<in> set csl \<union> set csr. fits ord False d c"
      "length ksl + length ksr < ord - 1" "min_node ord (fs = []) \<le> Suc (length ksl + length ksr)"
    and root: "root = root_of (zip_up (Nd a (ksl @ k # ksr) (csl @ L # R # csr)) fs)"
  shows "shrunk ord h (ents (flat (zip_up (Nd a (ksl @ k # ksr) (csl @ L # R # csr)) fs))) Z (Some (root, h\<lparr>nodes := N\<rparr>))"
proof -
  let ?P = "Nd a (ksl @ k # ksr) (csl @ L # R # csr)" and ?P' = "Nd a (ksl @ k2 # ksr) (csl @ L' # R' # csr)"
  have "fits ord (fs = []) (Suc d) ?P'" using ctx ok d by auto
  then have "fits ord True (Suc d + length fs) (zip_up ?P' fs)" using fits_zip_up [OF ok(1), of ord "Suc d" ?P'] ctx(1) by simp
  from shrunk_tree [OF h this] have "shrunk ord h (ents (flat (zip_up ?P' fs))) Z (Some (root_of (zip_up ?P' fs), h\<lparr>nodes := N\<rparr>))" .
  moreover have "ents (flat (zip_up ?P' fs)) = ents (flat (zip_up ?P fs))"
    using d(3) ok by (simp add: flat_zip_up flat_pair del: flat.simps)
  ultimately show ?thesis using root by (simp add: root_zip_up split: if_splits)
qed

lemma bmin_bcap: "3 \<le> ord \<Longrightarrow> 2 * bmin ord d \<le> bcap ord d"
  unfolding bmin_def bcap_def cut_def by presburger

lemma last_in_ctx: "fs \<noteq> [] \<Longrightarrow> fr_addr (last fs) \<in> set (ctx_addrs fs)"
proof (induction fs)
  case (Cons f fs)
  then show ?case by (cases f) auto
qed simp

lemma held_key_fresh:
  assumes "held ord h (zip_up (Nd a (ksl @ k # ksr) cs) fs) Z" "\<forall>f \<in> set fs. fr_ok f" "length cs = Suc (length (ksl @ k # ksr))"
  shows "k \<notin> set ksl"
proof -
  have "ordered (flat (Nd a (ksl @ k # ksr) cs))"
    using assms(1,2) by (simp add: held_def flat_zip_up sorted_wrt_append del: flat.simps)
  from flat_keys_sorted [OF this assms(3)] show ?thesis by (auto simp: sorted_wrt_append)
qed

text \<open>The two children of a pair and their parent, as \<open>delete_entry\<close> reads them.\<close>

lemma pair_reads:
  assumes "rep ord (nodes h) par (Nd a (ksl @ k # ksr) (csl @ L # R # csr))" "length csl = length ksl"
  obtains pn where "nodes h a = Some pn" "rd (keys pn) (length ksl) = Some k"
    "rd (pointers pn) (length ksl) = Some (root_of L)" "rd (pointers pn) (Suc (length ksl)) = Some (root_of R)"
    "rep ord (nodes h) a L" "rep ord (nodes h) a R"
proof -
  from assms(1) obtain pn where pn: "nodes h a = Some pn" "arr (ord - 1) (ksl @ k # ksr) (keys pn)"
    "arr ord (map root_of csl @ root_of L # root_of R # map root_of csr) (pointers pn)" by auto
  from arr_rd [OF pn(2), of "length ksl"] arr_rd [OF pn(3), of "length ksl"] arr_rd [OF pn(3), of "Suc (length ksl)"] assms
  show thesis by (intro that [OF pn(1)]) (simp_all add: nth_append)
qed

lemma rebalance_pair:
  fixes h :: "('k::linorder, 'r) heap"
  assumes h: "held ord h (zip_up (Nd a (ksl @ k # ksr) (csl @ L # R # csr)) fs) Z"
    and d: "lax ord False d L" "lax ord False d R" "ctx_fits ord (Suc d) fs" "\<forall>c \<in> set csl \<union> set csr. fits ord False d c"
      "length csl = length ksl" "length csr = length ksr" "length ksl + length ksr < ord - 1" "min_node ord (fs = []) \<le> Suc (length ksl + length ksr)"
    and IH: "\<And>(h :: ('k, 'r) heap) T d Z. held ord h (zip_up T fs) Z \<Longrightarrow> lax ord (fs = []) d T \<Longrightarrow> ctx_fits ord d fs \<Longrightarrow> root = root_of (zip_up T fs) \<Longrightarrow>
      shrunk ord h (ents (flat (zip_up T fs))) Z (rebalance ord h root (root_of T))"
    and root: "root = root_of (zip_up (Nd a (ksl @ k # ksr) (csl @ L # R # csr)) fs)"
    and E: "E = ents (flat (zip_up (Nd a (ksl @ k # ksr) (csl @ L # R # csr)) fs))"
  shows "ksl = [] \<Longrightarrow> bsize L < bmin ord d \<Longrightarrow> fits ord False d R \<Longrightarrow> shrunk ord h E Z (rebalance ord h root (root_of L))"
    and "bsize R < bmin ord d \<Longrightarrow> fits ord False d L \<Longrightarrow> shrunk ord h E Z (rebalance ord h root (root_of R))"
proof -
  let ?P = "Nd a (ksl @ k # ksr) (csl @ L # R # csr)"
  note hp = held_parts [OF h]
  have ok: "\<forall>f \<in> set fs. fr_ok f" using d(3) by (rule ctx_fits_ok)
  have k: "k \<notin> set ksl" using held_key_fresh [OF h ok] d(5,6) by simp
  obtain pn where pn: "nodes h a = Some pn" "rd (keys pn) (length ksl) = Some k"
    "rd (pointers pn) (length ksl) = Some (root_of L)" "rd (pointers pn) (Suc (length ksl)) = Some (root_of R)"
    "rep ord (nodes h) a L" "rep ord (nodes h) a R" using pair_reads [OF hp(1) d(5)] .
  obtain ln where ln: "nodes h (root_of L) = Some ln" "parent ln = a" "num_keys ln = bsize L" "is_leaf ln \<longleftrightarrow> d = 0"
    using rep_size [OF pn(5) d(1)] .
  obtain rn where rn: "nodes h (root_of R) = Some rn" "parent rn = a" "num_keys rn = bsize R" "is_leaf rn \<longleftrightarrow> d = 0"
    using rep_size [OF pn(6) d(2)] .
  have ne: "root_of L \<noteq> root" "root_of R \<noteq> root"
  proof -
    have "root \<in> insert a (set (ctx_addrs fs))" using root last_in_ctx [of fs] by (simp add: root_zip_up)
    moreover have "set (addrs L) \<inter> insert a (set (ctx_addrs fs)) = {}" "set (addrs R) \<inter> insert a (set (ctx_addrs fs)) = {}"
      using hp(8) by auto
    ultimately show "root_of L \<noteq> root" "root_of R \<noteq> root" using root_in_addrs [of L] root_in_addrs [of R] by blast+
  qed
  have mn: "(if is_leaf x then cut (ord - 1) else cut ord - 1) = bmin ord d" "(if is_leaf x then ord else ord - 1) = bcap ord d"
    if "is_leaf x \<longleftrightarrow> d = 0" for x :: "'k node" using that by (auto simp: bmin_def bcap_def)
  have cap: "2 * bmin ord d \<le> bcap ord d" using hp(4) by (rule bmin_bcap)
  have coal: "bsize L + bsize R < bcap ord d \<Longrightarrow> bmin ord d \<le> bsize L + bsize R \<Longrightarrow>
    shrunk ord h E Z (do { h \<leftarrow> merge_nodes ord h (root_of R) (root_of L) k; rn \<leftarrow> nodes h (root_of R);
          (root, h) \<leftarrow> delete_entry ord h root (parent rn) k (root_of R); h \<leftarrow> free_node h (root_of R); Some (root, h) })"
    unfolding E by (rule coalesce_shrunk [OF h ok d(5,6) k d(1,2) _ _ d(3,4,7,8) IH root])
  have dL: "root_of L \<notin> set (map root_of csl)" "root_of R \<notin> set (map root_of (csl @ [L]))"
  proof -
    have "set (concat (map addrs csl)) \<inter> set (addrs L) = {}" "set (concat (map addrs (csl @ [L]))) \<inter> set (addrs R) = {}"
      using hp(3) by auto
    then show "root_of L \<notin> set (map root_of csl)" "root_of R \<notin> set (map root_of (csl @ [L]))"
      using roots_subset [of csl] roots_subset [of "csl @ [L]"] root_in_addrs [of L] root_in_addrs [of R] by blast+
  qed
  {
    assume ksl: "ksl = []" and sz: "bsize L < bmin ord d" "fits ord False d R"
    then have csl: "csl = []" using d(5) by simp
    have ni: "get_neighbor_index h (root_of L) = Some (- 1)"
      using get_neighbor_index_child [OF hp(1) d(1) dL(1)] csl by simp
    have szR: "bmin ord d \<le> bsize R" using sz(2) lax_fits [OF d(2)] by simp
    show "shrunk ord h E Z (rebalance ord h root (root_of L))"
    proof (cases "bsize R + bsize L < bcap ord d")
      case True
      then have "rebalance ord h root (root_of L) = coalesce_nodes ord h root (root_of L) (root_of R) (- 1) k"
        using ne(1) ln rn ni pn(1-4) sz mn [OF ln(4)] ksl by (simp add: rebalance_def)
      then show ?thesis using coal True szR by (simp add: coalesce_nodes_def add.commute)
    next
      case False
      then have "bmin ord d < bsize R" using cap sz(1) by linarith
      from rotate_right_step [OF h ok d(5,6) d(1) sz(2) this sz(1)] obtain k2 L' R' N where
        b: "borrow_right h (root_of L) (root_of R) (length ksl) k = Some (h\<lparr>nodes := N\<rparr>)" "fits ord False d L'" "fits ord False d R'"
          "ents (flat L') @ ents (flat R') = ents (flat L) @ ents (flat R)"
          "held ord (h\<lparr>nodes := N\<rparr>) (zip_up (Nd a (ksl @ k2 # ksr) (csl @ L' # R' # csr)) fs) Z" by blast
      have "rebalance ord h root (root_of L) = redistribute_nodes h root (root_of L) (root_of R) (- 1) 0 k"
        using False ne(1) ln rn ni pn(1-4) sz mn [OF ln(4)] ksl by (simp add: rebalance_def)
      then have "rebalance ord h root (root_of L) = Some (root, h\<lparr>nodes := N\<rparr>)" using b(1) ksl by (simp add: redistribute_nodes_def)
      with rotated_shrunk [OF b(5) ok d(5,6) b(2,3,4) d(3,4,7,8) root] show ?thesis by (simp add: E)
    qed
  next
    assume sz: "bsize R < bmin ord d" "fits ord False d L"
    have ni: "get_neighbor_index h (root_of R) = Some (int (length ksl))"
      using get_neighbor_index_child [of ord h "top_addr fs" a "ksl @ k # ksr" "csl @ [L]" R csr False d] hp(1) d(2,5) dL(2)
      by (simp del: rep.simps)
    have szL: "bmin ord d \<le> bsize L" using sz(2) lax_fits [OF d(1)] by simp
    show "shrunk ord h E Z (rebalance ord h root (root_of R))"
    proof (cases "bsize L + bsize R < bcap ord d")
      case True
      then have "rebalance ord h root (root_of R) = coalesce_nodes ord h root (root_of R) (root_of L) (int (length ksl)) k"
        using ne(2) ln rn ni pn(1-4) sz mn [OF rn(4)] by (simp add: rebalance_def)
      then show ?thesis using coal True szL by (simp add: coalesce_nodes_def)
    next
      case False
      then have "bmin ord d < bsize L" using cap sz(1) by linarith
      from rotate_left_step [OF h ok d(5,6) sz(2) d(2) this sz(1)] obtain k2 L' R' N where
        b: "borrow_left h (root_of R) (root_of L) (length ksl) k = Some (h\<lparr>nodes := N\<rparr>)" "fits ord False d L'" "fits ord False d R'"
          "ents (flat L') @ ents (flat R') = ents (flat L) @ ents (flat R)"
          "held ord (h\<lparr>nodes := N\<rparr>) (zip_up (Nd a (ksl @ k2 # ksr) (csl @ L' # R' # csr)) fs) Z" by blast
      have "rebalance ord h root (root_of R) = redistribute_nodes h root (root_of R) (root_of L) (int (length ksl)) (length ksl) k"
        using False ne(2) ln rn ni pn(1-4) sz mn [OF rn(4)] by (simp add: rebalance_def)
      then have "rebalance ord h root (root_of R) = Some (root, h\<lparr>nodes := N\<rparr>)" using b(1) by (simp add: redistribute_nodes_def)
      with rotated_shrunk [OF b(5) ok d(5,6) b(2,3,4) d(3,4,7,8) root] show ?thesis by (simp add: E)
    qed
  }
qed

lemma rebalance_enough:
  assumes h: "held ord h (zip_up T fs) Z" and fit: "fits ord False d T" "ctx_fits ord d fs" "fs \<noteq> []"
    and root: "root = root_of (zip_up T fs)" "root_of T \<noteq> root"
  shows "shrunk ord h (ents (flat (zip_up T fs))) Z (rebalance ord h root (root_of T))"
proof -
  have ok: "\<forall>f \<in> set fs. fr_ok f" using fit(2) by (rule ctx_fits_ok)
  obtain n where n: "nodes h (root_of T) = Some n" "num_keys n = bsize T" "is_leaf n \<longleftrightarrow> d = 0"
    using rep_size [OF held_parts(1) [OF h] fits_lax [OF fit(1)]] .
  have "bmin ord d \<le> bsize T" using lax_fits [OF fits_lax [OF fit(1)]] fit(1) by blast
  then have "rebalance ord h root (root_of T) = Some (root, h)"
    using n root(2) by (auto simp: rebalance_def bmin_def)
  moreover have "fits ord True (d + length fs) (zip_up T fs)" using fits_zip_up [OF ok, of ord d T] fit by simp
  ultimately show ?thesis
    using shrunk_tree [where ord = ord and h = h and N = "nodes h" and t = "zip_up T fs" and Z = Z and d = "d + length fs"] h root(1)
    by simp
qed

lemma rebalance_shrunk:
  assumes "held ord h (zip_up T fs) Z" "lax ord (fs = []) d T" "ctx_fits ord d fs" "root = root_of (zip_up T fs)"
  shows "shrunk ord h (ents (flat (zip_up T fs))) Z (rebalance ord h root (root_of T))"
  using assms
proof (induction fs arbitrary: h T d Z)
  case Nil
  then show ?case using adjust_root_ok [of ord h T Z d] by (simp add: rebalance_def)
next
  case (Cons f fs)
  obtain a ksl csl ksr csr where f: "f = Fr a ksl csl ksr csr" by (cases f)
  have rt: "root = root_of (zip_up (plug f T) fs)" using Cons.prems(4) by simp
  have ne: "root_of T \<noteq> root"
  proof -
    have "root \<in> set (ctx_addrs (f # fs))" using Cons.prems(4) last_in_ctx [of "f # fs"] by (simp only: root_zip_up) simp
    moreover have "set (addrs T) \<inter> set (ctx_addrs (f # fs)) = {}" using held_parts(8) [OF Cons.prems(1)] by simp
    ultimately show ?thesis using root_in_addrs [of T] by blast
  qed
  show ?case
  proof (cases "fits ord False d T")
    case True
    then show ?thesis using rebalance_enough [OF Cons.prems(1) True Cons.prems(3) _ Cons.prems(4) ne] by simp
  next
    case False
    have lx: "lax ord False d T" using Cons.prems(2) by simp
    with False have short: "bsize T < bmin ord d" using lax_fits [OF lx] by simp
    have ctx: "length csl = length ksl" "length csr = length ksr" "length ksl + length ksr \<le> ord - 1"
       "min_node ord (fs = []) \<le> length ksl + length ksr" "\<forall>c \<in> set csl \<union> set csr. fits ord False d c" "ctx_fits ord (Suc d) fs"
      using Cons.prems(3) f by auto
    have "1 \<le> min_node ord (fs = [])" using cut_bounds held_parts(4) [OF Cons.prems(1)] by (auto simp: min_node_def)
    with ctx have some: "ksl = [] \<Longrightarrow> ksr \<noteq> []" by auto
    show ?thesis
    proof (cases "ksl = []")
      case True
      with some obtain k ksr' where k: "ksr = k # ksr'" by (cases ksr) auto
      with ctx(2) obtain R csr' where R: "csr = R # csr'" by (cases csr) auto
      have csl: "csl = []" using True ctx(1) by simp
      have P: "zip_up T (f # fs) = zip_up (Nd a ([] @ k # ksr') ([] @ T # R # csr')) fs" by (simp add: f True csl k R)
      have fR: "fits ord False d R" "\<forall>c \<in> set [] \<union> set csr'. fits ord False d c" using ctx(5) R by auto
      have len: "length [] = length []" "length csr' = length ksr'" "length [] + length ksr' < ord - 1" "min_node ord (fs = []) \<le> Suc (length [] + length ksr')"
        using ctx k R True csl by auto
      show ?thesis unfolding P
      proof (rule rebalance_pair(1) [OF Cons.prems(1) [unfolded P] lx fits_lax [OF fR(1)] ctx(6) fR(2) len _ _ refl refl short fR(1)])
        show "root = root_of (zip_up (Nd a ([] @ k # ksr') ([] @ T # R # csr')) fs)" using Cons.prems(4) P by simp
      qed (rule Cons.IH; assumption)
    next
      case False
      then obtain ksl' k where k: "ksl = ksl' @ [k]" using split_last by blast
      with ctx(1) obtain csl' L where L: "csl = csl' @ [L]" using split_last [of csl] by fastforce
      have P: "zip_up T (f # fs) = zip_up (Nd a (ksl' @ k # ksr) (csl' @ L # T # csr)) fs" by (simp add: f k L)
      have fL: "fits ord False d L" "\<forall>c \<in> set csl' \<union> set csr. fits ord False d c" using ctx(5) L by auto
      have len: "length csl' = length ksl'" "length csr = length ksr" "length ksl' + length ksr < ord - 1" "min_node ord (fs = []) \<le> Suc (length ksl' + length ksr)"
        using ctx k L by auto
      show ?thesis unfolding P
      proof (rule rebalance_pair(2) [OF Cons.prems(1) [unfolded P] fits_lax [OF fL(1)] lx ctx(6) fL(2) len _ _ refl short fL(1)])
        show "root = root_of (zip_up (Nd a (ksl' @ k # ksr) (csl' @ L # T # csr)) fs)" using Cons.prems(4) P by simp
      qed (rule Cons.IH; assumption)
    qed
  qed
qed

section \<open>The whole deletion\<close>

lemma shape_held: "shape ord (nodes h) t d \<Longrightarrow> ordered (flat t) \<Longrightarrow> heap_ok h \<Longrightarrow> 3 \<le> ord \<Longrightarrow> held ord h t {}"
  by (auto simp: shape_def held_def)

lemma fits_leaves: "fits ord r d t \<Longrightarrow> leaf_addrs t \<noteq> []"
proof (induction t arbitrary: d r)
  case (Nd a ks cs)
  then show ?case by (cases cs) auto
qed simp

lemma held_shape:
  assumes "held ord h t {}" "fits ord True d t"
  shows "shape ord (nodes h) t d"
proof -
  from assms(1) obtain y where y: "chain ord (ptrs (nodes h)) y (leaf_addrs t) NULL" by (auto simp: held_def)
  have "leaf_addrs t \<noteq> []" using assms(2) by (rule fits_leaves)
  with y have "y = hd (leaf_addrs t)" by (rule chain_hd)
  with y assms show ?thesis by (simp add: held_def shape_def)
qed

lemma delete_entry_leaf:
  assumes h: "held ord h (zip_up (Lf a (es1 @ (key, p) # es2)) fs) {}"
    and fit: "fits ord (fs = []) 0 (Lf a (es1 @ (key, p) # es2))" "ctx_fits ord 0 fs"
    and new: "key \<notin> fst ` set es1" "p \<notin> snd ` set es1"
    and root: "root = root_of (zip_up (Lf a (es1 @ (key, p) # es2)) fs)"
  shows "shrunk ord h (ents (flat (zip_up (Lf a (es1 @ es2)) fs))) {} (delete_entry ord h root a key p)"
proof -
  have ok: "\<forall>f \<in> set fs. fr_ok f" using fit(2) by (rule ctx_fits_ok)
  obtain n where n: "nodes h a = Some n" "leaf_node ord (top_addr fs) (es1 @ (key, p) # es2) n"
    using held_parts(1) [OF h] unfolding rep_Lf by blast
  obtain n' where n': "remove_entry_from_node ord h a key p = Some (put h a n')"
    "leaf_node ord (top_addr fs) (es1 @ es2) n'" "rd (pointers n') (ord - 1) = rd (pointers n) (ord - 1)"
    using remove_leaf_node [OF n new] by blast
  let ?N = "(nodes h)(a \<mapsto> n')"
  have "held ord (h\<lparr>nodes := ?N\<rparr>) (zip_up (Lf a (es1 @ es2)) fs) ({} \<union> {})"
  proof (rule held_replace [OF h ok])
    show "rep ord ?N (top_addr fs) (Lf a (es1 @ es2))" using n'(2) by (simp add: rep_Lf del: rep.simps)
    show "dom ?N = dom (nodes h)" using n by auto
    show "ordered (ctx_lflat fs @ flat (Lf a (es1 @ es2)) @ ctx_rflat fs)"
      if "ordered (ctx_lflat fs @ flat (Lf a (es1 @ (key, p) # es2)) @ ctx_rflat fs)"
      using that by (auto simp: sorted_wrt_append)
  qed (use n n'(3) in \<open>auto simp: ptrs_def\<close>)
  then have "held ord (h\<lparr>nodes := ?N\<rparr>) (zip_up (Lf a (es1 @ es2)) fs) {}" by simp
  moreover have "lax ord (fs = []) 0 (Lf a (es1 @ es2))" using fit(1) by simp
  moreover have "root = root_of (zip_up (Lf a (es1 @ es2)) fs)" using root by (simp add: root_zip_up)
  ultimately have "shrunk ord (h\<lparr>nodes := ?N\<rparr>) (ents (flat (zip_up (Lf a (es1 @ es2)) fs))) {} (rebalance ord (h\<lparr>nodes := ?N\<rparr>) root a)"
    using rebalance_shrunk [of ord "h\<lparr>nodes := ?N\<rparr>" "Lf a (es1 @ es2)" fs "{}" 0 root] fit(2) by simp
  then show ?thesis using n'(1) by (simp add: delete_entry_rebalance put_def shrunk_def)
qed

lemma map_of_remove:
  assumes "distinct (map fst (xs @ (k, p) # ys))"
  shows "map_of (xs @ ys) = (map_of (xs @ (k, p) # ys))(k := None)"
proof -
  have "k \<notin> fst ` set xs" "k \<notin> fst ` set ys" using assms by auto
  then have "map_of xs k = None" "map_of ys k = None" by (simp_all add: map_of_eq_None_iff)
  then show ?thesis by (auto simp: fun_eq_iff map_add_def split: option.splits)
qed

lemma free_rec_map:
  assumes s: "shrunk ord h (xs @ ys) {} res" and t: "holds_tree ord h root t d" "ents (flat t) = xs @ (key, p) # ys" "3 \<le> ord"
  shows "\<exists>root' h'. (do { (root, h) \<leftarrow> res; h \<leftarrow> free_rec h p; Some (root, h) }) = Some (root', h') \<and>
    is_map ord h' root' ((bpt_map h t)(key := None))"
proof -
  from t have q: "distinct (map fst (xs @ (key, p) # ys))" "distinct (map snd (xs @ (key, p) # ys))"
      "snd ` set (xs @ (key, p) # ys) = dom (recs h)"
    using ordered_ents [of "flat t"] by (auto simp: holds_tree_def strict_sorted_iff)
  from s obtain root' h' where r: "res = Some (root', h')" "recs h' = recs h"
    "if xs @ ys = [] then root' = NULL \<and> heap_ok h' \<and> dom (nodes h') = {}
      else \<exists>t d. root' = root_of t \<and> held ord h' t {} \<and> fits ord True d t \<and> ents (flat t) = xs @ ys"
    unfolding shrunk_def by blast
  let ?h = "h'\<lparr>recs := (recs h')(p := None)\<rparr>"
  have "p \<in> dom (recs h)" using q(3) by force
  then have f: "(do { (root, h) \<leftarrow> res; h \<leftarrow> free_rec h p; Some (root, h) }) = Some (root', ?h)"
    using r(1,2) by (auto simp: free_rec_def)
  have okh: "heap_ok ?h" using r(3) by (auto simp: heap_ok_def held_def split: if_splits)
  have dr: "dom (recs ?h) = snd ` set (xs @ ys)" using q(2,3) r(2) by auto
  have "q' \<noteq> p" if "map_of (xs @ ys) k = Some q'" for k q'
    using map_of_SomeD [OF that] q(2) by force
  then have "Option.bind (map_of (xs @ ys) k) ((recs h)(p := None)) = Option.bind (map_of (xs @ ys) k) (recs h)" for k
    by (cases "map_of (xs @ ys) k") (simp_all del: map_of_append)
  then have "Option.bind (map_of (xs @ ys) k) (recs ?h) = ((bpt_map h t)(key := None)) k" for k
    using map_of_remove [OF q(1)] r(2) by (simp add: bpt_map_def t(2) del: map_of_append)
  then have m: "(\<lambda>k. Option.bind (map_of (xs @ ys) k) (recs ?h)) = (bpt_map h t)(key := None)" by (rule ext)
  have "is_map ord ?h root' ((bpt_map h t)(key := None))"
  proof (cases "xs @ ys = []")
    case True
    with r(3) dr m okh t(3) show ?thesis by (auto simp: is_map_def fun_eq_iff)
  next
    case False
    with r(3) obtain t' d' where t': "root' = root_of t'" "held ord h' t' {}" "fits ord True d' t'" "ents (flat t') = xs @ ys" by auto
    have "holds_tree ord ?h root' t' d'"
      using held_shape [OF t'(2,3)] t' q(2) dr by (auto simp: holds_tree_def held_def)
    moreover have "root' \<noteq> NULL"
      using held_parts(5) [of ord h' t' "[]"] t' heap_ok_NULL(1) shape_root [OF held_shape [OF t'(2,3)]] by (metis zip_up.simps(1))
    ultimately show ?thesis unfolding is_map_def using okh t(3) m t'(4) by (auto simp: bpt_map_def)
  qed
  with f show ?thesis by blast
qed

text \<open>\<open>delete\<close> on a tree for \<open>m\<close> returns, and leaves a tree for \<open>m\<close> without the key.\<close>

lemma delete_bpt_map:
  assumes "is_map ord h root m"
  shows "\<exists>root' h'. delete_bpt ord h root key = Some (root', h') \<and> is_map ord h' root' (m(key := None))"
proof (cases "m key")
  case None
  then obtain leaf where "find_bpt h root key = Some (NULL, leaf)" using find_bpt_map [OF assms, of key] by auto
  then have "delete_bpt ord h root key = Some (root, h)" by (simp add: delete_bpt_def)
  moreover have "m(key := None) = m" using None by (simp add: fun_upd_idem)
  ultimately show ?thesis using assms by simp
next
  case (Some r)
  with assms obtain t d where t: "holds_tree ord h root t d" "m = bpt_map h t" and ok: "heap_ok h" "3 \<le> ord" "root \<noteq> NULL"
    by (auto simp: is_map_def split: if_splits)
  from t(1) have sh: "shape ord (nodes h) t d" "ordered (flat t)" "root = root_of t" by (auto simp: holds_tree_def)
  obtain a es fs where z: "t = zip_up (Lf a es) fs" "find_leaf h (root_of t) key = Some a" "a \<noteq> NULL"
     "\<forall>f \<in> set fs. fr_ok f" "around key fs" "rep ord (nodes h) (top_addr fs) (Lf a es)" "ctx_rep ord (nodes h) a fs"
     "fits ord (fs = []) 0 (Lf a es)" "ctx_fits ord 0 fs" "d = length fs"
     "flat t = ctx_lflat fs @ map (\<lambda>(k, p). Ent k p) es @ ctx_rflat fs"
    by (rule find_leaf_zip [OF sh(1,2) ok(1), of key])
  obtain p where p: "map_of (ents (flat t)) key = Some p" using Some t(2) by (auto simp: bpt_map_def bind_eq_Some_conv)
  then have pe: "map_of es key = Some p" using around_ents [OF z(5), of es] by (simp only: z(11))
  then obtain es1 es2 where es: "es = es1 @ (key, p) # es2" by (metis map_of_SomeD split_list)
  let ?xs = "ents (ctx_lflat fs) @ es1" and ?ys = "es2 @ ents (ctx_rflat fs)"
  have et: "ents (flat t) = ?xs @ (key, p) # ?ys" by (simp add: z(11) es)
  have dist: "distinct (map fst (ents (flat t)))" "distinct (map snd (ents (flat t)))"
    using t(1) ordered_ents [OF sh(2)] by (auto simp: holds_tree_def strict_sorted_iff)
  have find: "find_bpt h root key = Some (p, a)"
    using find_bpt_zip [OF z(6) z(2), folded sh(3), OF ok(3)] pe leaf_keys_distinct(2) [of "ctx_lflat fs" es "ctx_rflat fs"] sh(2)
    by (simp add: z(11))
  have "p \<in> snd ` set (ents (flat t))" using et by simp
  then have "p \<in> dom (recs h)" using t(1) by (simp only: holds_tree_def)
  then have "p \<noteq> NULL" using heap_ok_NULL(2) [OF ok(1)] by (metis domIff)
  then have del: "delete_bpt ord h root key = do { (root, h) \<leftarrow> delete_entry ord h root a key p; h \<leftarrow> free_rec h p; Some (root, h) }"
    using find z(3) by (simp add: delete_bpt_def)
  have "key \<notin> fst ` set es1" "p \<notin> snd ` set es1" using dist by (auto simp: et)
  from delete_entry_leaf [OF shape_held [OF sh(1,2) ok(1,2), unfolded z(1) es] z(8,9) [unfolded es] this, of root]
  have "shrunk ord h (?xs @ ?ys) {} (delete_entry ord h root a key p)"
    using sh(3) by (simp add: z(1) es flat_zip_up [OF z(4)])
  from free_rec_map [OF this t(1) et ok(2)] show ?thesis using del t(2) by simp
qed

end
