(* ===== verification/Map_Store.thy ===== *)
theory Map_Store
  imports Prelude
begin

text \<open>
  The interface of an ordered map kept by a mutable structure: what the clients of the B+
  trees (the command loop of \<^verbatim>\<open>bptree/main.c\<close>, the database of \<^verbatim>\<open>kvsilo\<close>) rely on. A
  structure state \<open>s\<close> holds a finite map \<open>m\<close>; an operation that fails in the code (an
  access outside an array, a failed assertion, a loop that does not end) gives \<open>None\<close>.
\<close>

datatype ('k, 'v) map_op = Store 'k 'v | Erase 'k

primrec map_effect :: "('k, 'v) map_op \<Rightarrow> ('k \<rightharpoonup> 'v) \<Rightarrow> 'k \<rightharpoonup> 'v" where
  "map_effect (Store k v) m = m(k \<mapsto> v)"
| "map_effect (Erase k) m = m(k := None)"

text \<open>Sequences of operations of a client.\<close>

fun store_all :: "('s \<Rightarrow> 'k \<Rightarrow> 'v \<Rightarrow> 's option) \<Rightarrow> ('k \<times> 'v) list \<Rightarrow> 's \<Rightarrow> 's option" where
  "store_all store [] s = Some s"
| "store_all store ((k, v) # kvs) s = Option.bind (store s k v) (store_all store kvs)"

primrec exec_op :: "('s \<Rightarrow> 'k \<Rightarrow> 'v \<Rightarrow> 's option) \<Rightarrow> ('s \<Rightarrow> 'k \<Rightarrow> 's option) \<Rightarrow> ('k, 'v) map_op \<Rightarrow> 's \<Rightarrow> 's option" where
  "exec_op store erase (Store k v) s = store s k v"
| "exec_op store erase (Erase k) s = erase s k"

fun exec_ops :: "('s \<Rightarrow> 'k \<Rightarrow> 'v \<Rightarrow> 's option) \<Rightarrow> ('s \<Rightarrow> 'k \<Rightarrow> 's option) \<Rightarrow> ('k, 'v) map_op list \<Rightarrow> 's \<Rightarrow> 's option" where
  "exec_ops store erase [] s = Some s"
| "exec_ops store erase (c # cs) s = Option.bind (exec_op store erase c s) (exec_ops store erase cs)"

text \<open>
  The contract of a structure with room for some maps only: the store works where \<open>room\<close> says so, the lookup for the
  keys that are \<open>valid\<close>.
\<close>

locale bounded_map_store =
  fixes holds :: "'s \<Rightarrow> ('k \<rightharpoonup> 'v) \<Rightarrow> bool"
    and lookup :: "'s \<Rightarrow> 'k \<Rightarrow> 'v option option"
    and store :: "'s \<Rightarrow> 'k \<Rightarrow> 'v \<Rightarrow> 's option"
    and valid :: "'k \<Rightarrow> bool"
    and room :: "('k \<rightharpoonup> 'v) \<Rightarrow> 'k \<Rightarrow> 'v \<Rightarrow> bool"
  assumes lookup_valid: "holds s m \<Longrightarrow> valid k \<Longrightarrow> lookup s k = Some (m k)"
    and store_room: "holds s m \<Longrightarrow> room m k v \<Longrightarrow> \<exists>s'. store s k v = Some s' \<and> holds s' (m(k \<mapsto> v))"
begin

lemma store_all_room:
  assumes "holds s m" "\<And>i. i < length kvs \<Longrightarrow> room (fold (\<lambda>(k, v) m. m(k \<mapsto> v)) (take i kvs) m) (fst (kvs ! i)) (snd (kvs ! i))"
  shows "\<exists>s'. store_all store kvs s = Some s' \<and> holds s' (fold (\<lambda>(k, v) m. m(k \<mapsto> v)) kvs m)"
  using assms
proof (induction kvs arbitrary: s m)
  case (Cons kv kvs)
  obtain k v where kv: "kv = (k, v)" by (cases kv)
  have "room m k v" using Cons.prems(2) [of 0] by (simp add: kv)
  then obtain s1 where s1: "store s k v = Some s1" "holds s1 (m(k \<mapsto> v))" using store_room Cons.prems(1) by blast
  have "room (fold (\<lambda>(k, v) m. m(k \<mapsto> v)) (take i kvs) (m(k \<mapsto> v))) (fst (kvs ! i)) (snd (kvs ! i))" if "i < length kvs" for i
    using Cons.prems(2) [of "Suc i"] that by (simp add: kv del: fun_upd_apply)
  from Cons.IH [OF s1(2) this] show ?case by (simp add: kv s1(1))
qed simp

end

locale map_store =
  fixes holds :: "'s \<Rightarrow> ('k \<rightharpoonup> 'v) \<Rightarrow> bool"
    and lookup :: "'s \<Rightarrow> 'k \<Rightarrow> 'v option option"
    and store :: "'s \<Rightarrow> 'k \<Rightarrow> 'v \<Rightarrow> 's option"
  assumes lookup: "holds s m \<Longrightarrow> lookup s k = Some (m k)"
    and store: "holds s m \<Longrightarrow> \<exists>s'. store s k v = Some s' \<and> holds s' (m(k \<mapsto> v))"
begin

lemma lookup_unique: "holds s m \<Longrightarrow> holds s m' \<Longrightarrow> m = m'"
  using lookup by (metis ext option.inject)

lemma lookup_after_store:
  "holds s m \<Longrightarrow> store s k v = Some s' \<Longrightarrow> lookup s' j = Some (if j = k then Some v else m j)"
  using store [of s m k v] lookup by fastforce

end

sublocale map_store \<subseteq> bounded: bounded_map_store holds lookup store "\<lambda>_. True" "\<lambda>_ _ _. True"
  by unfold_locales (auto intro: lookup store)

context map_store begin

lemma store_all: "holds s m \<Longrightarrow> \<exists>s'. store_all store kvs s = Some s' \<and> holds s' (fold (\<lambda>(k, v) m. m(k \<mapsto> v)) kvs m)"
  by (rule bounded.store_all_room) auto

end

locale erasable_map_store = map_store holds lookup store
  for holds :: "'s \<Rightarrow> ('k \<rightharpoonup> 'v) \<Rightarrow> bool" and lookup :: "'s \<Rightarrow> 'k \<Rightarrow> 'v option option" and store :: "'s \<Rightarrow> 'k \<Rightarrow> 'v \<Rightarrow> 's option" +
  fixes erase :: "'s \<Rightarrow> 'k \<Rightarrow> 's option"
  assumes erase: "holds s m \<Longrightarrow> \<exists>s'. erase s k = Some s' \<and> holds s' (m(k := None))"
begin

lemma exec_op: "holds s m \<Longrightarrow> \<exists>s'. exec_op store erase c s = Some s' \<and> holds s' (map_effect c m)"
  using store erase by (cases c) auto

lemma exec_ops: "holds s m \<Longrightarrow> \<exists>s'. exec_ops store erase cs s = Some s' \<and> holds s' (fold map_effect cs m)"
proof (induction cs arbitrary: s m)
  case (Cons c cs)
  obtain s1 where s1: "exec_op store erase c s = Some s1" "holds s1 (map_effect c m)" using exec_op [OF Cons.prems] by blast
  from Cons.IH [OF s1(2)] show ?case by (simp add: s1(1))
qed simp

lemma lookup_after_ops:
  "holds s m \<Longrightarrow> \<exists>s'. exec_ops store erase cs s = Some s' \<and> lookup s' k = Some (fold map_effect cs m k)"
  using exec_ops [of s m cs] lookup by blast

end

end
