(* ===== verification/BPTree_Map.thy ===== *)
theory BPTree_Map
  imports BPTree_Delete Map_Store
begin

text \<open>
  The B+ tree as a provider of the interface of \<open>Map_Store\<close>: its invariant and the map
  laws of \<open>find\<close>, \<open>insert\<close> and \<open>delete\<close> discharge the laws, and the lemmas on sequences of
  operations become statements about \<^verbatim>\<open>bptree/main.c\<close>.
\<close>

text \<open>The empty heap in which \<open>main\<close> starts, with \<open>root = NULL\<close>.\<close>

definition empty_heap :: "('k, 'r) heap" where
  "empty_heap = \<lparr>nodes = Map.empty, recs = Map.empty, brk = 1, oom = (\<lambda>_. False), malloc_temps = True\<rparr>"

lemma is_map_empty: "3 \<le> ord \<Longrightarrow> is_map ord empty_heap NULL Map.empty"
  by (simp add: is_map_def heap_ok_def empty_heap_def)

text \<open>A tree as one value: the root and the heap.\<close>

type_synonym 'k bpt_state = "addr \<times> ('k, bpt_record) heap"

text \<open>The map of the records of a map of values.\<close>

definition rec_map :: "('k \<rightharpoonup> int) \<Rightarrow> 'k \<rightharpoonup> bpt_record" where
  "rec_map m = map_option bpt_record.make \<circ> m"

definition bpt_holds :: "nat \<Rightarrow> 'k::linorder bpt_state \<Rightarrow> ('k \<rightharpoonup> int) \<Rightarrow> bool" where
  "bpt_holds ord s m \<longleftrightarrow> (case s of (root, h) \<Rightarrow> is_map ord h root (map_option bpt_record.make \<circ> m))"

definition bpt_lookup :: "'k::linorder bpt_state \<Rightarrow> 'k \<Rightarrow> int option option" where
  "bpt_lookup s k = (case s of (root, h) \<Rightarrow> do {
     (p, _) \<leftarrow> find_bpt h root k;
     if p = NULL then Some None else do { r \<leftarrow> recs h p; Some (Some (rec_value r)) }
   })"

definition bpt_store :: "nat \<Rightarrow> 'k::linorder bpt_state \<Rightarrow> 'k \<Rightarrow> int \<Rightarrow> 'k bpt_state option" where
  "bpt_store ord s k v = (case s of (root, h) \<Rightarrow> insert_bpt ord h root k v)"

definition bpt_erase :: "nat \<Rightarrow> 'k::linorder bpt_state \<Rightarrow> 'k \<Rightarrow> 'k bpt_state option" where
  "bpt_erase ord s k = (case s of (root, h) \<Rightarrow> delete_bpt ord h root k)"

interpretation bpt: erasable_map_store "bpt_holds ord" bpt_lookup "bpt_store ord" "bpt_erase ord" for ord
proof unfold_locales
  fix s :: "'k::linorder bpt_state" and m :: "'k \<rightharpoonup> int" and k v
  obtain root h where s: "s = (root, h)" by (cases s)
  assume "bpt_holds ord s m"
  then have h: "is_map ord h root (map_option bpt_record.make \<circ> m)" by (simp add: bpt_holds_def s)
  show "bpt_lookup s k = Some (m k)"
    using find_bpt_map [OF h, of k] by (cases "m k") (auto simp: bpt_lookup_def s bpt_record.make_def)
  have "(map_option bpt_record.make \<circ> m)(k \<mapsto> \<lparr>rec_value = v\<rparr>) = map_option bpt_record.make \<circ> m(k \<mapsto> v)"
    by (auto simp: fun_eq_iff bpt_record.make_def)
  then show "\<exists>s'. bpt_store ord s k v = Some s' \<and> bpt_holds ord s' (m(k \<mapsto> v))"
    using insert_bpt_map [OF h, of k v] by (auto simp: bpt_store_def bpt_holds_def s)
  have "(map_option bpt_record.make \<circ> m)(k := None) = map_option bpt_record.make \<circ> m(k := None)"
    by (auto simp: fun_eq_iff)
  then show "\<exists>s'. bpt_erase ord s k = Some s' \<and> bpt_holds ord s' (m(k := None))"
    using delete_bpt_map [OF h, of k] by (auto simp: bpt_erase_def bpt_holds_def s)
qed

end
