(* ===== verification/BPTree_Scan.thy ===== *)
theory BPTree_Scan
  imports BPTree_Delete
begin

text \<open>
  The functions of \<^verbatim>\<open>bptree/main.c\<close> that go along the chain of leaves or over the whole tree:
  \<open>print_leaves\<close> prints the keys of the map in order, \<open>find_range\<close> collects the entries of a
  range, \<open>destroy_tree\<close> frees every node and every record.
\<close>

section \<open>print_leaves\<close>

text \<open>What \<open>print_leaves\<close> prints when the verbose flag is off: keys and bars.\<close>

datatype 'k token = Key 'k | Bar

function print_keys :: "'k carray \<Rightarrow> nat \<Rightarrow> nat \<Rightarrow> 'k token list option" where
  "print_keys ks i n = (if i < n then do { k \<leftarrow> rd ks i; out \<leftarrow> print_keys ks (Suc i) n; Some (Key k # out) } else Some [])"
  by pat_completeness auto
termination
  by (relation "measure (\<lambda>(ks, i, n). n - i)") auto

declare print_keys.simps [simp del]

partial_function (option) print_chain :: "nat \<Rightarrow> ('k, 'r) heap \<Rightarrow> addr \<Rightarrow> 'k token list option" where
  "print_chain ord h c = do {
     n \<leftarrow> nodes h c;
     out \<leftarrow> print_keys (keys n) 0 (num_keys n);
     q \<leftarrow> rd (pointers n) (ord - 1);
     if q \<noteq> NULL then do { rest \<leftarrow> print_chain ord h q; Some (out @ Bar # rest) }
     else Some out
   }"

partial_function (option) leftmost_leaf :: "('k, 'r) heap \<Rightarrow> addr \<Rightarrow> addr option" where
  "leftmost_leaf h c = do {
     n \<leftarrow> nodes h c;
     if is_leaf n then Some c
     else do { q \<leftarrow> rd (pointers n) 0; leftmost_leaf h q }
   }"

definition print_leaves :: "nat \<Rightarrow> ('k, 'r) heap \<Rightarrow> addr \<Rightarrow> 'k token list option" where
  "print_leaves ord h root =
     (if root = NULL then Some [] else do { c \<leftarrow> leftmost_leaf h root; print_chain ord h c })"

declare print_chain.simps [code] leftmost_leaf.simps [code]

section \<open>The leaves of a tree, in order\<close>

fun leaf_list :: "'k bt \<Rightarrow> (addr \<times> ('k \<times> addr) list) list" where
  "leaf_list (Lf a es) = [(a, es)]"
| "leaf_list (Nd a ks cs) = concat (map leaf_list cs)"

lemma leaf_list_addrs: "map fst (leaf_list t) = leaf_addrs t"
  by (induction t) (simp_all add: map_concat comp_def cong: map_cong)

lemma concat_leaf_lists:
  "(\<And>c. c \<in> set cs \<Longrightarrow> concat (map snd (leaf_list c)) = ents (flat c)) \<Longrightarrow>
   concat (map snd (concat (map leaf_list cs))) = concat (map (\<lambda>c. ents (flat c)) cs)"
  by (induction cs) simp_all

lemma leaf_list_ents: "fits ord r d t \<Longrightarrow> concat (map snd (leaf_list t)) = ents (flat t)"
proof (induction t arbitrary: r d)
  case (Nd a ks cs)
  then have "concat (map snd (leaf_list c)) = ents (flat c)" if "c \<in> set cs" for c using that by fastforce
  with Nd.prems concat_leaf_lists [of cs] show ?case by (simp add: ents_weave comp_def)
qed simp

lemma rep_leaf_list:
  "rep ord N par t \<Longrightarrow> (a, es) \<in> set (leaf_list t) \<Longrightarrow> \<exists>n par'. N a = Some n \<and> leaf_node ord par' es n"
proof (induction t arbitrary: par)
  case (Lf b es)
  then show ?case by (auto simp: rep_Lf simp del: rep.simps)
next
  case (Nd b ks cs)
  then show ?case by fastforce
qed

lemma leftmost_leaf_fits:
  assumes "rep ord (nodes h) par t" "fits ord r d t"
  shows "leftmost_leaf h (root_of t) = Some (hd (leaf_addrs t))"
  using assms
proof (induction t arbitrary: par r d)
  case (Lf a es)
  then show ?case by (subst leftmost_leaf.simps) auto
next
  case (Nd a ks cs)
  then obtain n where n: "nodes h a = Some n" "\<not> is_leaf n" "arr ord (map root_of cs) (pointers n)"
    and len: "length cs = Suc (length ks)" and sub: "\<forall>c \<in> set cs. rep ord (nodes h) a c"
    by auto
  from len obtain c cs' where cs: "cs = c # cs'" by (cases cs) auto
  then have "rd (pointers n) 0 = Some (root_of c)" using arr_rd [OF n(3), of 0] by simp
  moreover have "leftmost_leaf h (root_of c) = Some (hd (leaf_addrs c))"
    using Nd.IH [of c a False "d - 1"] Nd.prems(2) sub cs by simp
  moreover have "leaf_addrs c \<noteq> []" using Nd.prems(2) cs fits_leaves [of ord False "d - 1" c] by simp
  ultimately show ?case using n cs by (subst leftmost_leaf.simps) simp
qed

lemma print_keys_arr: "arr L ks a \<Longrightarrow> i \<le> length ks \<Longrightarrow> print_keys a i (length ks) = Some (map Key (drop i ks))"
proof (induction "length ks - i" arbitrary: i)
  case 0
  then show ?case by (subst print_keys.simps) simp
next
  case (Suc d)
  then have "i < length ks" by simp
  moreover from this have "drop i ks = ks ! i # drop (Suc i) ks" by (simp add: Cons_nth_drop_Suc)
  ultimately show ?case using Suc
    by (subst print_keys.simps) (simp add: arr_rd [OF Suc.prems(1)])
qed

text \<open>What is printed for a list of leaves.\<close>

fun leaves_out :: "('k \<times> addr) list list \<Rightarrow> 'k token list" where
  "leaves_out [] = []"
| "leaves_out [es] = map Key (map fst es)"
| "leaves_out (es # ess) = map Key (map fst es) @ Bar # leaves_out ess"

lemma print_chain_leaves:
  assumes "chain ord (ptrs (nodes h)) x (map fst ls) NULL" "ls \<noteq> []"
    and "\<And>a es. (a, es) \<in> set ls \<Longrightarrow> a \<noteq> NULL \<and> (\<exists>n par. nodes h a = Some n \<and> leaf_node ord par es n)"
  shows "print_chain ord h x = Some (leaves_out (map snd ls))"
  using assms
proof (induction ls arbitrary: x)
  case (Cons l ls)
  obtain a es where l: "l = (a, es)" by (cases l)
  with Cons.prems(3) [of a es] obtain n par where n: "nodes h a = Some n" "leaf_node ord par es n" by auto
  then have "print_keys (keys n) 0 (num_keys n) = Some (map Key (map fst es))"
    using print_keys_arr [of "ord - 1" "map fst es" "keys n" 0] by (simp add: leaf_node_def)
  moreover have "ptrs (nodes h) a = Some (pointers n)" using n(1) by (simp add: ptrs_def)
  with Cons.prems(1) l obtain q where q: "x = a" "rd (pointers n) (ord - 1) = Some q" "chain ord (ptrs (nodes h)) q (map fst ls) NULL"
    by auto
  moreover have "q = NULL \<longleftrightarrow> ls = []"
  proof (cases ls)
    case (Cons l' ls')
    then have "(fst l', snd l') \<in> set (l # ls)" by simp
    from Cons.prems(3) [OF this] q(3) Cons show ?thesis by auto
  qed (use q(3) in simp)
  moreover have "ls \<noteq> [] \<Longrightarrow> print_chain ord h q = Some (leaves_out (map snd ls))"
    using Cons.prems(3) by (intro Cons.IH [OF q(3)]) auto
  ultimately show ?case using n(1) l by (subst print_chain.simps) (cases ls; auto)
qed simp

lemma holds_tree_chain:
  assumes "holds_tree ord h root t d" "heap_ok h"
  shows "chain ord (ptrs (nodes h)) (hd (leaf_addrs t)) (map fst (leaf_list t)) NULL" "leaf_list t \<noteq> []"
    "\<And>a es. (a, es) \<in> set (leaf_list t) \<Longrightarrow> a \<noteq> NULL \<and> (\<exists>n par. nodes h a = Some n \<and> leaf_node ord par es n)"
    "concat (map snd (leaf_list t)) = ents (flat t)"
proof -
  have s: "rep ord (nodes h) NULL t" "fits ord True d t" "chain ord (ptrs (nodes h)) (hd (leaf_addrs t)) (leaf_addrs t) NULL"
    using assms(1) by (auto simp: holds_tree_def shape_def)
  show "chain ord (ptrs (nodes h)) (hd (leaf_addrs t)) (map fst (leaf_list t)) NULL" using s(3) by (simp add: leaf_list_addrs)
  show "leaf_list t \<noteq> []" using fits_leaves [OF s(2)] leaf_list_addrs [of t] by auto
  show "concat (map snd (leaf_list t)) = ents (flat t)" using s(2) by (rule leaf_list_ents)
  fix a es assume "(a, es) \<in> set (leaf_list t)"
  with rep_leaf_list [OF s(1)] heap_ok_NULL(1) [OF assms(2)]
  show "a \<noteq> NULL \<and> (\<exists>n par. nodes h a = Some n \<and> leaf_node ord par es n)" by (metis option.distinct(1))
qed

text \<open>\<open>print_leaves\<close> prints the keys of the map in ascending order.\<close>

fun token_keys :: "'k token list \<Rightarrow> 'k list" where
  "token_keys [] = []"
| "token_keys (Key k # ts) = k # token_keys ts"
| "token_keys (Bar # ts) = token_keys ts"

lemma token_keys_append: "token_keys (xs @ ys) = token_keys xs @ token_keys ys"
  by (induction xs rule: token_keys.induct) auto

lemma token_keys_Key: "token_keys (map Key xs) = xs"
  by (induction xs) auto

lemma token_keys_leaves: "token_keys (leaves_out ess) = map fst (concat ess)"
  by (induction ess rule: leaves_out.induct) (simp_all add: token_keys_append token_keys_Key del: map_map)

lemma bpt_map_dom: "holds_tree ord h root t d \<Longrightarrow> dom (bpt_map h t) = fst ` set (ents (flat t))"
proof -
  assume t: "holds_tree ord h root t d"
  then have d: "distinct (map fst (ents (flat t)))"
    using ordered_ents [of "flat t"] by (auto simp: holds_tree_def strict_sorted_iff)
  have "p \<in> dom (recs h)" if "(k, p) \<in> set (ents (flat t))" for k p
    using t that by (force simp: holds_tree_def)
  with d show ?thesis
    by (force simp: bpt_map_def dom_def bind_eq_Some_conv map_of_eq_Some_iff)
qed

lemma print_leaves_map:
  assumes "is_map ord h root m"
  shows "\<exists>out. print_leaves ord h root = Some out \<and> sorted_wrt (<) (token_keys out) \<and> set (token_keys out) = dom m"
proof (cases "root = NULL")
  case True
  with assms show ?thesis by (simp add: print_leaves_def is_map_def)
next
  case False
  with assms obtain t d where t: "holds_tree ord h root t d" "m = bpt_map h t" and ok: "heap_ok h" by (auto simp: is_map_def)
  note c = holds_tree_chain [OF t(1) ok]
  have "leftmost_leaf h root = Some (hd (leaf_addrs t))"
    using t(1) leftmost_leaf_fits [of ord h NULL t True d] by (auto simp: holds_tree_def shape_def)
  with print_chain_leaves [OF c(1-3)] False have p: "print_leaves ord h root = Some (leaves_out (map snd (leaf_list t)))"
    by (simp add: print_leaves_def)
  have k: "token_keys (leaves_out (map snd (leaf_list t))) = map fst (ents (flat t))"
    by (simp add: token_keys_leaves c(4))
  have "sorted_wrt (<) (map fst (ents (flat t)))" using t(1) by (intro ordered_ents) (simp add: holds_tree_def)
  with p k bpt_map_dom [OF t(1)] t(2) show ?thesis by auto
qed

section \<open>destroy_tree\<close>

definition without :: "('k, 'r) heap \<Rightarrow> 'k bt list \<Rightarrow> ('k, 'r) heap" where
  "without h cs = h\<lparr>nodes := nodes h |` (- set (concat (map addrs cs))),
     recs := recs h |` (- set (concat (map (\<lambda>c. map snd (ents (flat c))) cs)))\<rparr>"

lemma restrict_UNIV [simp]: "m |` UNIV = m"
  by (simp add: restrict_map_def)

lemma without_Nil [simp]: "without h [] = h"
  by (simp add: without_def)

lemma without_Cons: "without (without h [c]) cs = without h (c # cs)"
  by (simp add: without_def Compl_Un Int_commute)

lemma nodes_without: "x \<notin> set (concat (map addrs cs)) \<Longrightarrow> nodes (without h cs) x = nodes h x"
  by (simp add: without_def)

lemma free_records_all:
  assumes "arr L (us @ ps) a" "n = length us + length ps" "distinct ps" "set ps \<subseteq> dom (recs h)"
  shows "free_records h a (length us) n = Some (h\<lparr>recs := recs h |` (- set ps)\<rparr>)"
  using assms
proof (induction ps arbitrary: h us)
  case Nil
  then show ?case by (subst free_records.simps) simp
next
  case (Cons p ps)
  let ?h = "h\<lparr>recs := (recs h)(p := None)\<rparr>"
  have "free_records ?h a (length (us @ [p])) n = Some (?h\<lparr>recs := recs ?h |` (- set ps)\<rparr>)"
    using Cons.prems by (intro Cons.IH) auto
  moreover have "(recs h)(p := None) |` (- set ps) = recs h |` (- set (p # ps))"
    by (auto simp: restrict_map_def fun_eq_iff)
  moreover have "rd a (length us) = Some p" using arr_rd [OF Cons.prems(1), of "length us"] by simp
  ultimately show ?case using Cons.prems(2,4)
    by (subst free_records.simps) (auto simp: free_rec_def)
qed

lemma destroy_children:
  fixes h :: "('k, 'r) heap"
  assumes IH: "\<And>c (h :: ('k, 'r) heap) par. c \<in> set cs \<Longrightarrow> rep ord (nodes h) par c \<Longrightarrow> distinct (addrs c) \<Longrightarrow> distinct (map snd (ents (flat c))) \<Longrightarrow>
      snd ` set (ents (flat c)) \<subseteq> dom (recs h) \<Longrightarrow> destroy_from h (root_of c) 0 = Some (without h [c])"
    and n: "nodes h a = Some n" "\<not> is_leaf n" "arr ord (us @ map root_of cs) (pointers n)" "Suc (num_keys n) = length us + length cs"
    and sub: "\<forall>c \<in> set cs. rep ord (nodes h) a c" "distinct (a # concat (map addrs cs))"
      "distinct (concat (map (\<lambda>c. map snd (ents (flat c))) cs))" "set (concat (map (\<lambda>c. map snd (ents (flat c))) cs)) \<subseteq> dom (recs h)"
  shows "destroy_from h a (length us) = free_node (without h cs) a"
  using assms
proof (induction cs arbitrary: h us)
  case Nil
  then show ?case by (subst destroy_from.simps) simp
next
  case (Cons c cs)
  have c: "destroy_from h (root_of c) 0 = Some (without h [c])"
    using Cons.prems(6-9) by (intro Cons.prems(1) [of c h a]) auto
  let ?h = "without h [c]"
  have "a \<notin> set (addrs c)" using Cons.prems(7) by simp
  then have na: "nodes ?h a = Some n" using Cons.prems(2) by (simp add: nodes_without)
  have "\<forall>d \<in> set cs. rep ord (nodes ?h) a d"
  proof
    fix d assume d: "d \<in> set cs"
    have "set (addrs c) \<inter> set (addrs d) = {}" using Cons.prems(7) d by auto
    then have "rep ord (nodes ?h) a d \<longleftrightarrow> rep ord (nodes h) a d" by (intro rep_cong nodes_without) auto
    with Cons.prems(6) d show "rep ord (nodes ?h) a d" by simp
  qed
  moreover have "set (concat (map (\<lambda>c. map snd (ents (flat c))) cs)) \<subseteq> dom (recs ?h)"
  proof -
    define S where "S = set (concat (map (\<lambda>c. map snd (ents (flat c))) cs))"
    have "set (map snd (ents (flat c))) \<inter> S = {}" "S \<subseteq> dom (recs h)"
      using Cons.prems(8,9) by (simp_all add: S_def)
    moreover have "dom (recs ?h) = dom (recs h) - set (map snd (ents (flat c)))" by (auto simp: without_def)
    ultimately show ?thesis unfolding S_def [symmetric] by blast
  qed
  ultimately have "destroy_from ?h a (length (us @ [root_of c])) = free_node (without ?h cs) a"
    using Cons.prems na by (intro Cons.IH) auto
  moreover have "rd (pointers n) (length us) = Some (root_of c)" using arr_rd [OF Cons.prems(4), of "length us"] by simp
  ultimately show ?case using Cons.prems(2,3,5) c
    by (subst destroy_from.simps) (simp add: without_Cons)
qed

lemma destroy_from_rep:
  assumes "rep ord (nodes h) par t" "distinct (addrs t)" "distinct (map snd (ents (flat t)))" "snd ` set (ents (flat t)) \<subseteq> dom (recs h)"
    "fits ord r d t"
  shows "destroy_from h (root_of t) 0 = Some (without h [t])"
  using assms
proof (induction t arbitrary: h par r d)
  case (Lf a es)
  then obtain n where n: "nodes h a = Some n" "is_leaf n" "num_keys n = length es" "arr ord (map snd es) (pointers n)" by auto
  have "free_records h (pointers n) 0 (length es) = Some (h\<lparr>recs := recs h |` (- snd ` set es)\<rparr>)"
    using free_records_all [of ord "[]" "map snd es" "pointers n" "length es" h] n(4) Lf.prems by simp
  moreover have "(nodes h)(a := None) = nodes h |` (- {a})" by (auto simp: restrict_map_def fun_eq_iff)
  ultimately show ?case using n by (subst destroy_from.simps) (simp add: free_node_def without_def)
next
  case (Nd a ks cs)
  then obtain n where n: "nodes h a = Some n" "\<not> is_leaf n" "num_keys n = length ks" "arr ord (map root_of cs) (pointers n)"
    and len: "length cs = Suc (length ks)" and sub: "\<forall>c \<in> set cs. rep ord (nodes h) a c" by auto
  have e: "map snd (ents (flat (Nd a ks cs))) = concat (map (\<lambda>c. map snd (ents (flat c))) cs)"
    using len by (simp add: ents_weave map_concat comp_def)
  have "destroy_from h a (length ([] :: addr list)) = free_node (without h cs) a"
  proof (rule destroy_children [where ord = ord and us = "[]" and n = n])
    fix c and h' :: "('a, 'b) heap" and par'
    assume c: "c \<in> set cs" "rep ord (nodes h') par' c" "distinct (addrs c)" "distinct (map snd (ents (flat c)))" "snd ` set (ents (flat c)) \<subseteq> dom (recs h')"
    have "fits ord False (d - 1) c" using Nd.prems(5) c(1) by simp
    with Nd.IH [OF c] show "destroy_from h' (root_of c) 0 = Some (without h' [c])" by blast
  next
    show "distinct (concat (map (\<lambda>c. map snd (ents (flat c))) cs))" using Nd.prems(3) unfolding e .
    show "set (concat (map (\<lambda>c. map snd (ents (flat c))) cs)) \<subseteq> dom (recs h)" using Nd.prems(4) unfolding e [symmetric] by simp
  qed (use n len sub Nd.prems in auto)
  moreover have "nodes (without h cs) a = Some n" using Nd.prems(2) n(1) by (simp add: nodes_without)
  moreover have "(nodes h |` (- set (concat (map addrs cs))))(a := None) = nodes h |` (- set (addrs (Nd a ks cs)))"
    by (auto simp: restrict_map_def fun_eq_iff)
  moreover have "set (concat (map (\<lambda>c. map snd (ents (flat c))) cs)) = snd ` set (ents (flat (Nd a ks cs)))"
    using e by (metis set_map)
  ultimately show ?case unfolding root_of.simps list.size(3) free_node_def
    by (simp add: without_def del: addrs.simps flat.simps set_concat)
qed

text \<open>Every node and every record is freed, each of them once.\<close>

lemma destroy_tree_map:
  assumes "is_map ord h root m" "root \<noteq> NULL"
  shows "\<exists>h'. destroy_tree h root = Some (NULL, h') \<and> nodes h' = Map.empty \<and> recs h' = Map.empty \<and> is_map ord h' NULL Map.empty"
proof -
  from assms obtain t d where t: "holds_tree ord h root t d" by (auto simp: is_map_def)
  then have s: "rep ord (nodes h) NULL t" "distinct (addrs t)" "fits ord True d t" "dom (nodes h) = set (addrs t)"
    "distinct (map snd (ents (flat t)))" "snd ` set (ents (flat t)) = dom (recs h)" "root = root_of t"
    by (auto simp: holds_tree_def shape_def)
  have "destroy_from h root 0 = Some (without h [t])"
    using destroy_from_rep [OF s(1,2,5) _ s(3)] s(6,7) by simp
  moreover have "nodes (without h [t]) = Map.empty"
    using s(4) by (auto simp: without_def restrict_map_def fun_eq_iff)
  moreover have "recs (without h [t]) = Map.empty"
    using s(6) by (auto simp: without_def restrict_map_def fun_eq_iff)
  moreover have "is_map ord (without h [t]) NULL Map.empty"
    using assms calculation(2,3) by (simp add: is_map_def heap_ok_def) (simp add: without_def)
  ultimately show ?thesis by (simp add: destroy_tree_def)
qed

section \<open>find_range\<close>

fun ctx_ll :: "'k frame list \<Rightarrow> (addr \<times> ('k \<times> addr) list) list" where
  "ctx_ll [] = []"
| "ctx_ll (Fr a ksl csl ksr csr # fs) = ctx_ll fs @ concat (map leaf_list csl)"

fun ctx_rl :: "'k frame list \<Rightarrow> (addr \<times> ('k \<times> addr) list) list" where
  "ctx_rl [] = []"
| "ctx_rl (Fr a ksl csl ksr csr # fs) = concat (map leaf_list csr) @ ctx_rl fs"

lemma leaf_list_zip_up: "leaf_list (zip_up t fs) = ctx_ll fs @ leaf_list t @ ctx_rl fs"
proof (induction fs arbitrary: t)
  case (Cons f fs)
  then show ?case by (cases f) simp
qed simp

lemma ents_lsep: "length xs = length ks \<Longrightarrow> ents (lsep xs ks) = concat (map ents xs)"
  by (induction xs ks rule: list_induct2) auto

lemma ents_rsep: "length xs = length ks \<Longrightarrow> ents (rsep ks xs) = concat (map ents xs)"
  by (induction xs ks rule: list_induct2) auto

lemma ctx_rl_ents: "ctx_fits ord d fs \<Longrightarrow> concat (map snd (ctx_rl fs)) = ents (ctx_rflat fs)"
proof (induction ord d fs rule: ctx_fits.induct)
  case (2 ord d a ksl csl ksr csr fs)
  have "concat (map snd (concat (map leaf_list csr))) = concat (map (\<lambda>c. ents (flat c)) csr)"
    using 2 leaf_list_ents by (intro concat_leaf_lists) fastforce
  with 2 show ?case by (simp add: ents_rsep comp_def)
qed simp

text \<open>The entries of a leaf up to the end of the range.\<close>

lemma range_leaf_arr:
  assumes "arr L (map fst us @ map fst es) ks" "arr L' (map snd us @ map snd es) ps" "nk = length us + length es" "sorted_wrt (<) (map fst es)"
    and "arr M (map fst F) rk" "arr M (map snd F) rp" "nf = length F" "length F + length (filter (\<lambda>e. fst e \<le> ke) es) \<le> M"
  shows "\<exists>rk' rp'. range_leaf ks ps nk ke (length us) rk rp nf = Some (rk', rp', length F + length (filter (\<lambda>e. fst e \<le> ke) es)) \<and>
    arr M (map fst (F @ filter (\<lambda>e. fst e \<le> ke) es)) rk' \<and> arr M (map snd (F @ filter (\<lambda>e. fst e \<le> ke) es)) rp'"
  using assms
proof (induction es arbitrary: us F rk rp nf)
  case Nil
  then show ?case by (subst range_leaf.simps) simp
next
  case (Cons e es)
  have r: "rd ks (length us) = Some (fst e)" "rd ps (length us) = Some (snd e)"
    using arr_rd [OF Cons.prems(1), of "length us"] arr_rd [OF Cons.prems(2), of "length us"] by (simp_all add: nth_append)
  show ?case
  proof (cases "fst e \<le> ke")
    case True
    have F: "length F < M" using Cons.prems(8) True by simp
    have "\<exists>rk' rp'. range_leaf ks ps nk ke (length (us @ [e])) (rk[nf := Some (fst e)]) (rp[nf := Some (snd e)]) (Suc nf) =
        Some (rk', rp', length (F @ [e]) + length (filter (\<lambda>e. fst e \<le> ke) es)) \<and>
      arr M (map fst ((F @ [e]) @ filter (\<lambda>e. fst e \<le> ke) es)) rk' \<and> arr M (map snd ((F @ [e]) @ filter (\<lambda>e. fst e \<le> ke) es)) rp'"
    proof (rule Cons.IH)
      show "arr M (map fst (F @ [e])) (rk[nf := Some (fst e)])" "arr M (map snd (F @ [e])) (rp[nf := Some (snd e)])"
        using arr_snoc_upd [OF Cons.prems(5), of "fst e"] arr_snoc_upd [OF Cons.prems(6), of "snd e"] F Cons.prems(7) by simp_all
    qed (use Cons.prems True in auto)
    moreover have "length rk = M" "length rp = M" using Cons.prems by (simp_all add: arr_length)
    ultimately show ?thesis using r True Cons.prems(3,7) F by (subst range_leaf.simps) (simp add: wr_Some)
  next
    case False
    then have "filter (\<lambda>e. fst e \<le> ke) (e # es) = []"
      using Cons.prems(4) by (auto simp: filter_empty_conv)
    then show ?thesis using r False Cons.prems by (subst range_leaf.simps) simp
  qed
qed

lemma range_loop_leaves:
  assumes "chain ord (ptrs (nodes h)) x (map fst ls) NULL"
    and "\<And>a es. (a, es) \<in> set ls \<Longrightarrow> a \<noteq> NULL \<and> (\<exists>n par. nodes h a = Some n \<and> leaf_node ord par es n)"
    and "sorted_wrt (<) (map fst (concat (map snd ls)))"
    and "arr M (map fst F) rk" "arr M (map snd F) rp" "nf = length F" "length F + length (filter (\<lambda>e. fst e \<le> ke) (concat (map snd ls))) \<le> M"
  shows "\<exists>rk' rp'. range_loop ord h ke x 0 rk rp nf = Some (rk', rp', length F + length (filter (\<lambda>e. fst e \<le> ke) (concat (map snd ls)))) \<and>
    arr M (map fst (F @ filter (\<lambda>e. fst e \<le> ke) (concat (map snd ls)))) rk' \<and>
    arr M (map snd (F @ filter (\<lambda>e. fst e \<le> ke) (concat (map snd ls)))) rp'"
  using assms
proof (induction ls arbitrary: x F rk rp nf)
  case Nil
  then show ?case by (subst range_loop.simps) simp
next
  case (Cons l ls)
  obtain a es where l: "l = (a, es)" by (cases l)
  with Cons.prems(2) [of a es] obtain n par where n: "nodes h a = Some n" "leaf_node ord par es n" "a \<noteq> NULL" by auto
  have "ptrs (nodes h) a = Some (pointers n)" using n(1) by (simp add: ptrs_def)
  with Cons.prems(1) l obtain q where q: "x = a" "rd (pointers n) (ord - 1) = Some q" "chain ord (ptrs (nodes h)) q (map fst ls) NULL"
    by auto
  let ?f = "filter (\<lambda>e. fst e \<le> ke)"
  have "\<exists>rk' rp'. range_leaf (keys n) (pointers n) (num_keys n) ke (length ([] :: ('a \<times> addr) list)) rk rp nf = Some (rk', rp', length F + length (?f es)) \<and>
    arr M (map fst (F @ ?f es)) rk' \<and> arr M (map snd (F @ ?f es)) rp'"
    using n(2) Cons.prems l by (intro range_leaf_arr [where L = "ord - 1" and L' = ord]) (auto simp: leaf_node_def sorted_wrt_append)
  then obtain rk1 rp1 where r1: "range_leaf (keys n) (pointers n) (num_keys n) ke 0 rk rp nf = Some (rk1, rp1, length F + length (?f es))"
    "arr M (map fst (F @ ?f es)) rk1" "arr M (map snd (F @ ?f es)) rp1" by auto
  have "\<exists>rk' rp'. range_loop ord h ke q 0 rk1 rp1 (length (F @ ?f es)) = Some (rk', rp', length (F @ ?f es) + length (?f (concat (map snd ls)))) \<and>
    arr M (map fst ((F @ ?f es) @ ?f (concat (map snd ls)))) rk' \<and> arr M (map snd ((F @ ?f es) @ ?f (concat (map snd ls)))) rp'"
    using Cons.prems l by (intro Cons.IH [OF q(3) _ _ r1(2,3)]) (auto simp: sorted_wrt_append)
  then show ?case using n(1,3) q(1,2) r1(1) l by (subst range_loop.simps) (simp add: add.assoc)
qed

text \<open>
  \<open>find_range\<close> either gives up at the leaf where the search for \<open>key_start\<close> ends, when all
  keys of that leaf are smaller, or returns the entries of the range in ascending order.
\<close>

definition in_range :: "'k::linorder \<Rightarrow> 'k \<Rightarrow> ('k \<times> addr) list \<Rightarrow> ('k \<times> addr) list" where
  "in_range ks ke es = filter (\<lambda>e. ks \<le> fst e \<and> fst e \<le> ke) es"

lemma around_lt:
  assumes "around key fs"
  shows "(k, p) \<in> set (ents (ctx_lflat fs)) \<Longrightarrow> k < key" "(k, p) \<in> set (ents (ctx_rflat fs)) \<Longrightarrow> key < k"
  using assms by (force simp: around_def set_ents)+

lemma find_range_tree:
  assumes t: "holds_tree ord h root t d" "heap_ok h" and sz: "length rk = M" "length rp = M" "length (in_range ks ke (ents (flat t))) \<le> M"
  shows "\<exists>rk' rp' E. find_range ord h root ks ke rk rp = Some (rk', rp', length E) \<and>
    arr M (map fst E) rk' \<and> arr M (map snd E) rp' \<and>
    (E = [] \<or> E = in_range ks ke (ents (flat t))) \<and> (ks \<in> fst ` set (ents (flat t)) \<longrightarrow> E = in_range ks ke (ents (flat t)))"
proof -
  from t(1) have sh: "shape ord (nodes h) t d" "ordered (flat t)" "root = root_of t" by (auto simp: holds_tree_def)
  obtain a es fs where z: "t = zip_up (Lf a es) fs" "find_leaf h (root_of t) ks = Some a" "a \<noteq> NULL"
     "\<forall>f \<in> set fs. fr_ok f" "around ks fs" "rep ord (nodes h) (top_addr fs) (Lf a es)" "ctx_rep ord (nodes h) a fs"
     "fits ord (fs = []) 0 (Lf a es)" "ctx_fits ord 0 fs" "d = length fs"
     "flat t = ctx_lflat fs @ map (\<lambda>(k, p). Ent k p) es @ ctx_rflat fs"
    by (rule find_leaf_zip [OF sh(1,2) t(2), of ks])
  from z(6) obtain n where n: "nodes h a = Some n" "num_keys n = length es" "arr (ord - 1) (map fst es) (keys n)" "arr ord (map snd es) (pointers n)" by auto
  note c = holds_tree_chain [OF t]
  have ll: "leaf_list t = ctx_ll fs @ (a, es) # ctx_rl fs" by (simp add: z(1) leaf_list_zip_up)
  have "ptrs (nodes h) a = Some (pointers n)" using n(1) by (simp add: ptrs_def)
  then obtain q where q: "rd (pointers n) (ord - 1) = Some q" "chain ord (ptrs (nodes h)) q (map fst (ctx_rl fs)) NULL"
    using c(1) by (auto simp: ll chain_append)
  have srt: "sorted_wrt (<) (map fst es)" using sh(2) unfolding z(11) by (rule leaf_keys_distinct)
  obtain xs ys where xy: "map fst es = xs @ ys" "\<forall>x \<in> set xs. x < ks" "\<forall>y \<in> set ys. ks \<le> y"
    using sorted_split_lt [OF srt, of ks] by blast
  then obtain es1 es2 where es: "es = es1 @ es2" "xs = map fst es1" "ys = map fst es2" by (auto simp: map_eq_append_conv)
  have sc: "scan_lt (keys n) (num_keys n) ks 0 = Some (length es1)"
    using scan_lt_split [of "ord - 1" xs ys "keys n" "num_keys n" 0 ks] n(2,3) xy es by (cases ys) auto
  let ?E = "in_range ks ke (ents (flat t))"
  have lo: "fst e < ks" if "e \<in> set (ents (ctx_lflat fs))" for e
    using around_lt(1) [OF z(5), of "fst e" "snd e"] that by simp
  have hi: "ks < fst e" if "e \<in> set (ents (ctx_rflat fs))" for e
    using around_lt(2) [OF z(5), of "fst e" "snd e"] that by simp
  have E: "?E = filter (\<lambda>e. fst e \<le> ke) (es2 @ concat (map snd (ctx_rl fs)))"
  proof -
    have "in_range ks ke (ents (ctx_lflat fs)) = []" "in_range ks ke es1 = []"
      using lo xy(2) es(2) by (auto simp: in_range_def filter_empty_conv not_le)
    moreover have "in_range ks ke es2 = filter (\<lambda>e. fst e \<le> ke) es2" "in_range ks ke (ents (ctx_rflat fs)) = filter (\<lambda>e. fst e \<le> ke) (ents (ctx_rflat fs))"
      using hi xy(3) es(3) by (auto simp: in_range_def intro!: filter_cong dest: less_imp_le)
    ultimately show ?thesis by (simp add: z(11) es(1) in_range_def ctx_rl_ents [OF z(9)])
  qed
  show ?thesis
  proof (cases "es2 = []")
    case True
    have "ks \<notin> fst ` set (ents (flat t))" using lo hi xy(2) es True by (force simp: z(11))
    moreover have "find_range ord h root ks ke rk rp = Some (rk, rp, length ([] :: ('a \<times> addr) list))"
      using z(2,3) n(1,2) sc sh(3) True es(1) by (simp add: find_range_def)
    ultimately show ?thesis using sz by (intro exI [of _ rk] exI [of _ rp] exI [of _ "[]"]) simp
  next
    case False
    have ord: "sorted_wrt (<) (map fst (es2 @ concat (map snd (ctx_rl fs))))"
      using ordered_ents [OF sh(2)] by (simp add: z(11) es(1) ctx_rl_ents [OF z(9)] sorted_wrt_append)
    let ?f = "filter (\<lambda>e. fst e \<le> ke)"
    have sz': "length (?f es2) + length (?f (concat (map snd (ctx_rl fs)))) \<le> M" using sz(3) by (simp add: E)
    have "\<exists>rk' rp'. range_leaf (keys n) (pointers n) (num_keys n) ke (length es1) rk rp 0 = Some (rk', rp', length ([] :: ('a \<times> addr) list) + length (?f es2)) \<and>
      arr M (map fst ([] @ ?f es2)) rk' \<and> arr M (map snd ([] @ ?f es2)) rp'"
      using n ord sz sz' es(1) by (intro range_leaf_arr [where L = "ord - 1" and L' = ord]) (auto simp: sorted_wrt_append)
    then obtain rk1 rp1 where r1: "range_leaf (keys n) (pointers n) (num_keys n) ke (length es1) rk rp 0 = Some (rk1, rp1, length (?f es2))"
      "arr M (map fst (?f es2)) rk1" "arr M (map snd (?f es2)) rp1" by auto
    obtain rk2 rp2 where r2: "range_loop ord h ke q 0 rk1 rp1 (length (?f es2)) = Some (rk2, rp2, length (?f es2) + length (?f (concat (map snd (ctx_rl fs)))))"
      "arr M (map fst (?f es2 @ ?f (concat (map snd (ctx_rl fs))))) rk2" "arr M (map snd (?f es2 @ ?f (concat (map snd (ctx_rl fs))))) rp2"
      using range_loop_leaves [OF q(2) _ _ r1(2,3) refl sz'] c(3) ord by (auto simp: ll sorted_wrt_append)
    have "find_range ord h root ks ke rk rp = range_loop ord h ke a (length es1) rk rp 0"
      using z(2,3) n(1,2) sc sh(3) False es(1) by (simp add: find_range_def)
    also have "\<dots> = Some (rk2, rp2, length ?E)"
      using z(3) n(1) r1(1) q(1) r2(1) E by (subst range_loop.simps) simp
    finally show ?thesis using r2(2,3) E by (intro exI [of _ rk2] exI [of _ rp2] exI [of _ ?E]) simp
  qed
qed

lemma find_range_map:
  assumes "is_map ord h root m" "root \<noteq> NULL" "length rk = M" "length rp = M" "card {k \<in> dom m. ks \<le> k \<and> k \<le> ke} \<le> M"
  shows "\<exists>rk' rp' E. find_range ord h root ks ke rk rp = Some (rk', rp', length E) \<and>
    arr M (map fst E) rk' \<and> arr M (map snd E) rp' \<and> sorted_wrt (<) (map fst E) \<and> (\<forall>(k, p) \<in> set E. recs h p = m k) \<and>
    (E = [] \<or> fst ` set E = {k \<in> dom m. ks \<le> k \<and> k \<le> ke}) \<and>
    (m ks \<noteq> None \<longrightarrow> fst ` set E = {k \<in> dom m. ks \<le> k \<and> k \<le> ke})"
proof -
  from assms obtain t d where t: "holds_tree ord h root t d" "m = bpt_map h t" and ok: "heap_ok h" by (auto simp: is_map_def)
  let ?E = "in_range ks ke (ents (flat t))"
  have srt: "sorted_wrt (<) (map fst (ents (flat t)))" using t(1) by (intro ordered_ents) (simp add: holds_tree_def)
  then have dist: "distinct (map fst (ents (flat t)))" by (simp add: strict_sorted_iff)
  have dm: "dom m = fst ` set (ents (flat t))" using bpt_map_dom [OF t(1)] t(2) by simp
  then have E: "fst ` set ?E = {k \<in> dom m. ks \<le> k \<and> k \<le> ke}" by (auto simp: in_range_def)
  have dE: "distinct (map fst ?E)" using dist unfolding in_range_def by (rule distinct_map_filter)
  then have "card (fst ` set ?E) = length ?E" using distinct_card [OF dE] by simp
  then have "length ?E \<le> M" using assms(5) E by simp
  from find_range_tree [OF t(1) ok assms(3,4) this] obtain rk' rp' E where r: "find_range ord h root ks ke rk rp = Some (rk', rp', length E)"
    "arr M (map fst E) rk'" "arr M (map snd E) rp'" "E = [] \<or> E = ?E" "ks \<in> fst ` set (ents (flat t)) \<longrightarrow> E = ?E" by blast
  have "sorted_wrt (<) (map fst ?E)" using srt by (auto simp: in_range_def sorted_wrt_map intro: sorted_wrt_filter)
  then have "sorted_wrt (<) (map fst E)" using r(4) by auto
  moreover have "recs h p = m k" if "(k, p) \<in> set E" for k p
  proof -
    have "(k, p) \<in> set (ents (flat t))" using that r(4) by (auto simp: in_range_def)
    then show ?thesis using dist by (simp add: t(2) bpt_map_def)
  qed
  ultimately show ?thesis using r E dm by (intro exI [of _ rk'] exI [of _ rp'] exI [of _ E]) auto
qed

section \<open>path_to_root\<close>

lemma path_up:
  assumes "rep ord (nodes h) (top_addr fs) t" "ctx_rep ord (nodes h) (root_of t) fs" "distinct (addrs t @ ctx_addrs fs)"
    and "root = root_of (zip_up t fs)"
  shows "path_to_root_loop h root (root_of t) len = Some (len + length fs)"
  using assms
proof (induction fs arbitrary: t len)
  case Nil
  then show ?case by (subst path_to_root_loop.simps) simp
next
  case (Cons f fs)
  have "root \<in> set (ctx_addrs (f # fs))" using Cons.prems(4) last_in_ctx [of "f # fs"] by (simp only: root_zip_up) simp
  moreover have "set (addrs t) \<inter> set (ctx_addrs (f # fs)) = {}" using Cons.prems(3) by simp
  ultimately have ne: "root_of t \<noteq> root" using root_in_addrs [of t] by blast
  obtain n where n: "nodes h (root_of t) = Some n" "parent n = fr_addr f" using rep_node [OF Cons.prems(1)] by auto
  have "distinct (addrs (plug f t) @ ctx_addrs fs) \<longleftrightarrow> distinct (addrs t @ ctx_addrs (f # fs))"
    by (rule mset_eq_imp_distinct_iff) (simp add: mset_addrs_plug)
  then have "path_to_root_loop h root (root_of (plug f t)) (Suc len) = Some (Suc len + length fs)"
    using Cons.prems by (intro Cons.IH) (simp_all add: rep_plug)
  then show ?case using n ne by (subst path_to_root_loop.simps) simp
qed

lemma path_to_root_leaf:
  assumes t: "is_map ord h root m" "root \<noteq> NULL"
  shows "\<exists>d leaf. find_leaf h root key = Some leaf \<and> path_to_root h root leaf = Some d \<and> height_bpt h root = Some d"
proof -
  from assms obtain t d where t: "holds_tree ord h root t d" and ok: "heap_ok h" by (auto simp: is_map_def)
  then have sh: "shape ord (nodes h) t d" "ordered (flat t)" "root = root_of t" by (auto simp: holds_tree_def)
  obtain a es fs where z: "t = zip_up (Lf a es) fs" "find_leaf h (root_of t) key = Some a"
     "rep ord (nodes h) (top_addr fs) (Lf a es)" "ctx_rep ord (nodes h) a fs" "d = length fs"
    by (rule find_leaf_zip [OF sh(1,2) ok, of key]) blast
  have "path_to_root_loop h root (root_of (Lf a es)) 0 = Some (0 + length fs)"
    using z(3,4) sh zip_leaf_facts(1) [of ord "nodes h" a es fs d] by (intro path_up) (simp_all add: z(1))
  moreover have "height_loop h root 0 = Some (0 + d)"
    using sh height_loop_fits [of ord h NULL t True d 0] by (simp add: shape_def)
  ultimately show ?thesis using z(2,5) sh(3) by (auto simp: path_to_root_def height_bpt_def)
qed

end
