(* ===== verification/BPTree_Props.thy ===== *)
theory BPTree_Props
  imports BPTree_Map BPTree_Scan
begin

text \<open>
  The properties of the B+ tree of \<^verbatim>\<open>bptree/main.c\<close>, on its functions and over the finite
  map that \<open>is_map\<close> says the heap holds, each with an instance on a concrete tree.
\<close>

section \<open>A tree to apply the theorems to\<close>

lemma empty_holds: "3 \<le> ord \<Longrightarrow> bpt_holds ord (NULL, empty_heap) Map.empty"
  using is_map_empty [of ord] by (simp add: bpt_holds_def comp_def)

definition sample_ops :: "(int, int) map_op list" where
  "sample_ops = [Store 1 10, Store 2 20, Store 5 50, Store 6 60]"

definition sample_map :: "int \<rightharpoonup> int" where
  "sample_map = [1 \<mapsto> 10, 2 \<mapsto> 20, 5 \<mapsto> 50, 6 \<mapsto> 60]"

definition sample_tree :: "int bpt_state option" where
  "sample_tree = exec_ops (bpt_store 4) (bpt_erase 4) sample_ops (NULL, empty_heap)"

lemma sample_tree: "\<exists>root h. sample_tree = Some (root, h) \<and> is_map 4 h root (rec_map sample_map) \<and> root \<noteq> NULL"
proof -
  have m: "fold map_effect sample_ops Map.empty = sample_map" by (simp add: sample_ops_def sample_map_def)
  from bpt.exec_ops [OF empty_holds, of 4 sample_ops] obtain root h where
    s: "sample_tree = Some (root, h)" "is_map 4 h root (rec_map sample_map)"
    unfolding sample_tree_def m by (auto simp: bpt_holds_def rec_map_def)
  moreover have "root \<noteq> NULL"
  proof
    assume "root = NULL"
    then have "rec_map sample_map = Map.empty" using s(2) by (simp add: is_map_def)
    then have "rec_map sample_map 1 = None" by simp
    then show False by (simp add: rec_map_def sample_map_def)
  qed
  ultimately show ?thesis by blast
qed

section \<open>Properties\<close>

text \<open>
  C2: \<open>insert\<close> on a B+ tree that holds the map \<open>m\<close> returns for every key and value (no
  access outside an array, no read of an uninitialised cell, no endless loop), and the tree it
  leaves satisfies the whole invariant again (sorted keys, occupancy bounds, equal depth of the
  leaves, parent pointers, chain of leaves, no lost node or record) and holds \<open>m\<close> with the new
  value at the key: whether the key is present, the leaf has room, the leaf splits or splits go
  up to a new root.
\<close>

theorem insert_refines_update:
  assumes "is_map ord h root m"
  shows "\<exists>root' h'. insert_bpt ord h root key v = Some (root', h') \<and> is_map ord h' root' (m(key \<mapsto> \<lparr>rec_value = v\<rparr>))"
  using assms by (rule insert_bpt_map)

theorem insert_refines_update_witness:
  "\<exists>root h root' h'. sample_tree = Some (root, h) \<and> insert_bpt 4 h root 3 30 = Some (root', h') \<and>
     is_map 4 h' root' ((rec_map sample_map)(3 \<mapsto> \<lparr>rec_value = 30\<rparr>))"
  using sample_tree insert_refines_update [where ord = 4 and m = "rec_map sample_map" and key = 3 and v = 30] by blast

text \<open>
  C3: \<open>delete\<close> on a B+ tree that holds \<open>m\<close> returns for every key, present or not, and leaves a
  tree that satisfies the invariant and holds \<open>m\<close> without the key: through merges, the four
  rotations and the shrinking of the root, with every merged node and the record freed once.
\<close>

theorem delete_refines_removal:
  assumes "is_map ord h root m"
  shows "\<exists>root' h'. delete_bpt ord h root key = Some (root', h') \<and> is_map ord h' root' (m(key := None))"
  using assms by (rule delete_bpt_map)

theorem delete_refines_removal_witness:
  "\<exists>root h root' h'. sample_tree = Some (root, h) \<and> delete_bpt 4 h root 2 = Some (root', h') \<and>
     is_map 4 h' root' ((rec_map sample_map)(2 := None))"
  using sample_tree delete_refines_removal [where ord = 4 and m = "rec_map sample_map" and key = 2] by blast

text \<open>
  C4: \<open>find\<close> on a tree that holds \<open>m\<close> returns, gives \<open>NULL\<close> exactly for the keys that \<open>m\<close>
  does not have, and otherwise a pointer to the record that has the value of \<open>m\<close>.
\<close>

theorem find_returns_the_record:
  assumes "is_map ord h root m"
  shows "\<exists>p leaf. find_bpt h root key = Some (p, leaf) \<and> (p = NULL \<longleftrightarrow> m key = None) \<and> (p \<noteq> NULL \<longrightarrow> recs h p = m key)"
  using assms by (rule find_bpt_map)

theorem find_returns_the_record_witness:
  "\<exists>root h p leaf. sample_tree = Some (root, h) \<and> find_bpt h root 5 = Some (p, leaf) \<and> recs h p = Some \<lparr>rec_value = 50\<rparr>"
proof -
  obtain root h where s: "sample_tree = Some (root, h)" "is_map 4 h root (rec_map sample_map)" using sample_tree by blast
  from find_returns_the_record [OF s(2), of 5] s(1) show ?thesis
    by (auto simp: rec_map_def sample_map_def bpt_record.make_def)
qed

text \<open>
  C5: every sequence of insertions and deletions, from the empty heap and at any order
  \<open>\<ge> 3\<close>, runs to its end, and afterwards a lookup of any key gives what a finite map gives after
  the same updates.
\<close>

theorem session_behaves_as_a_map:
  assumes "3 \<le> ord"
  shows "\<exists>s. exec_ops (bpt_store ord) (bpt_erase ord) cs (NULL, empty_heap) = Some s \<and>
    (\<forall>k. bpt_lookup s k = Some (fold map_effect cs Map.empty k))"
  using bpt.exec_ops [OF empty_holds [OF assms], of cs] bpt.lookup by blast

theorem session_behaves_as_a_map_witness:
  "\<exists>s. exec_ops (bpt_store 3) (bpt_erase 3) [Store (1::int) 10, Store 2 20, Erase 1] (NULL, empty_heap) = Some s \<and>
     bpt_lookup s 2 = Some (Some 20) \<and> bpt_lookup s 1 = Some None"
  using session_behaves_as_a_map [of 3 "[Store (1::int) 10, Store 2 20, Erase 1]"] by auto

text \<open>
  \<open>print_leaves\<close>, which goes to the leftmost leaf and follows the \<open>next\<close> pointers, returns and
  prints each key of the map once, in ascending order.
\<close>

theorem print_leaves_in_order:
  assumes "is_map ord h root m"
  shows "\<exists>out. print_leaves ord h root = Some out \<and> sorted_wrt (<) (token_keys out) \<and> set (token_keys out) = dom m"
  using assms by (rule print_leaves_map)

theorem print_leaves_in_order_witness:
  "\<exists>root h out. sample_tree = Some (root, h) \<and> print_leaves 4 h root = Some out \<and> set (token_keys out) = {1, 2, 5, 6}"
proof -
  obtain root h where s: "sample_tree = Some (root, h)" "is_map 4 h root (rec_map sample_map)" using sample_tree by blast
  from print_leaves_in_order [OF s(2)] s(1) show ?thesis
    by (auto simp: rec_map_def sample_map_def dom_def split: if_splits)
qed

text \<open>
  C6: \<open>find_range\<close>, given arrays with room for the entries of the range, stays inside them and
  returns either no entry or all entries of the range, in ascending order and with pointers to
  their records; if \<open>key_start\<close> itself is a key of the map it returns all of them.
\<close>

theorem find_range_sound:
  assumes "is_map ord h root m" "root \<noteq> NULL" "length rk = M" "length rp = M" "card {k \<in> dom m. ks \<le> k \<and> k \<le> ke} \<le> M"
  shows "\<exists>rk' rp' E. find_range ord h root ks ke rk rp = Some (rk', rp', length E) \<and>
    arr M (map fst E) rk' \<and> arr M (map snd E) rp' \<and> sorted_wrt (<) (map fst E) \<and> (\<forall>(k, p) \<in> set E. recs h p = m k) \<and>
    (E = [] \<or> fst ` set E = {k \<in> dom m. ks \<le> k \<and> k \<le> ke}) \<and>
    (m ks \<noteq> None \<longrightarrow> fst ` set E = {k \<in> dom m. ks \<le> k \<and> k \<le> ke})"
  using assms by (rule find_range_map)

theorem find_range_sound_witness:
  "\<exists>root h rk rp (E :: (int \<times> addr) list). sample_tree = Some (root, h) \<and> find_range 4 h root 2 6 (new_array 5) (new_array 5) = Some (rk, rp, length E) \<and>
     fst ` set E = {2, 5, 6}"
proof -
  obtain root h where s: "sample_tree = Some (root, h)" "is_map 4 h root (rec_map sample_map)" "root \<noteq> NULL" using sample_tree by blast
  have d: "{k \<in> dom (rec_map sample_map). 2 \<le> k \<and> k \<le> 6} = {2, 5, 6}"
    by (auto simp: rec_map_def sample_map_def split: if_splits)
  have "rec_map sample_map 2 \<noteq> None" by (simp add: rec_map_def sample_map_def)
  with find_range_sound [OF s(2,3), of "new_array 5" 5 "new_array 5" 2 6] obtain rk rp E where
    "find_range 4 h root 2 6 (new_array 5) (new_array 5) = Some (rk, rp, length (E :: (int \<times> addr) list))" "fst ` set E = {2, 5, 6}"
    unfolding d by auto
  with s(1) show ?thesis by blast
qed


text \<open>
  C8: \<open>destroy_tree\<close> on a nonempty tree returns \<open>NULL\<close> and has freed every node and every
  record, none of them twice: the heap is empty afterwards.
\<close>

theorem destroy_tree_frees_everything:
  assumes "is_map ord h root m" "root \<noteq> NULL"
  shows "\<exists>h'. destroy_tree h root = Some (NULL, h') \<and> nodes h' = Map.empty \<and> recs h' = Map.empty"
  using destroy_tree_map [OF assms] by blast

theorem destroy_tree_frees_everything_witness:
  "\<exists>root h h'. sample_tree = Some (root, h) \<and> destroy_tree h root = Some (NULL, h') \<and> nodes h' = Map.empty"
  using sample_tree destroy_tree_frees_everything [where ord = 4 and m = "rec_map sample_map"] by blast

text \<open>
  Whatever key is searched, the number of parent pointers from the leaf of the search to
  the root (\<open>path_to_root\<close>) is the height that \<open>height\<close> computes along the first children.
\<close>

theorem leaves_are_at_the_height:
  assumes "is_map ord h root m" "root \<noteq> NULL"
  shows "\<exists>d leaf. find_leaf h root key = Some leaf \<and> path_to_root h root leaf = Some d \<and> height_bpt h root = Some d"
  using assms by (rule path_to_root_leaf)

theorem leaves_are_at_the_height_witness:
  "\<exists>root h d leaf. sample_tree = Some (root, h) \<and> find_leaf h root 6 = Some leaf \<and> path_to_root h root leaf = Some d \<and> height_bpt h root = Some d"
  using sample_tree leaves_are_at_the_height [where ord = 4 and m = "rec_map sample_map" and key = 6] by blast

end
