(* ===== verification/BPTree_Print.thy ===== *)
theory BPTree_Print
  imports BPTree_Scan
begin

text \<open>
  The printing of \<^verbatim>\<open>bptree/main.c\<close>: the queue of nodes that \<open>print_tree\<close> threads through the
  \<open>next\<close> fields of the tree itself, the tree in level order, and the answers of the find commands.
  The output is a list of tokens; the verbose flag is off.
\<close>

section \<open>The queue\<close>

definition set_next :: "('k, 'r) heap \<Rightarrow> addr \<Rightarrow> addr \<Rightarrow> ('k, 'r) heap option" where
  "set_next h p q = do { n \<leftarrow> nodes h p; Some (put h p (n\<lparr>qnext := q\<rparr>)) }"

partial_function (option) queue_end :: "('k, 'r) heap \<Rightarrow> addr \<Rightarrow> addr option" where
  "queue_end h c = do {
     n \<leftarrow> nodes h c;
     if qnext n \<noteq> NULL then queue_end h (qnext n) else Some c
   }"

definition enqueue :: "addr \<Rightarrow> ('k, 'r) heap \<Rightarrow> addr \<Rightarrow> (addr \<times> ('k, 'r) heap) option" where
  "enqueue queue h new_node =
     (if queue = NULL
      then do { h \<leftarrow> set_next h new_node NULL; Some (new_node, h) }
      else do {
        c \<leftarrow> queue_end h queue;
        h \<leftarrow> set_next h c new_node;
        h \<leftarrow> set_next h new_node NULL;
        Some (queue, h)
      })"

definition dequeue :: "addr \<Rightarrow> ('k, 'r) heap \<Rightarrow> (addr \<times> addr \<times> ('k, 'r) heap) option" where
  "dequeue queue h = do {
     n \<leftarrow> nodes h queue;
     h \<leftarrow> set_next h queue NULL;
     Some (queue, qnext n, h)
   }"

text \<open>\<open>for (; i < n; i++) enqueue(pointers[i]);\<close>\<close>

function enqueue_all :: "addr \<Rightarrow> ('k, 'r) heap \<Rightarrow> addr carray \<Rightarrow> nat \<Rightarrow> nat \<Rightarrow> (addr \<times> ('k, 'r) heap) option" where
  "enqueue_all queue h ps i n =
     (if i < n
      then do {
        p \<leftarrow> rd ps i;
        (queue, h) \<leftarrow> enqueue queue h p;
        enqueue_all queue h ps (Suc i) n
      }
      else Some (queue, h))"
  by pat_completeness auto
termination
  by (relation "measure (\<lambda>(queue, h, ps, i, n). n - i)") auto

declare enqueue_all.simps [simp del]

section \<open>print_tree\<close>

datatype 'k out = OKey 'k | OBar | ONewline | OEmptyTree

text \<open>The rank after a node, and whether it begins a new line.\<close>

definition next_rank :: "('k, 'r) heap \<Rightarrow> addr \<Rightarrow> addr \<Rightarrow> 'k node \<Rightarrow> nat \<Rightarrow> nat option" where
  "next_rank h root n nn rank =
     (if parent nn \<noteq> NULL
      then do {
        pn \<leftarrow> nodes h (parent nn);
        p0 \<leftarrow> rd (pointers pn) 0;
        if n = p0 then path_to_root h root n else Some rank
      }
      else Some rank)"

fun to_out :: "'k token \<Rightarrow> 'k out" where
  "to_out (Key k) = OKey k" | "to_out Bar = OBar"

partial_function (option) print_tree_loop ::
  "('k, 'r) heap \<Rightarrow> addr \<Rightarrow> addr \<Rightarrow> nat \<Rightarrow> ('k out list \<times> ('k, 'r) heap) option" where
  "print_tree_loop h root queue rank =
     (if queue = NULL then Some ([], h)
      else do {
        (n, queue, h) \<leftarrow> dequeue queue h;
        nn \<leftarrow> nodes h n;
        new_rank \<leftarrow> next_rank h root n nn rank;
        out \<leftarrow> print_keys (keys nn) 0 (num_keys nn);
        (queue, h) \<leftarrow> (if \<not> is_leaf nn then enqueue_all queue h (pointers nn) 0 (num_keys nn + 1) else Some (queue, h));
        (rest, h) \<leftarrow> print_tree_loop h root queue new_rank;
        Some ((if new_rank \<noteq> rank then [ONewline] else []) @ map to_out out @ OBar # rest, h)
      })"

definition print_tree :: "('k, 'r) heap \<Rightarrow> addr \<Rightarrow> ('k out list \<times> ('k, 'r) heap) option" where
  "print_tree h root =
     (if root = NULL then Some ([OEmptyTree], h)
      else do {
        (queue, h) \<leftarrow> enqueue NULL h root;
        (out, h) \<leftarrow> print_tree_loop h root queue 0;
        Some (out @ [ONewline], h)
      })"

section \<open>find_and_print and find_and_print_range\<close>

datatype 'k answer = Not_Found 'k | Found addr 'k int | None_Found

definition find_and_print :: "('k::linorder, bpt_record) heap \<Rightarrow> addr \<Rightarrow> 'k \<Rightarrow> 'k answer option" where
  "find_and_print h root key = do {
     (r, _) \<leftarrow> find_bpt h root key;
     if r = NULL then Some (Not_Found key)
     else do { rc \<leftarrow> recs h r; Some (Found r key (rec_value rc)) }
   }"

function print_range :: "('k, bpt_record) heap \<Rightarrow> 'k carray \<Rightarrow> addr carray \<Rightarrow> nat \<Rightarrow> nat \<Rightarrow> 'k answer list option" where
  "print_range h rk rp i n =
     (if i < n
      then do {
        k \<leftarrow> rd rk i;
        p \<leftarrow> rd rp i;
        rc \<leftarrow> recs h p;
        rest \<leftarrow> print_range h rk rp (Suc i) n;
        Some (Found p k (rec_value rc) # rest)
      }
      else Some [])"
  by pat_completeness auto
termination
  by (relation "measure (\<lambda>(h, rk, rp, i, n). n - i)") auto

declare print_range.simps [simp del]

text \<open>
  Keys are \<open>int\<close> here: the arrays get \<open>key_end - key_start + 1\<close> cells, a variable-length array whose
  size must be positive and fit in an \<open>int\<close>.
\<close>

definition find_and_print_range :: "nat \<Rightarrow> (int, bpt_record) heap \<Rightarrow> addr \<Rightarrow> int \<Rightarrow> int \<Rightarrow> int answer list option" where
  "find_and_print_range ord h root key_start key_end =
     (let array_size = key_end - key_start + 1 in
      if array_size \<le> 0 \<or> 2147483647 < array_size then None
      else do {
        (rk, rp, num_found) \<leftarrow> find_range ord h root key_start key_end (new_array (nat array_size)) (new_array (nat array_size));
        if num_found = 0 then Some [None_Found] else print_range h rk rp 0 num_found
      })"

declare queue_end.simps [code] print_tree_loop.simps [code]

end
