(* ===== verification/BPTree_Repl.thy ===== *)
theory BPTree_Repl
  imports BPTree_Print BPTree_Map
begin


text \<open>
  The program \<^verbatim>\<open>bptree/main.c\<close> around the tree: its arguments, the input file and the command loop. The
  standard input is the list of its characters; \<open>scanf\<close>, \<open>sscanf\<close> and \<open>fgets\<close> are modelled as the C library
  defines them, for the formats the program uses. A variable that has not been assigned is \<open>None\<close>; using it, a
  number outside the range of \<open>int\<close>, and the endless loop of a line that does not end are undefined. The verbose
  output is left out.
\<close>

section \<open>Input\<close>

definition newline :: char where "newline = char_of (10 :: nat)"

definition is_space :: "char \<Rightarrow> bool" where
  "is_space c \<longleftrightarrow> of_char c = (32 :: nat) \<or> (9 \<le> (of_char c :: nat) \<and> (of_char c :: nat) \<le> 13)"

definition is_digit :: "char \<Rightarrow> bool" where
  "is_digit c \<longleftrightarrow> 48 \<le> (of_char c :: nat) \<and> (of_char c :: nat) \<le> 57"

definition digits_value :: "string \<Rightarrow> int" where
  "digits_value ds = foldl (\<lambda>v d. 10 * v + (of_char d - 48)) 0 ds"

datatype scanned = Num int | No_Num | Too_Large

text \<open>The conversion \<open>%d\<close>: white space, a sign, digits. A sign without digits is consumed.\<close>

definition scan_d :: "string \<Rightarrow> scanned \<times> string" where
  "scan_d s =
    (let s = dropWhile is_space s;
         neg = (s \<noteq> [] \<and> hd s = CHR ''-'');
         s = (if s \<noteq> [] \<and> (hd s = CHR ''-'' \<or> hd s = CHR ''+'') then tl s else s);
         ds = takeWhile is_digit s;
         v = (if neg then - digits_value ds else digits_value ds)
     in (if ds = [] then No_Num else if v < - 2147483648 \<or> 2147483647 < v then Too_Large else Num v, dropWhile is_digit s))"

text \<open>\<open>fgets(buffer, 256, stdin)\<close>: at most 255 characters, up to and with a newline; nothing at the end of the input.\<close>

fun take_line :: "nat \<Rightarrow> string \<Rightarrow> string \<times> string" where
  "take_line 0 s = ([], s)"
| "take_line (Suc n) [] = ([], [])"
| "take_line (Suc n) (c # s) = (if c = newline then ([c], s) else let (l, r) = take_line n s in (c # l, r))"

definition fgets :: "string option \<Rightarrow> string \<Rightarrow> string option \<times> string" where
  "fgets buffer s = (if s = [] then (buffer, []) else let (l, r) = take_line 255 s in (Some l, r))"

text \<open>\<open>sscanf(buffer, "%d %d", &input_key, &input_key_2)\<close>: the numbers it assigns, of the string up to its first null character.\<close>

definition scan_two :: "string \<Rightarrow> int list option" where
  "scan_two buffer =
    (case scan_d (takeWhile (\<lambda>c. c \<noteq> char_of (0 :: nat)) buffer) of
      (Too_Large, _) \<Rightarrow> None
    | (No_Num, _) \<Rightarrow> Some []
    | (Num a, s) \<Rightarrow> (case scan_d s of (Too_Large, _) \<Rightarrow> None | (No_Num, _) \<Rightarrow> Some [a] | (Num b, _) \<Rightarrow> Some [a, b]))"

text \<open>\<open>while (getchar() != '\n');\<close>, which does not end at the end of the input.\<close>

definition skip_line :: "string \<Rightarrow> string option" where
  "skip_line s = (case dropWhile (\<lambda>c. c \<noteq> newline) s of [] \<Rightarrow> None | c # r \<Rightarrow> Some r)"

section \<open>The variables of main\<close>

record vars =
  input_key :: "int option"
  input_key_2 :: "int option"
  buffer :: "string option"

definition unset_vars :: vars where
  "unset_vars = \<lparr>input_key = None, input_key_2 = None, buffer = None\<rparr>"

text \<open>\<open>scanf("%d", &input_key)\<close>\<close>

definition scan_key :: "vars \<Rightarrow> string \<Rightarrow> (vars \<times> string) option" where
  "scan_key v inp =
    (case scan_d inp of
      (Num k, r) \<Rightarrow> Some (v\<lparr>input_key := Some k\<rparr>, r)
    | (No_Num, r) \<Rightarrow> Some (v, r)
    | (Too_Large, _) \<Rightarrow> None)"

text \<open>\<open>scanf("%d %d", &input_key, &input_key_2)\<close>, and the exchange that puts the smaller key first.\<close>

definition scan_keys :: "vars \<Rightarrow> string \<Rightarrow> (vars \<times> string) option" where
  "scan_keys v inp =
    (case scan_d inp of
      (Num k, r) \<Rightarrow> (case scan_d r of
          (Num k2, r') \<Rightarrow> Some (v\<lparr>input_key := Some k, input_key_2 := Some k2\<rparr>, r')
        | (No_Num, r') \<Rightarrow> Some (v\<lparr>input_key := Some k\<rparr>, r')
        | (Too_Large, _) \<Rightarrow> None)
    | (No_Num, r) \<Rightarrow> Some (v, r)
    | (Too_Large, _) \<Rightarrow> None)"

definition scan_bounds :: "vars \<Rightarrow> string \<Rightarrow> (vars \<times> string) option" where
  "scan_bounds v inp = do {
     (v, inp) \<leftarrow> scan_keys v inp;
     k \<leftarrow> input_key v;
     k2 \<leftarrow> input_key_2 v;
     Some (if k > k2 then v\<lparr>input_key := Some k2, input_key_2 := Some k\<rparr> else v, inp)
   }"

text \<open>The line of the command \<open>i\<close>: a key and a value, which is the key if there is only one number.\<close>

definition scan_entry :: "vars \<Rightarrow> string \<Rightarrow> (vars \<times> string) option" where
  "scan_entry v inp = do {
     let (buf, inp) = fgets (buffer v) inp;
     b \<leftarrow> buf;
     vs \<leftarrow> scan_two b;
     let v = v\<lparr>buffer := buf\<rparr>;
     Some (case vs of [] \<Rightarrow> v | [a] \<Rightarrow> v\<lparr>input_key := Some a, input_key_2 := Some a\<rparr>
                    | a # b # _ \<Rightarrow> v\<lparr>input_key := Some a, input_key_2 := Some b\<rparr>, inp)
   }"

section \<open>The commands\<close>

datatype repl_out = Tree "int out list" | Leaves "int token list" | Answers "int answer list" | Usage | Prompt

record session =
  s_root :: addr
  s_heap :: "(int, bpt_record) heap"
  s_vars :: vars
  verbose_output :: bool
  printed :: "repl_out list"

definition say :: "repl_out \<Rightarrow> session \<Rightarrow> session" where
  "say o' s = s\<lparr>printed := printed s @ [o']\<rparr>"

definition show_tree :: "session \<Rightarrow> session option" where
  "show_tree s = do { (o', h) \<leftarrow> print_tree (s_heap s) (s_root s); Some (say (Tree o') (s\<lparr>s_heap := h\<rparr>)) }"

definition do_delete :: "nat \<Rightarrow> session \<Rightarrow> string \<Rightarrow> (session \<times> string) option" where
  "do_delete ord s inp = do {
     (v, inp) \<leftarrow> scan_key (s_vars s) inp;
     k \<leftarrow> input_key v;
     (root, h) \<leftarrow> delete_bpt ord (s_heap s) (s_root s) k;
     s \<leftarrow> show_tree (s\<lparr>s_vars := v, s_root := root, s_heap := h\<rparr>);
     Some (s, inp)
   }"

definition do_insert :: "nat \<Rightarrow> session \<Rightarrow> string \<Rightarrow> (session \<times> string) option" where
  "do_insert ord s inp = do {
     (v, inp) \<leftarrow> scan_entry (s_vars s) inp;
     k \<leftarrow> input_key v;
     x \<leftarrow> input_key_2 v;
     (root, h) \<leftarrow> insert_bpt ord (s_heap s) (s_root s) k x;
     s \<leftarrow> show_tree (s\<lparr>s_vars := v, s_root := root, s_heap := h\<rparr>);
     Some (s, inp)
   }"

definition do_find :: "session \<Rightarrow> string \<Rightarrow> (session \<times> string) option" where
  "do_find s inp = do {
     (v, inp) \<leftarrow> scan_key (s_vars s) inp;
     k \<leftarrow> input_key v;
     a \<leftarrow> find_and_print (s_heap s) (s_root s) k;
     Some (say (Answers [a]) (s\<lparr>s_vars := v\<rparr>), inp)
   }"

definition do_range :: "nat \<Rightarrow> session \<Rightarrow> string \<Rightarrow> (session \<times> string) option" where
  "do_range ord s inp = do {
     (v, inp) \<leftarrow> scan_bounds (s_vars s) inp;
     k \<leftarrow> input_key v;
     k2 \<leftarrow> input_key_2 v;
     as \<leftarrow> find_and_print_range ord (s_heap s) (s_root s) k k2;
     Some (say (Answers as) (s\<lparr>s_vars := v\<rparr>), inp)
   }"

definition do_leaves :: "nat \<Rightarrow> session \<Rightarrow> session option" where
  "do_leaves ord s = do { o' \<leftarrow> print_leaves ord (s_heap s) (s_root s); Some (say (Leaves o') s) }"

definition do_destroy :: "session \<Rightarrow> session option" where
  "do_destroy s = do {
     (root, h) \<leftarrow> (if s_root s \<noteq> NULL then destroy_tree (s_heap s) (s_root s) else Some (s_root s, s_heap s));
     show_tree (s\<lparr>s_root := root, s_heap := h\<rparr>)
   }"

definition do_command :: "nat \<Rightarrow> char \<Rightarrow> session \<Rightarrow> string \<Rightarrow> (session \<times> string) option" where
  "do_command ord c s inp =
    (if c = CHR ''d'' then do_delete ord s inp
     else if c = CHR ''f'' \<or> c = CHR ''p'' then do_find s inp
     else if c = CHR ''r'' then do_range ord s inp
     else if c = CHR ''l'' then do { s \<leftarrow> do_leaves ord s; Some (s, inp) }
     else if c = CHR ''t'' then do { s \<leftarrow> show_tree s; Some (s, inp) }
     else if c = CHR ''v'' then Some (s\<lparr>verbose_output := \<not> verbose_output s\<rparr>, inp)
     else if c = CHR ''x'' then do { s \<leftarrow> do_destroy s; Some (s, inp) }
     else Some (say Usage s, inp))"

text \<open>
  The loop, on the characters of the input; it ends at the end of the input or at \<open>q\<close>. The command \<open>i\<close> reads its
  line itself, after the others the rest of the line is skipped.
\<close>

partial_function (option) command_loop :: "nat \<Rightarrow> session \<Rightarrow> string \<Rightarrow> session option" where
  "command_loop ord s inp =
    (case inp of
      [] \<Rightarrow> Some s
    | c # inp \<Rightarrow>
        if c = CHR ''q'' then do { _ \<leftarrow> skip_line inp; Some s }
        else if c = CHR ''i'' then do {
          (s, inp) \<leftarrow> do_insert ord s inp;
          command_loop ord (say Prompt s) inp
        }
        else do {
          (s, inp) \<leftarrow> do_command ord c s inp;
          inp \<leftarrow> skip_line inp;
          command_loop ord (say Prompt s) inp
        })"

section \<open>main\<close>

text \<open>The input file: \<open>fscanf\<close> reads a number and the white space after it; the loop ends when it has met the end of the file.\<close>

definition fscanf_key :: "vars \<Rightarrow> string \<Rightarrow> (vars \<times> string) option" where
  "fscanf_key v file = do {
     (v, r) \<leftarrow> scan_key v file;
     Some (v, case fst (scan_d file) of Num _ \<Rightarrow> dropWhile is_space r | _ \<Rightarrow> r)
   }"

partial_function (option) load_file :: "nat \<Rightarrow> session \<Rightarrow> string \<Rightarrow> session option" where
  "load_file ord s file = do {
     (v, r) \<leftarrow> fscanf_key (s_vars s) file;
     k \<leftarrow> input_key v;
     (root, h) \<leftarrow> insert_bpt ord (s_heap s) (s_root s) k k;
     let s = s\<lparr>s_vars := v, s_root := root, s_heap := h\<rparr>;
     if r = [] then Some s else load_file ord s r
   }"

definition start_session :: session where
  "start_session = \<lparr>s_root = NULL, s_heap = empty_heap, s_vars = unset_vars, verbose_output = False, printed = []\<rparr>"

datatype exit_status = Success | Failure

text \<open>
  \<open>main\<close> with the order of its first argument, if any, the content of the file of its second (\<open>Some None\<close>: it cannot be
  opened), and the input.
\<close>

definition main :: "int option \<Rightarrow> string option option \<Rightarrow> string \<Rightarrow> (exit_status \<times> session) option" where
  "main arg file inp =
    (let order = (case arg of None \<Rightarrow> 4 | Some n \<Rightarrow> n) in
     if order < 3 \<or> 20 < order then Some (Failure, say Usage start_session)
     else case file of
       Some None \<Rightarrow> Some (Failure, start_session)
     | Some (Some content) \<Rightarrow> do {
         s \<leftarrow> load_file (nat order) start_session content;
         s \<leftarrow> show_tree s;
         Some (Success, s)
       }
     | None \<Rightarrow> do { s \<leftarrow> command_loop (nat order) (say Prompt (say Usage start_session)) inp; Some (Success, s) })"

declare command_loop.simps [code] load_file.simps [code]

end
