(* ===== verification/BPTree_Levels.thy ===== *)
theory BPTree_Levels
  imports BPTree_Print
begin


text \<open>
  \<open>print_tree\<close> prints the tree level by level. The nodes in the queue are the rest of a level and the children of
  the nodes of the level that have been printed; the queue runs through the \<open>next\<close> fields, which nothing else uses,
  so that the tree afterwards holds the map it held.
\<close>

section \<open>Heaps that differ in the \<open>next\<close> fields\<close>

definition strip :: "'k node option \<Rightarrow> 'k node option" where
  "strip x = map_option (\<lambda>n. n\<lparr>qnext := NULL\<rparr>) x"

definition only_next :: "('k, 'r) heap \<Rightarrow> ('k, 'r) heap \<Rightarrow> bool" where
  "only_next h h' \<longleftrightarrow> (\<forall>a. strip (nodes h' a) = strip (nodes h a)) \<and> h' = h\<lparr>nodes := nodes h'\<rparr>"

lemma only_next_refl [simp]: "only_next h h"
  by (simp add: only_next_def)

lemma only_next_trans: "only_next h h' \<Longrightarrow> only_next h' h'' \<Longrightarrow> only_next h h''"
  unfolding only_next_def by (metis heap.surjective heap.update_convs(1))

lemma strip_Some:
  assumes "strip x = strip (Some n)"
  shows "\<exists>n'. x = Some n' \<and> pointers n' = pointers n \<and> keys n' = keys n \<and> parent n' = parent n \<and> is_leaf n' = is_leaf n \<and> num_keys n' = num_keys n"
proof (cases x)
  case None
  with assms show ?thesis by (simp add: strip_def)
next
  case (Some n')
  with assms have "n'\<lparr>qnext := NULL\<rparr> = n\<lparr>qnext := NULL\<rparr>" by (simp add: strip_def)
  with Some show ?thesis by (cases n; cases n') auto
qed

lemma strip_None: "strip x = strip y \<Longrightarrow> x = None \<longleftrightarrow> y = None"
  by (simp add: strip_def) (metis option.map_disc_iff)

lemma rep_strip:
  assumes "rep ord N par t" "\<And>a. strip (N' a) = strip (N a)"
  shows "rep ord N' par t"
  using assms(1)
proof (induction t arbitrary: par)
  case (Lf a es)
  then obtain n where "N a = Some n" by auto
  with strip_Some [of "N' a" n] assms(2) [of a] Lf show ?case by auto
next
  case (Nd a ks cs)
  then obtain n where "N a = Some n" by auto
  with strip_Some [of "N' a" n] assms(2) [of a] Nd show ?case by auto
qed

lemma fr_rep_strip:
  assumes "fr_rep ord N par hole f" "\<And>a. strip (N' a) = strip (N a)"
  shows "fr_rep ord N' par hole f"
proof (cases f)
  case (Fr a ksl csl ksr csr)
  with assms(1) obtain n where "N a = Some n" by auto
  with strip_Some [of "N' a" n] assms(2) [of a] assms(1) Fr rep_strip [OF _ assms(2)] show ?thesis by auto
qed

lemma ctx_rep_strip: "ctx_rep ord N hole fs \<Longrightarrow> (\<And>a. strip (N' a) = strip (N a)) \<Longrightarrow> ctx_rep ord N' hole fs"
  by (induction fs arbitrary: hole) (auto intro: fr_rep_strip)

lemma ptrs_strip: "(\<And>a. strip (N' a) = strip (N a)) \<Longrightarrow> ptrs N' = ptrs N"
proof
  fix a assume "\<And>a. strip (N' a) = strip (N a)"
  then have "strip (N' a) = strip (N a)" .
  then show "ptrs N' a = ptrs N a"
    using strip_Some [of "N' a"] strip_None [of "N' a" "N a"] by (cases "N a") (auto simp: ptrs_def)
qed

lemma shape_only_next:
  assumes "shape ord (nodes h) t d" "only_next h h'"
  shows "shape ord (nodes h') t d"
proof -
  have s: "strip (nodes h' a) = strip (nodes h a)" for a using assms(2) by (simp add: only_next_def)
  have "dom (nodes h') = dom (nodes h)" by (simp only: dom_def strip_None [OF s])
  then show ?thesis using assms(1) rep_strip [of ord "nodes h" _ _ "nodes h'"] ptrs_strip [of "nodes h'" "nodes h"] s by (simp add: shape_def)
qed

lemma is_map_only_next:
  assumes "is_map ord h root m" "only_next h h'"
  shows "is_map ord h' root m"
proof -
  have s: "strip (nodes h' a) = strip (nodes h a)" for a using assms(2) by (simp add: only_next_def)
  have h': "h' = h\<lparr>nodes := nodes h'\<rparr>" using assms(2) by (simp add: only_next_def)
  then have f: "recs h' = recs h" "brk h' = brk h" "oom h' = oom h" by (metis heap.ext_inject heap.surjective heap.update_convs(1))+
  have d: "dom (nodes h') = dom (nodes h)" by (simp only: dom_def strip_None [OF s])
  have ok: "heap_ok h' = heap_ok h" by (simp add: heap_ok_def f d)
  have n: "nodes h' = Map.empty \<longleftrightarrow> nodes h = Map.empty" using d by (metis dom_eq_empty_conv)
  have t: "holds_tree ord h root t d \<Longrightarrow> holds_tree ord h' root t d" for t d
    using shape_only_next [OF _ assms(2)] by (simp add: holds_tree_def f)
  have m: "bpt_map h' t = bpt_map h t" for t by (simp add: bpt_map_def f)
  show ?thesis using assms(1) t unfolding is_map_def ok n f m by (auto split: if_splits)
qed

lemma set_next_only:
  assumes "nodes h p = Some n"
  shows "set_next h p q = Some (put h p (n\<lparr>qnext := q\<rparr>))" "only_next h (put h p (n\<lparr>qnext := q\<rparr>))"
  using assms by (simp_all add: set_next_def only_next_def put_def strip_def)

section \<open>The queue\<close>

fun qlist :: "(addr \<rightharpoonup> 'k node) \<Rightarrow> addr \<Rightarrow> addr list \<Rightarrow> bool" where
  "qlist N q [] \<longleftrightarrow> q = NULL"
| "qlist N q (a # as) \<longleftrightarrow> q = a \<and> a \<noteq> NULL \<and> (\<exists>n. N a = Some n \<and> qlist N (qnext n) as)"

lemma qlist_upd [simp]: "b \<notin> set as \<Longrightarrow> qlist (N(b := x)) q as = qlist N q as"
  by (induction as arbitrary: q) auto

lemma qlist_hd: "qlist N q as \<Longrightarrow> as \<noteq> [] \<Longrightarrow> q = hd as"
  by (cases as) auto

lemma queue_end_list:
  assumes "qlist (nodes h) q as" "as \<noteq> []"
  shows "queue_end h q = Some (last as)"
  using assms
proof (induction as arbitrary: q)
  case (Cons a as)
  then obtain n where n: "nodes h a = Some n" "qlist (nodes h) (qnext n) as" "q = a" by auto
  show ?case
  proof (cases as)
    case Nil
    with n show ?thesis by (subst queue_end.simps) simp
  next
    case (Cons b bs)
    with n have "qnext n \<noteq> NULL" by auto
    with n Cons.IH [OF n(2)] Cons show ?thesis by (subst queue_end.simps) simp
  qed
qed simp

lemma qlist_snoc:
  assumes "qlist N q as" "as \<noteq> []" "N (last as) = Some n" "N p = Some np" "p \<notin> set as" "distinct as" "p \<noteq> NULL"
  shows "qlist (N(last as \<mapsto> n\<lparr>qnext := p\<rparr>, p \<mapsto> np\<lparr>qnext := NULL\<rparr>)) q (as @ [p])"
  using assms
proof (induction as arbitrary: q)
  case (Cons a as)
  show ?case
  proof (cases as)
    case Nil
    with Cons.prems show ?thesis by auto
  next
    case (Cons b bs)
    obtain m where m: "N a = Some m" "qlist N (qnext m) as" using Cons.prems(1) by auto
    have "last as \<noteq> a" using Cons.prems(6) Cons by (metis distinct.simps(2) last_in_set list.distinct(1))
    moreover have "p \<noteq> a" using Cons.prems(5) by auto
    moreover define N' where "N' = N(last as \<mapsto> n\<lparr>qnext := p\<rparr>, p \<mapsto> np\<lparr>qnext := NULL\<rparr>)"
    moreover have "qlist (N(last as \<mapsto> n\<lparr>qnext := p\<rparr>, p \<mapsto> np\<lparr>qnext := NULL\<rparr>)) (qnext m) (as @ [p])"
      using Cons.prems m(2) Cons by (intro Cons.IH) auto
    ultimately have N': "N' a = Some m" "qlist N' (qnext m) (as @ [p])" using m(1) by simp_all
    have l: "last (a # as) = last as" using Cons by simp
    have "q = a" "a \<noteq> NULL" using Cons.prems(1) by simp_all
    with N' show ?thesis unfolding l N'_def [symmetric] append_Cons qlist.simps by blast
  qed
qed simp

lemma enqueue_list:
  assumes "qlist (nodes h) q as" "distinct (as @ [p])" "nodes h p \<noteq> None" "p \<noteq> NULL"
  shows "\<exists>q' h'. enqueue q h p = Some (q', h') \<and> qlist (nodes h') q' (as @ [p]) \<and> only_next h h'"
proof -
  obtain np where np: "nodes h p = Some np" using assms(3) by auto
  show ?thesis
  proof (cases "as = []")
    case True
    then have "q = NULL" using assms(1) by simp
    then show ?thesis using set_next_only [OF np] True assms(4) by (auto simp: enqueue_def put_def)
  next
    case False
    have "qlist N q as \<Longrightarrow> as \<noteq> [] \<Longrightarrow> q \<noteq> NULL \<and> N (last as) \<noteq> None" for N :: "addr \<rightharpoonup> 'a node" and q
      by (induction as arbitrary: q) auto
    from this [OF assms(1) False] obtain n where n: "q \<noteq> NULL" "nodes h (last as) = Some n" by auto
    let ?h1 = "put h (last as) (n\<lparr>qnext := p\<rparr>)"
    have "last as \<noteq> p" using assms(2) False by auto
    then have np1: "nodes ?h1 p = Some np" using np by (simp add: put_def)
    have "enqueue q h p = Some (q, put ?h1 p (np\<lparr>qnext := NULL\<rparr>))"
      using n set_next_only(1) [OF n(2)] set_next_only(1) [OF np1] queue_end_list [OF assms(1) False] by (simp add: enqueue_def)
    moreover have "only_next h (put ?h1 p (np\<lparr>qnext := NULL\<rparr>))"
      using set_next_only(2) [OF n(2)] set_next_only(2) [OF np1] by (rule only_next_trans)
    moreover have "qlist (nodes (put ?h1 p (np\<lparr>qnext := NULL\<rparr>))) q (as @ [p])"
      using qlist_snoc [OF assms(1) False n(2) np] assms(2,4) by (simp add: put_def)
    ultimately show ?thesis by blast
  qed
qed

lemma dequeue_list:
  assumes "qlist (nodes h) q (a # as)" "distinct (a # as)"
  shows "\<exists>q' h'. dequeue q h = Some (a, q', h') \<and> qlist (nodes h') q' as \<and> only_next h h'"
proof -
  obtain n where n: "q = a" "nodes h a = Some n" "qlist (nodes h) (qnext n) as" using assms(1) by auto
  then show ?thesis using set_next_only [OF n(2), of NULL] assms(2) by (auto simp: dequeue_def put_def)
qed

lemma enqueue_all_list:
  assumes "qlist (nodes h) q as" "arr L bs ps" "distinct (as @ drop i bs)" "\<forall>b \<in> set (drop i bs). nodes h b \<noteq> None \<and> b \<noteq> NULL" "i \<le> length bs"
  shows "\<exists>q' h'. enqueue_all q h ps i (length bs) = Some (q', h') \<and> qlist (nodes h') q' (as @ drop i bs) \<and> only_next h h'"
  using assms
proof (induction "length bs - i" arbitrary: i q h as)
  case 0
  then show ?case by (subst enqueue_all.simps) auto
next
  case (Suc k)
  then have i: "i < length bs" by simp
  then have d: "drop i bs = bs ! i # drop (Suc i) bs" by (simp add: Cons_nth_drop_Suc)
  obtain q1 h1 where e: "enqueue q h (bs ! i) = Some (q1, h1)" "qlist (nodes h1) q1 (as @ [bs ! i])" "only_next h h1"
    using enqueue_list [OF Suc.prems(1), of "bs ! i"] Suc.prems(3,4) d by auto
  have "nodes h1 b \<noteq> None \<longleftrightarrow> nodes h b \<noteq> None" for b using e(3) strip_None unfolding only_next_def by metis
  then have "\<exists>q' h'. enqueue_all q1 h1 ps (Suc i) (length bs) = Some (q', h') \<and> qlist (nodes h') q' ((as @ [bs ! i]) @ drop (Suc i) bs) \<and> only_next h1 h'"
    using Suc.hyps(2) Suc.prems(2-4) d i e(2) by (intro Suc.hyps(1)) auto
  then obtain q' h' where "enqueue_all q1 h1 ps (Suc i) (length bs) = Some (q', h')" "qlist (nodes h') q' (as @ drop i bs)" "only_next h1 h'"
    using d by auto
  with e show ?case using i arr_rd [OF Suc.prems(2) i] by (subst enqueue_all.simps) (auto intro: only_next_trans)
qed


section \<open>Level order\<close>

fun node_keys :: "'k bt \<Rightarrow> 'k list" where
  "node_keys (Lf a es) = map fst es"
| "node_keys (Nd a ks cs) = ks"

fun kids :: "'k bt \<Rightarrow> 'k bt list" where
  "kids (Lf a es) = []"
| "kids (Nd a ks cs) = cs"

definition node_out :: "'k bt \<Rightarrow> 'k out list" where
  "node_out t = map OKey (node_keys t) @ [OBar]"

fun level_order :: "nat \<Rightarrow> 'k bt list \<Rightarrow> 'k out list" where
  "level_order 0 ts = concat (map node_out ts)"
| "level_order (Suc d) ts = concat (map node_out ts) @ ONewline # level_order d (concat (map kids ts))"

lemma to_out_Key: "map to_out (map Key ks) = map OKey ks"
  by (induction ks) auto

text \<open>A subtree \<open>k\<close> levels below the root.\<close>

definition below :: "'k bt \<Rightarrow> nat \<Rightarrow> 'k bt \<Rightarrow> bool" where
  "below T k t \<longleftrightarrow> (\<exists>fs. T = zip_up t fs \<and> length fs = k)"

definition first_child :: "'k bt \<Rightarrow> 'k bt \<Rightarrow> bool" where
  "first_child T t \<longleftrightarrow> (\<exists>a ks cs fs. T = zip_up t (Fr a [] [] ks cs # fs))"

lemma below_0: "below T 0 t \<longleftrightarrow> t = T"
  by (auto simp: below_def)

lemma below_kids:
  assumes "below T k t" "c \<in> set (kids t)" "fits ord r d t"
  shows "below T (Suc k) c"
proof -
  obtain fs where fs: "T = zip_up t fs" "length fs = k" using assms(1) by (auto simp: below_def)
  obtain a ks cs where t: "t = Nd a ks cs" using assms(2) by (cases t) auto
  obtain xs ys where cs: "cs = xs @ c # ys" using assms(2) t by (auto dest: split_list)
  have len: "length xs \<le> length ks" using assms(3) t cs by simp
  have "plug (Fr a (take (length xs) ks) xs (drop (length xs) ks) ys) c = t" by (simp add: t cs)
  then have "T = zip_up c (Fr a (take (length xs) ks) xs (drop (length xs) ks) ys # fs)" using fs(1) by simp
  then show ?thesis unfolding below_def using fs(2) by (intro exI [of _ "Fr a (take (length xs) ks) xs (drop (length xs) ks) ys # fs"]) simp
qed

lemma first_child_kids:
  assumes "below T k t" "kids t = c # cs'"
  shows "first_child T c"
proof -
  obtain fs where fs: "T = zip_up t fs" using assms(1) by (auto simp: below_def)
  obtain a ks where t: "t = Nd a ks (c # cs')" using assms(2) by (cases t) auto
  have "T = zip_up c (Fr a [] [] ks cs' # fs)" using fs t by simp
  then show ?thesis unfolding first_child_def by blast
qed

lemma next_rank_below:
  assumes s: "shape ord (nodes h) T D" and b: "below T k t" and n: "nodes h (root_of t) = Some n"
    and ok: "NULL \<notin> set (addrs T)"
  shows "\<exists>r'. next_rank h (root_of T) (root_of t) n r = Some r' \<and> (r' = r \<or> r' = k)"
    "first_child T t \<Longrightarrow> next_rank h (root_of T) (root_of t) n r = Some k"
    "k = 0 \<Longrightarrow> next_rank h (root_of T) (root_of t) n r = Some r"
proof -
  obtain fs where fs: "T = zip_up t fs" "length fs = k" using b by (auto simp: below_def)
  have rp: "rep ord (nodes h) (top_addr fs) t" "ctx_rep ord (nodes h) (root_of t) fs" and d: "distinct (addrs t @ ctx_addrs fs)"
    using s fs(1) by (simp_all add: shape_def rep_zip_up distinct_zip_up)
  have par: "parent n = top_addr fs" using rep_node [OF rp(1)] n by auto
  have path: "path_to_root h (root_of T) (root_of t) = Some k"
    using path_up [OF rp d fs(1) [THEN arg_cong [where f = root_of]], of 0] fs(2) by (simp add: path_to_root_def)
  show "k = 0 \<Longrightarrow> next_rank h (root_of T) (root_of t) n r = Some r" using par fs(2) by (simp add: next_rank_def)
  {
    fix f fs' assume f: "fs = f # fs'"
    obtain a ksl csl ksr csr where F: "f = Fr a ksl csl ksr csr" by (cases f)
    obtain pn where pn: "nodes h a = Some pn" "arr ord (map root_of csl @ root_of t # map root_of csr) (pointers pn)"
      using rp(2) f F by auto
    have "a \<in> set (addrs T)" using fs(1) f F by (simp add: set_addrs_zip_up)
    then have "a \<noteq> NULL" using ok by metis
    have "next_rank h (root_of T) (root_of t) n r = (if root_of t = (map root_of csl @ root_of t # map root_of csr) ! 0 then Some k else Some r)"
      using par f F pn \<open>a \<noteq> NULL\<close> arr_rd [OF pn(2), of 0] path by (simp add: next_rank_def)
    then have "\<exists>x. next_rank h (root_of T) (root_of t) n r = (if root_of t = x then Some k else Some r)" by blast
  }
  note nr = this
  show "\<exists>r'. next_rank h (root_of T) (root_of t) n r = Some r' \<and> (r' = r \<or> r' = k)"
  proof (cases fs)
    case Nil
    then show ?thesis using par by (simp add: next_rank_def)
  next
    case (Cons f fs')
    from nr [OF this] obtain x where "next_rank h (root_of T) (root_of t) n r = (if root_of t = x then Some k else Some r)" by blast
    then show ?thesis by (cases "root_of t = x") auto
  qed
  assume "first_child T t"
  then obtain a ks cs fs2 where T: "T = zip_up t (Fr a [] [] ks cs # fs2)" by (auto simp: first_child_def)
  have "rep ord (nodes h) (top_addr (Fr a [] [] ks cs # fs2)) t" "ctx_rep ord (nodes h) (root_of t) (Fr a [] [] ks cs # fs2)"
    and d2: "distinct (addrs t @ ctx_addrs (Fr a [] [] ks cs # fs2))"
    using s T unfolding shape_def by (simp_all only: rep_zip_up distinct_zip_up)
  then obtain pn where pn: "nodes h a = Some pn" "arr ord (root_of t # map root_of cs) (pointers pn)" "parent n = a"
    using n rep_node [of ord "nodes h" a t] by auto
  have "a \<in> set (addrs T)" using T by (simp add: set_addrs_zip_up)
  then have "a \<noteq> NULL" using ok by metis
  then show "next_rank h (root_of T) (root_of t) n r = Some k"
    using pn arr_rd [OF pn(2), of 0] path by (simp add: next_rank_def)
qed


lemma addrs_kids: "mset (addrs t) = add_mset (root_of t) (mset (concat (map addrs (kids t))))"
  by (cases t) auto

lemma roots_in_addrs: "set (map root_of ts) \<subseteq> set (concat (map addrs ts))"
  by auto

lemma distinct_level_roots: "distinct (concat (map addrs ts)) \<Longrightarrow> distinct (map root_of ts)"
proof (induction ts)
  case (Cons t ts)
  then have "set (addrs t) \<inter> set (concat (map addrs ts)) = {}" by simp
  then have "root_of t \<notin> set (map root_of ts)" using root_in_addrs [of t] roots_in_addrs [of ts] by blast
  with Cons show ?case by simp
qed simp

text \<open>The queue: subtrees of \<open>T\<close> that share no node.\<close>

definition queued :: "('k, 'r) heap \<Rightarrow> 'k bt \<Rightarrow> nat \<Rightarrow> nat \<Rightarrow> addr \<Rightarrow> 'k bt list \<Rightarrow> bool" where
  "queued h T ord D q ts \<longleftrightarrow> shape ord (nodes h) T D \<and> NULL \<notin> set (addrs T) \<and> qlist (nodes h) q (map root_of ts) \<and>
    distinct (concat (map addrs ts)) \<and> set (concat (map addrs ts)) \<subseteq> set (addrs T)"

lemma print_one:
  fixes h :: "('k, 'r) heap"
  assumes q: "queued h T ord D q (t # ts)" and b: "below T k t" and f: "fits ord r0 d t"
    and r: "\<And>(h :: ('k, 'r) heap) n. shape ord (nodes h) T D \<Longrightarrow> nodes h (root_of t) = Some n \<Longrightarrow> next_rank h (root_of T) (root_of t) n rank = Some rank'"
  shows "\<exists>q' h'. queued h' T ord D q' (ts @ kids t) \<and> only_next h h' \<and>
    print_tree_loop h (root_of T) q rank =
      map_option (\<lambda>(o', h). ((if rank' \<noteq> rank then [ONewline] else []) @ node_out t @ o', h)) (print_tree_loop h' (root_of T) q' rank')"
proof -
  have s: "shape ord (nodes h) T D" and nn: "NULL \<notin> set (addrs T)" using q by (simp_all add: queued_def)
  obtain fs where fs: "T = zip_up t fs" using b by (auto simp: below_def)
  have rep: "rep ord (nodes h) (top_addr fs) t" using s fs by (simp add: shape_def rep_zip_up)
  then obtain n where n: "nodes h (root_of t) = Some n" "parent n = top_addr fs" by (rule rep_node)
  have rr: "root_of t \<noteq> NULL" using n(1) q by (auto simp: queued_def)
  have dl: "qlist (nodes h) q (root_of t # map root_of ts)" "distinct (root_of t # map root_of ts)"
    using q distinct_level_roots [of "t # ts"] by (simp_all add: queued_def)
  from dequeue_list [OF dl] obtain q1 h1 where d1: "dequeue q h = Some (root_of t, q1, h1)" "qlist (nodes h1) q1 (map root_of ts)" "only_next h h1"
    by blast
  have s1: "shape ord (nodes h1) T D" by (rule shape_only_next [OF s d1(3)])
  then have rep1: "rep ord (nodes h1) (top_addr fs) t" using fs by (simp add: shape_def rep_zip_up)
  obtain n1 where n1: "nodes h1 (root_of t) = Some n1" "parent n1 = parent n"
    using rep1 n(2) by (auto elim: rep_node)
  have nr: "next_rank h1 (root_of T) (root_of t) n1 rank = Some rank'" by (rule r [OF s1 n1(1)])
  have dist: "distinct (concat (map addrs (ts @ kids t)))" "set (concat (map addrs (ts @ kids t))) \<subseteq> set (addrs T)"
  proof -
    have "mset (concat (map addrs (t # ts))) = add_mset (root_of t) (mset (concat (map addrs (ts @ kids t))))"
      by (simp add: addrs_kids [of t] add.commute)
    then have m: "mset (concat (map addrs (t # ts))) = mset (root_of t # concat (map addrs (ts @ kids t)))" by simp
    from mset_eq_imp_distinct_iff [OF this] q show "distinct (concat (map addrs (ts @ kids t)))" by (simp add: queued_def)
    from mset_eq_setD [OF m] q show "set (concat (map addrs (ts @ kids t))) \<subseteq> set (addrs T)" by (auto simp: queued_def)
  qed
  have sub: "set (map root_of (kids t)) \<subseteq> set (addrs T)"
    using roots_in_addrs [of "kids t"] dist(2) unfolding map_append concat_append set_append Un_subset_iff by (blast intro: subset_trans)
  have dom: "nodes h1 a \<noteq> None" if "a \<in> set (addrs T)" for a using s1 that by (auto simp: shape_def)
  have "\<exists>q2 h2. (if \<not> is_leaf n1 then enqueue_all q1 h1 (pointers n1) 0 (num_keys n1 + 1) else Some (q1, h1)) = Some (q2, h2) \<and>
    qlist (nodes h2) q2 (map root_of (ts @ kids t)) \<and> only_next h1 h2 \<and> print_keys (keys n1) 0 (num_keys n1) = Some (map Key (node_keys t))"
  proof (cases t)
    case (Lf a es)
    then have "is_leaf n1" "num_keys n1 = length (map fst es)" "arr (ord - 1) (map fst es) (keys n1)" using rep1 n1(1) by auto
    with print_keys_arr [OF this(3), of 0] d1(2) Lf show ?thesis by (simp del: length_map)
  next
    case (Nd a ks cs)
    then have nd: "\<not> is_leaf n1" "num_keys n1 = length ks" "arr (ord - 1) ks (keys n1)" "arr ord (map root_of cs) (pointers n1)" "length cs = Suc (length ks)"
      using rep1 n1(1) by auto
    have "distinct (map root_of (ts @ cs))" using distinct_level_roots [OF dist(1)] Nd by simp
    moreover have "\<forall>b \<in> set (map root_of cs). nodes h1 b \<noteq> None \<and> b \<noteq> NULL"
    proof
      fix b assume "b \<in> set (map root_of cs)"
      then have "b \<in> set (addrs T)" using sub Nd by auto
      then show "nodes h1 b \<noteq> None \<and> b \<noteq> NULL" using dom nn by metis
    qed
    ultimately have "\<exists>q' h'. enqueue_all q1 h1 (pointers n1) 0 (length (map root_of cs)) = Some (q', h') \<and> qlist (nodes h') q' (map root_of ts @ drop 0 (map root_of cs)) \<and> only_next h1 h'"
      by (intro enqueue_all_list [OF d1(2) nd(4)]) simp_all
    with nd print_keys_arr [OF nd(3), of 0] Nd show ?thesis by simp
  qed
  then obtain q2 h2 where e: "(if \<not> is_leaf n1 then enqueue_all q1 h1 (pointers n1) 0 (num_keys n1 + 1) else Some (q1, h1)) = Some (q2, h2)"
    "qlist (nodes h2) q2 (map root_of (ts @ kids t))" "only_next h1 h2" "print_keys (keys n1) 0 (num_keys n1) = Some (map Key (node_keys t))"
    by blast
  have "q \<noteq> NULL" using dl(1) by simp
  then have loop: "print_tree_loop h (root_of T) q rank =
      map_option (\<lambda>(o', h). ((if rank' \<noteq> rank then [ONewline] else []) @ node_out t @ o', h)) (print_tree_loop h2 (root_of T) q2 rank')"
    by (subst print_tree_loop.simps, simp only: d1(1) n1(1) nr e(4) bind.bind_lunit prod.case if_False)
      (simp only: e(1), simp add: to_out_Key node_out_def map_option_case split: option.split)
  have "queued h2 T ord D q2 (ts @ kids t)"
    using shape_only_next [OF s1 e(3)] nn e(2) dist by (simp only: queued_def simp_thms)
  then show ?thesis using only_next_trans [OF d1(3) e(3)] loop by blast
qed


text \<open>The nodes of a level once its first has been printed.\<close>

lemma print_level:
  fixes h :: "('k, 'r) heap"
  assumes "queued h T ord D q (ts @ us)" "\<forall>t \<in> set ts. below T k t \<and> fits ord r0 d t"
  shows "\<exists>q' h'. queued h' T ord D q' (us @ concat (map kids ts)) \<and> only_next h h' \<and>
    print_tree_loop h (root_of T) q k = map_option (\<lambda>(o', h). (concat (map node_out ts) @ o', h)) (print_tree_loop h' (root_of T) q' k)"
  using assms
proof (induction ts arbitrary: h q us)
  case Nil
  then show ?case by (intro exI [of _ q] exI [of _ h]) (simp add: option.map_ident split_def map_option_case split: option.split)
next
  case (Cons t ts)
  have b: "below T k t" "fits ord r0 d t" using Cons.prems(2) by simp_all
  have nn: "NULL \<notin> set (addrs T)" using Cons.prems(1) by (simp add: queued_def)
  have r: "next_rank h (root_of T) (root_of t) n k = Some k" if "shape ord (nodes h) T D" "nodes h (root_of t) = Some n" for h :: "('k, 'r) heap" and n
    using next_rank_below(1) [OF that(1) b(1) that(2) nn, of k] by auto
  have q: "queued h T ord D q (t # (ts @ us))" using Cons.prems(1) by simp
  obtain q1 h1 where 1: "queued h1 T ord D q1 ((ts @ us) @ kids t)" "only_next h h1"
    "print_tree_loop h (root_of T) q k = map_option (\<lambda>(o', h). (node_out t @ o', h)) (print_tree_loop h1 (root_of T) q1 k)"
    using print_one [OF q b r] by auto
  have q1: "queued h1 T ord D q1 (ts @ (us @ kids t))" using 1(1) by simp
  obtain q2 h2 where 2: "queued h2 T ord D q2 ((us @ kids t) @ concat (map kids ts))" "only_next h1 h2"
    "print_tree_loop h1 (root_of T) q1 k = map_option (\<lambda>(o', h). (concat (map node_out ts) @ o', h)) (print_tree_loop h2 (root_of T) q2 k)"
    using Cons.IH [OF q1] Cons.prems(2) by auto
  have "print_tree_loop h (root_of T) q k = map_option (\<lambda>(o', h). (concat (map node_out (t # ts)) @ o', h)) (print_tree_loop h2 (root_of T) q2 k)"
    unfolding 1(3) 2(3) by (simp add: option.map_comp comp_def split_def)
  with 2(1) only_next_trans [OF 1(2) 2(2)] show ?case by auto
qed

lemma print_levels:
  fixes h :: "('k, 'r) heap"
  assumes "queued h T ord D q ts" "\<forall>t \<in> set ts. below T k t \<and> fits ord r0 d t" "ts \<noteq> []"
    and "\<And>(h :: ('k, 'r) heap) n. shape ord (nodes h) T D \<Longrightarrow> nodes h (root_of (hd ts)) = Some n \<Longrightarrow> next_rank h (root_of T) (root_of (hd ts)) n r = Some k"
  shows "\<exists>h'. only_next h h' \<and> print_tree_loop h (root_of T) q r = Some ((if k = r then [] else [ONewline]) @ level_order d ts, h')"
  using assms
proof (induction d arbitrary: h q ts k r r0)
  case (0 h q ts k r r0)
  obtain t ts' where ts: "ts = t # ts'" using "0.prems"(3) by (cases ts) auto
  obtain q1 h1 where 1: "queued h1 T ord D q1 (ts' @ kids t)" "only_next h h1"
    "print_tree_loop h (root_of T) q r = map_option (\<lambda>(o', h). ((if k \<noteq> r then [ONewline] else []) @ node_out t @ o', h)) (print_tree_loop h1 (root_of T) q1 k)"
    using print_one [of h T ord D q t ts' k r0 0 r k] "0.prems" ts by auto
  obtain q2 h2 where 2: "queued h2 T ord D q2 (kids t @ concat (map kids ts'))" "only_next h1 h2"
    "print_tree_loop h1 (root_of T) q1 k = map_option (\<lambda>(o', h). (concat (map node_out ts') @ o', h)) (print_tree_loop h2 (root_of T) q2 k)"
    using print_level [OF 1(1), of k r0 0] "0.prems"(2) ts by auto
  have leaf: "kids t = []" if "fits ord r0 0 t" for t :: "'k bt" using that by (cases t) auto
  then have "kids t @ concat (map kids ts') = []" using "0.prems"(2) ts by simp
  then have "queued h2 T ord D q2 []" using 2(1) by (simp only:)
  then have "q2 = NULL" by (simp add: queued_def)
  then have "print_tree_loop h2 (root_of T) q2 k = Some ([], h2)" by (subst print_tree_loop.simps) simp
  with 1(3) 2(3) have "print_tree_loop h (root_of T) q r = Some ((if k = r then [] else [ONewline]) @ level_order 0 ts, h2)"
    by (simp add: ts)
  then show ?case using only_next_trans [OF 1(2) 2(2)] by blast
next
  case (Suc d h q ts k r r0)
  obtain t ts' where ts: "ts = t # ts'" using Suc.prems(3) by (cases ts) auto
  obtain q1 h1 where 1: "queued h1 T ord D q1 (ts' @ kids t)" "only_next h h1"
    "print_tree_loop h (root_of T) q r = map_option (\<lambda>(o', h). ((if k \<noteq> r then [ONewline] else []) @ node_out t @ o', h)) (print_tree_loop h1 (root_of T) q1 k)"
    using print_one [of h T ord D q t ts' k r0 "Suc d" r k] Suc.prems ts by auto
  obtain q2 h2 where 2: "queued h2 T ord D q2 (kids t @ concat (map kids ts'))" "only_next h1 h2"
    "print_tree_loop h1 (root_of T) q1 k = map_option (\<lambda>(o', h). (concat (map node_out ts') @ o', h)) (print_tree_loop h2 (root_of T) q2 k)"
    using print_level [OF 1(1), of k r0 "Suc d"] Suc.prems(2) ts by auto
  have us: "kids t @ concat (map kids ts') = concat (map kids ts)" by (simp add: ts)
  have t: "below T k t" "fits ord r0 (Suc d) t" using Suc.prems(2) ts by simp_all
  then obtain c cs' where c: "kids t = c # cs'" by (cases t) (auto simp: length_Suc_conv)
  have nn: "NULL \<notin> set (addrs T)" using Suc.prems(1) by (simp add: queued_def)
  have fk: "fits ord False d c" if "fits ord r0 (Suc d) t" "c \<in> set (kids t)" for t c :: "'k bt" using that by (cases t) auto
  have sub: "\<forall>c \<in> set (concat (map kids ts)). below T (Suc k) c \<and> fits ord False d c"
    using Suc.prems(2) below_kids fk by fastforce
  have hd: "hd (concat (map kids ts)) = c" "concat (map kids ts) \<noteq> []" by (simp_all add: ts c)
  have "below T (Suc k) c" using sub hd by (metis hd_in_set)
  then have "next_rank h (root_of T) (root_of (hd (concat (map kids ts)))) n k = Some (Suc k)"
    if "shape ord (nodes h) T D" "nodes h (root_of (hd (concat (map kids ts)))) = Some n" for h :: "('k, 'r) heap" and n
    using that next_rank_below(2) [OF that(1) _ _ nn first_child_kids [OF t(1) c]] unfolding hd by blast
  then have "\<exists>h'. only_next h2 h' \<and> print_tree_loop h2 (root_of T) q2 k = Some ((if Suc k = k then [] else [ONewline]) @ level_order d (concat (map kids ts)), h')"
    using 2(1) sub hd(2) unfolding us by (intro Suc.IH) auto
  then obtain h3 where 3: "only_next h2 h3" "print_tree_loop h2 (root_of T) q2 k = Some (ONewline # level_order d (concat (map kids ts)), h3)" by auto
  have "print_tree_loop h (root_of T) q r = Some ((if k = r then [] else [ONewline]) @ level_order (Suc d) ts, h3)"
    unfolding 1(3) 2(3) 3(2) by (simp add: ts)
  then show ?case using only_next_trans [OF only_next_trans [OF 1(2) 2(2)] 3(1)] by blast
qed

text \<open>The whole print.\<close>

lemma print_tree_map:
  assumes "is_map ord h root m" "root \<noteq> NULL"
  shows "\<exists>t d h'. holds_tree ord h root t d \<and> m = bpt_map h t \<and> print_tree h root = Some (level_order d [t] @ [ONewline], h') \<and>
    only_next h h' \<and> is_map ord h' root m"
proof -
  obtain t d where t: "holds_tree ord h root t d" "m = bpt_map h t" and ok: "heap_ok h" using assms by (auto simp: is_map_def)
  have s: "shape ord (nodes h) t d" "root = root_of t" using t(1) by (simp_all add: holds_tree_def)
  have nn: "NULL \<notin> set (addrs t)" using s(1) heap_ok_NULL(1) [OF ok] by (auto simp: shape_def)
  have rt: "nodes h root \<noteq> None" using s shape_root by auto
  obtain q1 h1 where e: "enqueue NULL h root = Some (q1, h1)" "qlist (nodes h1) q1 [root]" "only_next h h1"
    using enqueue_list [of h NULL "[]" root] rt assms(2) by auto
  have q: "queued h1 t ord d q1 [t]" using shape_only_next [OF s(1) e(3)] nn e(2) s by (simp add: queued_def shape_def)
  have b: "below t 0 t" by (simp add: below_0)
  have f: "fits ord True d t" using s(1) by (simp add: shape_def)
  have "\<exists>h'. only_next h1 h' \<and> print_tree_loop h1 (root_of t) q1 0 = Some ((if 0 = (0::nat) then [] else [ONewline]) @ level_order d [t], h')"
    using b f next_rank_below(3) [OF _ b _ nn] by (intro print_levels [OF q]) auto
  then obtain h' where h': "only_next h1 h'" "print_tree_loop h1 root q1 0 = Some (level_order d [t], h')" using s(2) by auto
  have "print_tree h root = Some (level_order d [t] @ [ONewline], h')" using assms(2) e(1) h'(2) by (simp add: print_tree_def)
  moreover have "only_next h h'" using e(3) h'(1) by (rule only_next_trans)
  ultimately show ?thesis using t is_map_only_next [OF assms(1)] by blast
qed

end
