(* ===== verification/BPTree_Session.thy ===== *)
theory BPTree_Session
  imports BPTree_Repl BPTree_Levels "HOL-Library.Sublist"
begin


text \<open>
  What the command loop of \<^verbatim>\<open>bptree/main.c\<close> promises: a session over a finite map. The specification reads the same
  input, keeps a map instead of a tree, and notes for each output what it is about; \<open>answers\<close> says which outputs are right
  for that. The program runs exactly as long as the specification does, and what it prints is right.
\<close>

section \<open>The specification\<close>

datatype asked = STree "int \<rightharpoonup> int" | SLeaves "int \<rightharpoonup> int" | SFind "int \<rightharpoonup> int" int | SRange "int \<rightharpoonup> int" int int | SUsage | SPrompt

record spec =
  sp_map :: "int \<rightharpoonup> int"
  sp_vars :: vars
  sp_verbose :: bool
  sp_asked :: "asked list"

definition ask :: "asked \<Rightarrow> spec \<Rightarrow> spec" where
  "ask q a = a\<lparr>sp_asked := sp_asked a @ [q]\<rparr>"

definition spec_update :: "(int \<rightharpoonup> int) \<Rightarrow> vars \<Rightarrow> spec \<Rightarrow> spec" where
  "spec_update m v a = ask (STree m) (a\<lparr>sp_map := m, sp_vars := v\<rparr>)"

definition spec_command :: "char \<Rightarrow> spec \<Rightarrow> string \<Rightarrow> (spec \<times> string) option" where
  "spec_command c a inp =
    (let m = sp_map a in
     if c = CHR ''d'' then do {
       (v, inp) \<leftarrow> scan_key (sp_vars a) inp; k \<leftarrow> input_key v;
       Some (spec_update (m(k := None)) v a, inp) }
     else if c = CHR ''f'' \<or> c = CHR ''p'' then do {
       (v, inp) \<leftarrow> scan_key (sp_vars a) inp; k \<leftarrow> input_key v;
       Some (ask (SFind m k) (a\<lparr>sp_vars := v\<rparr>), inp) }
     else if c = CHR ''r'' then do {
       (v, inp) \<leftarrow> scan_bounds (sp_vars a) inp; k \<leftarrow> input_key v; k2 \<leftarrow> input_key_2 v;
       if 2147483647 < k2 - k + 1 then None else Some (ask (SRange m k k2) (a\<lparr>sp_vars := v\<rparr>), inp) }
     else if c = CHR ''l'' then Some (ask (SLeaves m) a, inp)
     else if c = CHR ''t'' then Some (ask (STree m) a, inp)
     else if c = CHR ''v'' then Some (a\<lparr>sp_verbose := \<not> sp_verbose a\<rparr>, inp)
     else if c = CHR ''x'' then Some (spec_update Map.empty (sp_vars a) a, inp)
     else Some (ask SUsage a, inp))"

definition spec_insert :: "spec \<Rightarrow> string \<Rightarrow> (spec \<times> string) option" where
  "spec_insert a inp = do {
     (v, inp) \<leftarrow> scan_entry (sp_vars a) inp; k \<leftarrow> input_key v; x \<leftarrow> input_key_2 v;
     Some (spec_update ((sp_map a)(k \<mapsto> x)) v a, inp) }"

partial_function (option) spec_loop :: "spec \<Rightarrow> string \<Rightarrow> spec option" where
  "spec_loop a inp =
    (case inp of
      [] \<Rightarrow> Some a
    | c # inp \<Rightarrow>
        if c = CHR ''q'' then do { _ \<leftarrow> skip_line inp; Some a }
        else if c = CHR ''i'' then do {
          (a, inp) \<leftarrow> spec_insert a inp;
          spec_loop (ask SPrompt a) inp }
        else do {
          (a, inp) \<leftarrow> spec_command c a inp;
          inp \<leftarrow> skip_line inp;
          spec_loop (ask SPrompt a) inp })"

declare spec_loop.simps [code]

section \<open>The right outputs\<close>

definition found_in :: "(int \<rightharpoonup> int) \<Rightarrow> int \<times> addr \<Rightarrow> int answer" where
  "found_in m e = Found (snd e) (fst e) (the (m (fst e)))"

fun answers :: "nat \<Rightarrow> repl_out \<Rightarrow> asked \<Rightarrow> bool" where
  "answers ord (Tree o') (STree m) \<longleftrightarrow> m = Map.empty \<and> o' = [OEmptyTree] \<or>
     (\<exists>(h :: (int, bpt_record) heap) root t d. holds_tree ord h root t d \<and> rec_map m = bpt_map h t \<and> o' = level_order d [t] @ [ONewline])"
| "answers ord (Leaves o') (SLeaves m) \<longleftrightarrow> sorted_wrt (<) (token_keys o') \<and> set (token_keys o') = dom m"
| "answers ord (Answers as) (SFind m k) \<longleftrightarrow> (case m k of None \<Rightarrow> as = [Not_Found k] | Some x \<Rightarrow> \<exists>p. as = [Found p k x])"
| "answers ord (Answers as) (SRange m k k2) \<longleftrightarrow> as = [None_Found] \<and> m k = None \<or>
     (\<exists>E. E \<noteq> [] \<and> as = map (found_in m) E \<and> sorted_wrt (<) (map fst E) \<and> fst ` set E = {j \<in> dom m. k \<le> j \<and> j \<le> k2})"
| "answers ord Usage SUsage \<longleftrightarrow> True"
| "answers ord Prompt SPrompt \<longleftrightarrow> True"
| "answers ord _ _ \<longleftrightarrow> False"

definition simulates :: "nat \<Rightarrow> session \<Rightarrow> spec \<Rightarrow> bool" where
  "simulates ord s a \<longleftrightarrow> bpt_holds ord (s_root s, s_heap s) (sp_map a) \<and> s_vars s = sp_vars a \<and>
     verbose_output s = sp_verbose a \<and> list_all2 (answers ord) (printed s) (sp_asked a)"

abbreviation sim_step :: "nat \<Rightarrow> (session \<times> string) option \<Rightarrow> (spec \<times> string) option \<Rightarrow> bool" where
  "sim_step ord \<equiv> rel_option (rel_prod (simulates ord) (=))"

section \<open>The simulation of the commands\<close>

lemma simulates_say:
  "simulates ord s a \<Longrightarrow> answers ord o' q \<Longrightarrow> simulates ord (say o' s) (ask q a)"
  by (simp add: simulates_def say_def ask_def list_all2_appendI)

lemma simulates_vars: "simulates ord s a \<Longrightarrow> simulates ord (s\<lparr>s_vars := v\<rparr>) (a\<lparr>sp_vars := v\<rparr>)"
  by (simp add: simulates_def)

lemma simulates_tree:
  "simulates ord s a \<Longrightarrow> bpt_holds ord (root, h) m \<Longrightarrow>
     simulates ord (s\<lparr>s_vars := v, s_root := root, s_heap := h\<rparr>) (a\<lparr>sp_map := m, sp_vars := v\<rparr>)"
  by (simp add: simulates_def)

lemma holds_is_map: "bpt_holds ord (root, h) m \<longleftrightarrow> is_map ord h root (rec_map m)"
  by (simp add: bpt_holds_def rec_map_def)

lemma rec_map_empty [simp]: "rec_map m = Map.empty \<longleftrightarrow> m = Map.empty"
  by (auto simp: rec_map_def fun_eq_iff)

lemma dom_rec_map [simp]: "dom (rec_map m) = dom m"
  by (auto simp: rec_map_def dom_def)

lemma rec_map_Some: "rec_map m k = Some r \<longleftrightarrow> m k = Some (rec_value r)"
  by (cases r) (auto simp: rec_map_def bpt_record.make_def)

lemma rec_map_None: "rec_map m k = None \<longleftrightarrow> m k = None"
  by (simp add: rec_map_def)

lemma show_tree_sim:
  assumes "simulates ord s a"
  shows "\<exists>s'. show_tree s = Some s' \<and> simulates ord s' (ask (STree (sp_map a)) a)"
proof (cases "s_root s = NULL")
  case True
  then have "sp_map a = Map.empty" using assms by (simp add: simulates_def holds_is_map is_map_def)
  then have "simulates ord (say (Tree [OEmptyTree]) s) (ask (STree (sp_map a)) a)" using assms by (intro simulates_say) auto
  moreover have "s\<lparr>s_heap := s_heap s\<rparr> = s" by simp
  ultimately show ?thesis using True by (simp add: show_tree_def print_tree_def)
next
  case False
  from assms have "is_map ord (s_heap s) (s_root s) (rec_map (sp_map a))" by (simp add: simulates_def holds_is_map)
  from print_tree_map [OF this False] obtain t d h' where t: "holds_tree ord (s_heap s) (s_root s) t d" "rec_map (sp_map a) = bpt_map (s_heap s) t"
    "print_tree (s_heap s) (s_root s) = Some (level_order d [t] @ [ONewline], h')" "is_map ord h' (s_root s) (rec_map (sp_map a))" by blast
  have "simulates ord (s\<lparr>s_heap := h'\<rparr>) a" using assms t(4) by (simp add: simulates_def holds_is_map)
  then have "simulates ord (say (Tree (level_order d [t] @ [ONewline])) (s\<lparr>s_heap := h'\<rparr>)) (ask (STree (sp_map a)) a)"
    using t(1,2) by (intro simulates_say) auto
  then show ?thesis using t(3) by (simp add: show_tree_def)
qed

lemma update_sim:
  assumes "simulates ord s a" "bpt_holds ord (root, h) m"
  shows "\<exists>s'. show_tree (s\<lparr>s_vars := v, s_root := root, s_heap := h\<rparr>) = Some s' \<and> simulates ord s' (spec_update m v a)"
  using show_tree_sim [OF simulates_tree [OF assms]] by (simp add: spec_update_def)

lemma delete_sim:
  assumes "simulates ord s a"
  shows "\<exists>root h s'. delete_bpt ord (s_heap s) (s_root s) k = Some (root, h) \<and>
    show_tree (s\<lparr>s_vars := v, s_root := root, s_heap := h\<rparr>) = Some s' \<and> simulates ord s' (spec_update ((sp_map a)(k := None)) v a)"
  using bpt.erase [of ord "(s_root s, s_heap s)" "sp_map a" k] assms update_sim [OF assms]
  by (fastforce simp: bpt_erase_def simulates_def)

lemma insert_sim:
  assumes "simulates ord s a"
  shows "\<exists>root h s'. insert_bpt ord (s_heap s) (s_root s) k x = Some (root, h) \<and>
    show_tree (s\<lparr>s_vars := v, s_root := root, s_heap := h\<rparr>) = Some s' \<and> simulates ord s' (spec_update ((sp_map a)(k \<mapsto> x)) v a)"
  using bpt.store [of ord "(s_root s, s_heap s)" "sp_map a" k x] assms update_sim [OF assms]
  by (fastforce simp: bpt_store_def simulates_def)

lemma find_sim:
  assumes "bpt_holds ord (root, h) m"
  shows "\<exists>an. find_and_print h root k = Some an \<and> answers ord (Answers [an]) (SFind m k)"
  using find_bpt_map [OF assms [unfolded holds_is_map], of k]
  by (cases "m k") (auto simp: find_and_print_def rec_map_def bpt_record.make_def)

lemma print_range_arr:
  assumes "arr M (map fst E) rk" "arr M (map snd E) rp" "\<forall>(k, p) \<in> set E. recs h p = rec_map m k \<and> m k \<noteq> None" "i \<le> length E"
  shows "print_range h rk rp i (length E) = Some (map (found_in m) (drop i E))"
  using assms(4)
proof (induction "length E - i" arbitrary: i)
  case 0
  then show ?case by (subst print_range.simps) simp
next
  case (Suc d)
  then have i: "i < length E" by simp
  obtain k p where e: "E ! i = (k, p)" by (cases "E ! i")
  then have "(k, p) \<in> set E" using i by (metis nth_mem)
  with assms(3) obtain x where x: "recs h p = rec_map m k" "m k = Some x" by auto
  have "drop i E = (k, p) # drop (Suc i) E" using i e by (simp add: Cons_nth_drop_Suc [symmetric])
  moreover have "print_range h rk rp (Suc i) (length E) = Some (map (found_in m) (drop (Suc i) E))" using Suc by simp
  ultimately show ?case using i e x
    by (subst print_range.simps) (simp add: arr_rd [OF assms(1)] arr_rd [OF assms(2)] rec_map_def bpt_record.make_def found_in_def)
qed

lemma card_range_le: "k \<le> k2 \<Longrightarrow> card {j \<in> dom m. k \<le> j \<and> j \<le> k2} \<le> nat (k2 - k + 1)" for k k2 :: int
proof -
  have "card {j \<in> dom m. k \<le> j \<and> j \<le> k2} \<le> card {k..k2}" by (rule card_mono) auto
  then show ?thesis by (simp add: add.commute)
qed

lemma range_sim:
  assumes "bpt_holds ord (root, h) m" "k \<le> k2" "k2 - k + 1 \<le> 2147483647"
  shows "\<exists>as. find_and_print_range ord h root k k2 = Some as \<and> answers ord (Answers as) (SRange m k k2)"
proof (cases "root = NULL")
  case True
  then have "m = Map.empty" using assms(1) by (simp add: holds_is_map is_map_def)
  then show ?thesis using True assms(2,3) by (simp add: find_and_print_range_def find_range_def find_leaf_def)
next
  case False
  let ?M = "nat (k2 - k + 1)"
  obtain rk rp E where E: "find_range ord h root k k2 (new_array ?M) (new_array ?M) = Some (rk, rp, length E)"
    "arr ?M (map fst E) rk" "arr ?M (map snd E) rp" "sorted_wrt (<) (map fst E)" "\<forall>(j, p) \<in> set E. recs h p = rec_map m j"
    "E = [] \<or> fst ` set E = {j \<in> dom m. k \<le> j \<and> j \<le> k2}" "m k \<noteq> None \<longrightarrow> fst ` set E = {j \<in> dom m. k \<le> j \<and> j \<le> k2}"
    using find_range_map [OF assms(1) [unfolded holds_is_map] False, of "new_array ?M" ?M "new_array ?M" k k2] card_range_le [OF assms(2), of m]
    by (auto simp: rec_map_None)
  show ?thesis
  proof (cases "E = []")
    case True
    then have "m k = None" using E(7) assms(2) by auto
    then show ?thesis using True E(1) assms(2,3) by (simp add: find_and_print_range_def)
  next
    case False
    have "m j \<noteq> None" if "(j, p) \<in> set E" for j p
    proof -
      have "j \<in> fst ` set E" using that by force
      then show ?thesis using False E(6) by auto
    qed
    then have "\<forall>(j, p) \<in> set E. recs h p = rec_map m j \<and> m j \<noteq> None" using E(5) by auto
    from print_range_arr [OF E(2,3) this, of 0] have "find_and_print_range ord h root k k2 = Some (map (found_in m) E)"
      using E(1) False assms(2,3) by (simp add: find_and_print_range_def)
    moreover have "answers ord (Answers (map (found_in m) E)) (SRange m k k2)" using E(4,6) False by auto
    ultimately show ?thesis by blast
  qed
qed

lemma leaves_sim:
  assumes "simulates ord s a"
  shows "\<exists>s'. do_leaves ord s = Some s' \<and> simulates ord s' (ask (SLeaves (sp_map a)) a)"
proof -
  have "is_map ord (s_heap s) (s_root s) (rec_map (sp_map a))" using assms by (simp add: simulates_def holds_is_map)
  from print_leaves_map [OF this] obtain o' where "print_leaves ord (s_heap s) (s_root s) = Some o'" "answers ord (Leaves o') (SLeaves (sp_map a))" by auto
  then show ?thesis using simulates_say [OF assms] by (simp add: do_leaves_def)
qed

lemma destroy_sim:
  assumes "simulates ord s a"
  shows "\<exists>s'. do_destroy s = Some s' \<and> simulates ord s' (spec_update Map.empty (sp_vars a) a)"
proof -
  have m: "is_map ord (s_heap s) (s_root s) (rec_map (sp_map a))" and v: "s_vars s = sp_vars a" using assms by (simp_all add: simulates_def holds_is_map)
  obtain root h where r: "(if s_root s \<noteq> NULL then destroy_tree (s_heap s) (s_root s) else Some (s_root s, s_heap s)) = Some (root, h)"
    "is_map ord h root Map.empty"
    using destroy_tree_map [OF m] m by (cases "s_root s = NULL") (auto simp: is_map_def)
  then have "bpt_holds ord (root, h) Map.empty" by (simp add: holds_is_map rec_map_def comp_def)
  moreover have "s\<lparr>s_vars := sp_vars a, s_root := root, s_heap := h\<rparr> = s\<lparr>s_root := root, s_heap := h\<rparr>" using v by (cases s) simp
  ultimately show ?thesis using update_sim [OF assms, of root h Map.empty "sp_vars a"] r(1) unfolding do_destroy_def by simp
qed

section \<open>The commands and the loop\<close>

lemma bounds_ordered: "scan_bounds v inp = Some (v', r) \<Longrightarrow> \<exists>k k2. input_key v' = Some k \<and> input_key_2 v' = Some k2 \<and> k \<le> k2"
  by (auto simp: scan_bounds_def split: if_splits bind_splits)

lemma do_insert_sim:
  assumes "simulates ord s a"
  shows "sim_step ord (do_insert ord s inp) (spec_insert a inp)"
proof (cases "scan_entry (sp_vars a) inp")
  case None
  then show ?thesis using assms by (simp add: do_insert_def spec_insert_def simulates_def)
next
  case (Some e)
  obtain v r where e: "e = (v, r)" by (cases e)
  show ?thesis
  proof (cases "\<exists>k x. input_key v = Some k \<and> input_key_2 v = Some x")
    case True
    then obtain k x where "input_key v = Some k" "input_key_2 v = Some x" by blast
    then show ?thesis using insert_sim [OF assms, of k x v] Some e assms
      by (auto simp: do_insert_def spec_insert_def simulates_def)
  next
    case False
    then show ?thesis using Some e assms by (cases "input_key v"; cases "input_key_2 v") (auto simp: do_insert_def spec_insert_def simulates_def)
  qed
qed

lemma do_delete_sim:
  assumes "simulates ord s a"
  shows "sim_step ord (do_delete ord s inp) (spec_command (CHR ''d'') a inp)"
proof (cases "scan_key (sp_vars a) inp")
  case None
  then show ?thesis using assms by (simp add: do_delete_def spec_command_def simulates_def)
next
  case (Some e)
  obtain v r where e: "e = (v, r)" by (cases e)
  show ?thesis
  proof (cases "input_key v")
    case None
    then show ?thesis using Some e assms by (simp add: do_delete_def spec_command_def simulates_def)
  next
    case (Some k)
    with delete_sim [OF assms, of k v] \<open>scan_key (sp_vars a) inp = Some e\<close> e assms show ?thesis
      by (auto simp: do_delete_def spec_command_def simulates_def)
  qed
qed

lemma do_find_sim:
  assumes "simulates ord s a" "c = CHR ''f'' \<or> c = CHR ''p''"
  shows "sim_step ord (do_find s inp) (spec_command c a inp)"
proof (cases "scan_key (sp_vars a) inp")
  case None
  then show ?thesis using assms by (auto simp: do_find_def spec_command_def simulates_def)
next
  case (Some e)
  obtain v r where e: "e = (v, r)" by (cases e)
  show ?thesis
  proof (cases "input_key v")
    case None
    then show ?thesis using Some e assms by (auto simp: do_find_def spec_command_def simulates_def)
  next
    case k: (Some k)
    obtain an where "find_and_print (s_heap s) (s_root s) k = Some an" "answers ord (Answers [an]) (SFind (sp_map a) k)"
      using find_sim assms(1) unfolding simulates_def by blast
    then have "do_find s inp = Some (say (Answers [an]) (s\<lparr>s_vars := v\<rparr>), r)"
      "simulates ord (say (Answers [an]) (s\<lparr>s_vars := v\<rparr>)) (ask (SFind (sp_map a) k) (a\<lparr>sp_vars := v\<rparr>))"
      using Some e k assms(1) simulates_say [OF simulates_vars [OF assms(1)]] by (simp_all add: do_find_def simulates_def)
    moreover have "spec_command c a inp = Some (ask (SFind (sp_map a) k) (a\<lparr>sp_vars := v\<rparr>), r)"
      using assms(2) Some e k by (auto simp: spec_command_def)
    ultimately show ?thesis by simp
  qed
qed

lemma do_range_sim:
  assumes "simulates ord s a"
  shows "sim_step ord (do_range ord s inp) (spec_command (CHR ''r'') a inp)"
proof (cases "scan_bounds (sp_vars a) inp")
  case None
  then show ?thesis using assms by (simp add: do_range_def spec_command_def simulates_def)
next
  case (Some e)
  obtain v r where e: "e = (v, r)" by (cases e)
  obtain k k2 where k: "input_key v = Some k" "input_key_2 v = Some k2" "k \<le> k2" using bounds_ordered Some e by blast
  show ?thesis
  proof (cases "k2 - k + 1 \<le> 2147483647")
    case False
    then show ?thesis using Some e k assms by (simp add: do_range_def spec_command_def simulates_def find_and_print_range_def)
  next
    case True
    obtain as where "find_and_print_range ord (s_heap s) (s_root s) k k2 = Some as" "answers ord (Answers as) (SRange (sp_map a) k k2)"
      using range_sim [OF _ k(3) True] assms unfolding simulates_def by blast
    then have "do_range ord s inp = Some (say (Answers as) (s\<lparr>s_vars := v\<rparr>), r)"
      "simulates ord (say (Answers as) (s\<lparr>s_vars := v\<rparr>)) (ask (SRange (sp_map a) k k2) (a\<lparr>sp_vars := v\<rparr>))"
      using Some e k assms simulates_say [OF simulates_vars [OF assms]] by (simp_all add: do_range_def simulates_def)
    moreover have "spec_command (CHR ''r'') a inp = Some (ask (SRange (sp_map a) k k2) (a\<lparr>sp_vars := v\<rparr>), r)"
      using True Some e k by (simp add: spec_command_def)
    ultimately show ?thesis by simp
  qed
qed

lemma do_command_sim:
  assumes "simulates ord s a"
  shows "sim_step ord (do_command ord c s inp) (spec_command c a inp)"
proof -
  consider "c = CHR ''d''" | "c = CHR ''f'' \<or> c = CHR ''p''" | "c = CHR ''r''" | "c = CHR ''l''" | "c = CHR ''t''" | "c = CHR ''v''"
    | "c = CHR ''x''" | "c \<notin> set ''dfprltvx''" by auto
  then show ?thesis
  proof cases
    case 1
    then show ?thesis using do_delete_sim [OF assms] by (simp add: do_command_def)
  next
    case 2
    then show ?thesis using do_find_sim [OF assms 2] by (auto simp: do_command_def)
  next
    case 3
    then show ?thesis using do_range_sim [OF assms] by (simp add: do_command_def)
  next
    case 4
    then show ?thesis using leaves_sim [OF assms] by (auto simp: do_command_def spec_command_def)
  next
    case 5
    then show ?thesis using show_tree_sim [OF assms] by (auto simp: do_command_def spec_command_def)
  next
    case 6
    then show ?thesis using assms by (simp add: do_command_def spec_command_def simulates_def)
  next
    case 7
    then show ?thesis using destroy_sim [OF assms] by (auto simp: do_command_def spec_command_def)
  next
    case 8
    then show ?thesis using simulates_say [OF assms, of Usage SUsage] by (simp add: do_command_def spec_command_def)
  qed
qed

text \<open>No command reads back: the rest of the input is never longer, so that the loop ends.\<close>

lemma length_dropWhile_le' [intro]: "length s \<le> n \<Longrightarrow> length (dropWhile P s) \<le> n"
  using length_dropWhile_le order_trans by blast

lemma scan_d_rest: "length (snd (scan_d s)) \<le> length s"
proof -
  have "length (dropWhile is_space s) \<le> length s" by auto
  then show ?thesis unfolding scan_d_def Let_def by (auto intro!: length_dropWhile_le' le_diff_conv [THEN iffD2])
qed

lemma scan_d_le: "scan_d s = (x, r) \<Longrightarrow> length r \<le> length s"
  using scan_d_rest [of s] by simp

lemma scan_key_rest: "scan_key v inp = Some (v', r) \<Longrightarrow> length r \<le> length inp"
  by (auto simp: scan_key_def dest: scan_d_le split: prod.splits scanned.splits)

lemma scan_keys_rest: "scan_keys v inp = Some (v', r) \<Longrightarrow> length r \<le> length inp"
  by (auto simp: scan_keys_def dest!: scan_d_le split: prod.splits scanned.splits)

lemma scan_bounds_rest: "scan_bounds v inp = Some (v', r) \<Longrightarrow> length r \<le> length inp"
  by (auto simp: scan_bounds_def dest: scan_keys_rest split: if_splits bind_splits)

lemma take_line_rest: "length (snd (take_line n s)) \<le> length s"
  by (induction n s rule: take_line.induct) (auto split: prod.splits)

lemma scan_entry_rest: "scan_entry v inp = Some (v', r) \<Longrightarrow> length r \<le> length inp"
  using take_line_rest [of 255 inp] by (auto simp: scan_entry_def fgets_def Let_def split: if_splits bind_splits prod.splits)

lemma skip_line_rest: "skip_line s = Some r \<Longrightarrow> length r \<le> length s"
proof -
  assume "skip_line s = Some r"
  then obtain c where "dropWhile (\<lambda>c. c \<noteq> newline) s = c # r" by (auto simp: skip_line_def split: list.splits)
  then show ?thesis using length_dropWhile_le [of "\<lambda>c. c \<noteq> newline" s] by simp
qed

lemma spec_command_rest: "spec_command c a inp = Some (a', r) \<Longrightarrow> length r \<le> length inp"
  by (auto simp: spec_command_def Let_def dest: scan_key_rest scan_bounds_rest split: if_splits bind_splits)

lemma spec_insert_rest: "spec_insert a inp = Some (a', r) \<Longrightarrow> length r \<le> length inp"
  by (auto simp: spec_insert_def dest: scan_entry_rest split: bind_splits)

lemma command_loop_sim:
  "simulates ord s a \<Longrightarrow> rel_option (simulates ord) (command_loop ord s inp) (spec_loop a inp)"
proof (induction inp arbitrary: s a rule: length_induct)
  case (1 inp)
  show ?case
  proof (cases inp)
    case Nil
    then show ?thesis using 1(2) by (simp add: command_loop.simps [of _ _ "[]"] spec_loop.simps [of _ "[]"])
  next
    case (Cons c cs)
    have nxt: "rel_option (simulates ord) (command_loop ord (say Prompt s') r) (spec_loop (ask SPrompt a') r)"
      if "simulates ord s' a'" "length r \<le> length cs" for s' a' r
      using 1(1) simulates_say [OF that(1), of Prompt SPrompt] that(2) Cons by simp
    consider "c = CHR ''q''" | "c = CHR ''i''" | "c \<noteq> CHR ''q''" "c \<noteq> CHR ''i''" by blast
    then show ?thesis
    proof cases
      case c: 1
      then show ?thesis using 1(2) Cons
        by (cases "skip_line cs") (simp_all add: command_loop.simps [of _ _ "_ # _"] spec_loop.simps [of _ "_ # _"])
    next
      case c: 2
      from do_insert_sim [OF 1(2), of cs] have "rel_option (simulates ord)
          (do { (s, inp) \<leftarrow> do_insert ord s cs; command_loop ord (say Prompt s) inp })
          (do { (a, inp) \<leftarrow> spec_insert a cs; spec_loop (ask SPrompt a) inp })"
        by (cases rule: option.rel_cases) (auto intro!: nxt dest: spec_insert_rest)
      then show ?thesis using Cons c by (simp add: command_loop.simps [of _ _ "_ # _"] spec_loop.simps [of _ "_ # _"])
    next
      case c: 3
      have "rel_option (simulates ord)
          (do { (s, inp) \<leftarrow> do_command ord c s cs; inp \<leftarrow> skip_line inp; command_loop ord (say Prompt s) inp })
          (do { (a, inp) \<leftarrow> spec_command c a cs; inp \<leftarrow> skip_line inp; spec_loop (ask SPrompt a) inp })"
      proof (cases "spec_command c a cs")
        case None
        then show ?thesis using do_command_sim [OF 1(2), of c cs] by simp
      next
        case (Some e)
        obtain a' r where e: "e = (a', r)" by (cases e)
        obtain s' where s': "do_command ord c s cs = Some (s', r)" "simulates ord s' a'"
          using do_command_sim [OF 1(2), of c cs] Some e by (auto simp: option_rel_Some2)
        show ?thesis
        proof (cases "skip_line r")
          case None
          then show ?thesis using Some e s' by simp
        next
          case (Some r')
          then have "length r' \<le> length cs" using skip_line_rest spec_command_rest \<open>spec_command c a cs = Some e\<close> e by fastforce
          then show ?thesis using nxt [OF s'(2)] Some \<open>spec_command c a cs = Some e\<close> e s' by simp
        qed
      qed
      then show ?thesis using Cons c by (simp add: command_loop.simps [of _ _ "_ # _"] spec_loop.simps [of _ "_ # _"])
    qed
  qed
qed

section \<open>The input file\<close>

text \<open>The keys that the loop over the input file inserts, if it ends.\<close>

function file_keys :: "vars \<Rightarrow> string \<Rightarrow> int list option" where
  "file_keys v file = do {
     (v', r) \<leftarrow> fscanf_key v file;
     k \<leftarrow> input_key v';
     if r = [] then Some [k]
     else if length r < length file then do { ks \<leftarrow> file_keys v' r; Some (k # ks) } else None
   }"
  by pat_completeness auto
termination
  by (relation "measure (\<lambda>(v, file). length file)") auto

declare file_keys.simps [simp del]

lemma scan_d_suffix: "suffix (snd (scan_d s)) s"
proof -
  have d: "suffix (dropWhile is_digit u) s" if "suffix u s" for u
    using suffix_dropWhile that by (rule suffix_order.trans)
  have t: "suffix (if P then tl t else t) s" if "suffix t s" for t P
    using that suffix_order.trans [OF suffix_tl that] by simp
  show ?thesis unfolding scan_d_def Let_def snd_conv by (rule d, rule t, rule suffix_dropWhile)
qed

lemma scan_d_Num_shorter:
  assumes "scan_d s = (Num k, r)"
  shows "length r < length s"
proof -
  define t where "t = (let s = dropWhile is_space s in if s \<noteq> [] \<and> (hd s = CHR ''-'' \<or> hd s = CHR ''+'') then tl s else s)"
  have "length t \<le> length s" by (auto simp: t_def Let_def intro!: le_diff_conv [THEN iffD2])
  moreover have "r = dropWhile is_digit t" "takeWhile is_digit t \<noteq> []"
    using assms by (auto simp: scan_d_def t_def Let_def split: if_splits)
  moreover have "length (takeWhile is_digit t) + length (dropWhile is_digit t) = length t"
    by (metis length_append takeWhile_dropWhile_id)
  ultimately show ?thesis by (cases "takeWhile is_digit t") auto
qed

lemma fscanf_key_stuck:
  assumes "fscanf_key v s = Some (v', r)" "\<not> length r < length s"
  shows "v' = v \<and> r = s"
proof (cases "scan_d s")
  case (Pair x q)
  show ?thesis
  proof (cases x)
    case (Num k)
    have "length q < length s" using Pair Num scan_d_Num_shorter by simp
    moreover have "length (dropWhile is_space q) \<le> length q" by (rule length_dropWhile_le)
    ultimately show ?thesis using assms Pair Num by (simp add: fscanf_key_def scan_key_def)
  next
    case No_Num
    then have "r = q" "v' = v" using assms Pair by (simp_all add: fscanf_key_def scan_key_def)
    moreover have "suffix q s" using scan_d_suffix [of s] Pair by simp
    ultimately show ?thesis using assms(2) by (auto simp: suffix_def)
  next
    case Too_Large
    then show ?thesis using assms Pair by (simp add: fscanf_key_def scan_key_def)
  qed
qed

text \<open>A character that is not part of a number stops the scanner for good: the program inserts the last key for ever.\<close>

lemma load_file_stuck:
  assumes "fscanf_key (s_vars s) file = Some (s_vars s, file)" "file \<noteq> []"
  shows "load_file ord s file = None"
proof -
  have "fscanf_key (s_vars s) file = Some (s_vars s, file) \<longrightarrow> file = []" if "load_file ord s file = Some y" for y
    by (rule load_file.raw_induct [OF _ that, of "\<lambda>_ s file _. fscanf_key (s_vars s) file = Some (s_vars s, file) \<longrightarrow> file = []"])
      (auto split: bind_splits if_splits simp: Let_def)
  then show ?thesis using assms by (cases "load_file ord s file") auto
qed

definition load_all :: "int list \<Rightarrow> (int \<rightharpoonup> int) \<Rightarrow> int \<rightharpoonup> int" where
  "load_all ks m = fold (\<lambda>k m. m(k \<mapsto> k)) ks m"

lemma load_file_sim:
  fixes s :: session and m :: "int \<rightharpoonup> int"
  assumes "bpt_holds ord (s_root s, s_heap s) m"
  shows "rel_option (\<lambda>s' ks. bpt_holds ord (s_root s', s_heap s') (load_all ks m) \<and> verbose_output s' = verbose_output s \<and> printed s' = printed s)
    (load_file ord s inp) (file_keys (s_vars s) inp)"
  using assms
proof (induction inp arbitrary: s m rule: length_induct)
  case (1 inp)
  show ?case
  proof (cases "fscanf_key (s_vars s) inp")
    case None
    then show ?thesis by (simp add: load_file.simps [of _ s] file_keys.simps [of "s_vars s"])
  next
    case (Some e)
    obtain v r where e: "e = (v, r)" by (cases e)
    show ?thesis
    proof (cases "input_key v")
      case None
      then show ?thesis using Some e by (simp add: load_file.simps [of _ s] file_keys.simps [of "s_vars s"])
    next
      case k: (Some k)
      obtain root h where i: "insert_bpt ord (s_heap s) (s_root s) k k = Some (root, h)" "bpt_holds ord (root, h) (m(k \<mapsto> k))"
        using bpt.store [OF 1(2), of k k] by (auto simp: bpt_store_def)
      let ?s = "s\<lparr>s_vars := v, s_root := root, s_heap := h\<rparr>"
      consider "r = []" | "r \<noteq> []" "length r < length inp" | "r \<noteq> []" "\<not> length r < length inp" by blast
      then show ?thesis
      proof cases
        case 1
        then show ?thesis using Some e k i by (simp add: load_file.simps [of _ s] file_keys.simps [of "s_vars s"] load_all_def)
      next
        case 2
        have "bpt_holds ord (s_root ?s, s_heap ?s) (m(k \<mapsto> k))" using i by simp
        with 1(1) 2(2) have "rel_option (\<lambda>s' ks. bpt_holds ord (s_root s', s_heap s') (load_all ks (m(k \<mapsto> k))) \<and>
            verbose_output s' = verbose_output ?s \<and> printed s' = printed ?s) (load_file ord ?s r) (file_keys (s_vars ?s) r)" by blast
        then show ?thesis using Some e k i 2
          by (cases rule: option.rel_cases) (simp_all add: load_file.simps [of _ s] file_keys.simps [of "s_vars s"] load_all_def)
      next
        case 3
        then have "v = s_vars s" "r = inp" using fscanf_key_stuck Some e by blast+
        then have "load_file ord s inp = None" using load_file_stuck Some e 3 by simp
        then show ?thesis using Some e k 3 by (simp add: file_keys.simps [of "s_vars s"])
      qed
    qed
  qed
qed

section \<open>main\<close>

definition spec_start :: spec where
  "spec_start = \<lparr>sp_map = Map.empty, sp_vars = unset_vars, sp_verbose = False, sp_asked = []\<rparr>"

definition spec_main :: "int option \<Rightarrow> string option option \<Rightarrow> string \<Rightarrow> (exit_status \<times> (int \<rightharpoonup> int) \<times> asked list) option" where
  "spec_main arg file inp =
    (let order = (case arg of None \<Rightarrow> 4 | Some n \<Rightarrow> n) in
     if order < 3 \<or> 20 < order then Some (Failure, Map.empty, [SUsage])
     else case file of
       Some None \<Rightarrow> Some (Failure, Map.empty, [])
     | Some (Some content) \<Rightarrow> do {
         ks \<leftarrow> file_keys unset_vars content;
         Some (Success, load_all ks Map.empty, [STree (load_all ks Map.empty)])
       }
     | None \<Rightarrow> do { a \<leftarrow> spec_loop (ask SPrompt (ask SUsage spec_start)) inp; Some (Success, sp_map a, sp_asked a) })"

text \<open>A run of the program and its specification end in the same way: the tree holds the map, the output is right.\<close>

definition same_end :: "nat \<Rightarrow> exit_status \<times> session \<Rightarrow> exit_status \<times> (int \<rightharpoonup> int) \<times> asked list \<Rightarrow> bool" where
  "same_end ord x y \<longleftrightarrow> (case (x, y) of ((e, s), (e', m, qs)) \<Rightarrow>
     e = e' \<and> (e = Success \<longrightarrow> bpt_holds ord (s_root s, s_heap s) m) \<and> list_all2 (answers ord) (printed s) qs)"

lemma start_simulates: "3 \<le> ord \<Longrightarrow> simulates ord start_session spec_start"
  by (simp add: simulates_def start_session_def spec_start_def holds_is_map rec_map_def is_map_empty comp_def)

lemma prompt_simulates: "3 \<le> ord \<Longrightarrow> simulates ord (say Prompt (say Usage start_session)) (ask SPrompt (ask SUsage spec_start))"
  by (intro simulates_say start_simulates) auto

lemma main_refines:
  "rel_option (same_end (nat (case arg of None \<Rightarrow> 4 | Some n \<Rightarrow> n))) (main arg file inp) (spec_main arg file inp)"
proof -
  define order where "order = (case arg of None \<Rightarrow> 4 | Some n \<Rightarrow> n)"
  consider "order < 3 \<or> 20 < order" | "3 \<le> nat order" "\<not> (order < 3 \<or> 20 < order)" "file = Some None"
    | c where "3 \<le> nat order" "\<not> (order < 3 \<or> 20 < order)" "file = Some (Some c)"
    | "3 \<le> nat order" "\<not> (order < 3 \<or> 20 < order)" "file = None" by fastforce
  then have "rel_option (same_end (nat order)) (main arg file inp) (spec_main arg file inp)"
  proof cases
    case 1
    then show ?thesis by (simp add: main_def spec_main_def order_def [symmetric] same_end_def say_def start_session_def)
  next
    case 2
    then show ?thesis by (simp add: main_def spec_main_def order_def [symmetric] same_end_def start_session_def)
  next
    case (3 c)
    have "bpt_holds (nat order) (s_root start_session, s_heap start_session) Map.empty"
      using start_simulates [OF 3(1)] by (simp add: simulates_def spec_start_def)
    moreover have "s_vars start_session = unset_vars" by (simp add: start_session_def)
    ultimately have "rel_option (\<lambda>s' ks. bpt_holds (nat order) (s_root s', s_heap s') (load_all ks Map.empty) \<and> verbose_output s' = False \<and> printed s' = [])
        (load_file (nat order) start_session c) (file_keys unset_vars c)"
      using load_file_sim [of "nat order" start_session Map.empty c] by (simp add: start_session_def)
    then have r: "rel_option (\<lambda>s' ks. simulates (nat order) s' \<lparr>sp_map = load_all ks Map.empty, sp_vars = s_vars s', sp_verbose = False, sp_asked = []\<rparr>)
        (load_file (nat order) start_session c) (file_keys unset_vars c)"
      by (rule option.rel_mono_strong) (simp add: simulates_def)
    show ?thesis
    proof (cases "file_keys unset_vars c")
      case None
      then show ?thesis using r 3 by (simp add: main_def spec_main_def order_def [symmetric])
    next
      case (Some ks)
      then obtain s' where s': "load_file (nat order) start_session c = Some s'"
        "simulates (nat order) s' \<lparr>sp_map = load_all ks Map.empty, sp_vars = s_vars s', sp_verbose = False, sp_asked = []\<rparr>"
        using r by (auto simp: option_rel_Some2)
      from show_tree_sim [OF s'(2)] Some s'(1) 3 show ?thesis
        by (auto simp: main_def spec_main_def order_def [symmetric] same_end_def simulates_def ask_def)
    qed
  next
    case 4
    from command_loop_sim [OF prompt_simulates [OF 4(1)], of inp] 4 show ?thesis
      by (cases rule: option.rel_cases) (auto simp: main_def spec_main_def order_def [symmetric] same_end_def simulates_def)
  qed
  then show ?thesis by (simp add: order_def)
qed

section \<open>The numbers stay in the range of int\<close>

definition int_range :: "int set" where
  "int_range = {- 2147483648 .. 2147483647}"

definition int_vars :: "vars \<Rightarrow> bool" where
  "int_vars v \<longleftrightarrow> set_option (input_key v) \<union> set_option (input_key_2 v) \<subseteq> int_range"

definition int_map :: "(int \<rightharpoonup> int) \<Rightarrow> bool" where
  "int_map m \<longleftrightarrow> dom m \<union> ran m \<subseteq> int_range"

lemma int_map_empty [simp]: "int_map Map.empty"
  by (simp add: int_map_def)

lemma int_map_upd: "int_map m \<Longrightarrow> k \<in> int_range \<Longrightarrow> x \<in> int_range \<Longrightarrow> int_map (m(k \<mapsto> x))"
  by (auto simp: int_map_def ran_def)

lemma int_map_del: "int_map m \<Longrightarrow> int_map (m(k := None))"
  by (auto simp: int_map_def ran_def)

lemma int_vars_key: "int_vars v \<Longrightarrow> input_key v = Some k \<Longrightarrow> k \<in> int_range" "int_vars v \<Longrightarrow> input_key_2 v = Some k \<Longrightarrow> k \<in> int_range"
  by (auto simp: int_vars_def)

lemma scan_d_range: "scan_d s = (Num k, r) \<Longrightarrow> k \<in> int_range"
  by (auto simp: scan_d_def Let_def int_range_def split: if_splits)

lemma scan_key_int: "scan_key v inp = Some (v', r) \<Longrightarrow> int_vars v \<Longrightarrow> int_vars v'"
  by (auto simp: scan_key_def int_vars_def dest: scan_d_range split: prod.splits scanned.splits)

lemma scan_keys_int: "scan_keys v inp = Some (v', r) \<Longrightarrow> int_vars v \<Longrightarrow> int_vars v'"
  by (auto simp: scan_keys_def int_vars_def dest: scan_d_range split: prod.splits scanned.splits)

lemma scan_bounds_int: "scan_bounds v inp = Some (v', r) \<Longrightarrow> int_vars v \<Longrightarrow> int_vars v'"
  using scan_keys_int [of v inp] by (fastforce simp: scan_bounds_def int_vars_def split: if_splits bind_splits)

lemma scan_two_range: "scan_two b = Some vs \<Longrightarrow> set vs \<subseteq> int_range"
  by (auto simp: scan_two_def dest: scan_d_range split: prod.splits scanned.splits)

lemma scan_entry_int: "scan_entry v inp = Some (v', r) \<Longrightarrow> int_vars v \<Longrightarrow> int_vars v'"
  by (auto simp: scan_entry_def int_vars_def Let_def dest!: scan_two_range split: bind_splits prod.splits list.splits)

definition int_spec :: "spec \<Rightarrow> bool" where
  "int_spec a \<longleftrightarrow> int_vars (sp_vars a) \<and> int_map (sp_map a)"

lemma spec_command_int: "spec_command c a inp = Some (a', r) \<Longrightarrow> int_spec a \<Longrightarrow> int_spec a'"
  by (auto simp: spec_command_def spec_update_def ask_def int_spec_def Let_def scan_key_int scan_bounds_int int_map_del split: if_splits bind_splits)

lemma spec_insert_int: "spec_insert a inp = Some (a', r) \<Longrightarrow> int_spec a \<Longrightarrow> int_spec a'"
  by (auto simp: spec_insert_def spec_update_def ask_def int_spec_def scan_entry_int split: bind_splits)
    (blast intro: int_map_upd scan_entry_int int_vars_key)

lemma spec_loop_int:
  assumes "spec_loop a inp = Some a'" "int_spec a"
  shows "int_spec a'"
proof -
  have p: "int_spec (ask SPrompt b) = int_spec b" for b by (simp add: int_spec_def ask_def)
  have "int_spec a \<longrightarrow> int_spec a'"
    by (rule spec_loop.raw_induct [OF _ assms(1), of "\<lambda>a _ a'. int_spec a \<longrightarrow> int_spec a'"])
      (fastforce simp: p split: list.splits if_splits bind_splits dest: spec_insert_int spec_command_int)
  then show ?thesis using assms(2) by simp
qed

lemma file_keys_int: "file_keys v inp = Some ks \<Longrightarrow> int_vars v \<Longrightarrow> set ks \<subseteq> int_range"
proof (induction v inp arbitrary: ks rule: file_keys.induct)
  case (1 v inp)
  have f: "int_vars v'" if "fscanf_key v inp = Some (v', r)" for v' r
    using that 1(3) scan_key_int by (auto simp: fscanf_key_def split: bind_splits)
  from 1(2) obtain v' r k where k: "fscanf_key v inp = Some (v', r)" "input_key v' = Some k"
    by (subst (asm) file_keys.simps) (auto split: bind_splits)
  then have k_in: "k \<in> int_range" using f int_vars_key by blast
  show ?case
  proof (cases "r = []")
    case True
    then show ?thesis using 1(2) k k_in by (subst (asm) file_keys.simps) auto
  next
    case False
    with 1(2) k obtain ks' where "length r < length inp" "file_keys v' r = Some ks'" "ks = k # ks'"
      by (subst (asm) file_keys.simps) (auto split: if_splits bind_splits)
    then show ?thesis using 1(1) [OF k(1) refl k(2) False] f [OF k(1)] k_in by simp
  qed
qed

lemma load_all_int: "set ks \<subseteq> int_range \<Longrightarrow> int_map m \<Longrightarrow> int_map (load_all ks m)"
  unfolding load_all_def by (induction ks arbitrary: m) (auto intro: int_map_upd)

lemma spec_main_int: "spec_main arg file inp = Some (e, m, qs) \<Longrightarrow> int_map m"
proof -
  have u: "int_vars unset_vars" by (simp add: int_vars_def unset_vars_def)
  then have "int_spec (ask SPrompt (ask SUsage spec_start))" by (simp add: int_spec_def ask_def spec_start_def)
  then have "int_map (sp_map a)" if "spec_loop (ask SPrompt (ask SUsage spec_start)) inp = Some a" for a
    using spec_loop_int [OF that] by (simp add: int_spec_def)
  moreover have "int_map (load_all ks Map.empty)" if "file_keys unset_vars c = Some ks" for c ks
    using file_keys_int [OF that u] by (simp add: load_all_int)
  ultimately show "spec_main arg file inp = Some (e, m, qs) \<Longrightarrow> int_map m"
    by (auto simp: spec_main_def Let_def split: if_splits option.splits bind_splits)
qed

end
