(* ===== verification/BPTree_Repl_Props.thy ===== *)
theory BPTree_Repl_Props
  imports BPTree_Session BPTree_Props
begin


text \<open>
  The properties of the program \<^verbatim>\<open>bptree/main.c\<close> around the tree: what it prints, its command loop, its input file.
\<close>

text \<open>
  C19: \<open>print_tree\<close> on a tree that holds a map returns; it prints the nodes level by level, from left to right, with a bar
  after each node and a new line for each level, and leaves a heap that holds the same map, in which only the fields \<open>next\<close>,
  through which its queue runs, have changed.
\<close>

theorem print_tree_in_level_order:
  assumes "is_map ord h root m" "root \<noteq> NULL"
  shows "\<exists>t d h'. holds_tree ord h root t d \<and> m = bpt_map h t \<and> print_tree h root = Some (level_order d [t] @ [ONewline], h') \<and>
    only_next h h' \<and> is_map ord h' root m"
  using assms by (rule print_tree_map)

theorem print_tree_in_level_order_witness:
  "\<exists>root h h' t d. sample_tree = Some (root, h) \<and> print_tree h root = Some (level_order d [t] @ [ONewline], h') \<and> is_map 4 h' root (rec_map sample_map)"
  using sample_tree print_tree_in_level_order [where ord = 4 and m = "rec_map sample_map"] by blast








end
