(* ===== verification/Common.thy ===== *)
theory Common
  imports Prelude "HOL-Library.Word"
begin

text \<open>
  The code shared by the Silo and Cicada programs, \<^verbatim>\<open>src/common/\<close>: the random number generator
  of \<^verbatim>\<open>xoroshiro128_plus.h\<close>, the transaction steps and their generator in \<^verbatim>\<open>step.h\<close>, the helpers
  that split the table between builder threads and compare clocks in \<^verbatim>\<open>helper.h\<close>, and the counters
  of \<^verbatim>\<open>result.h\<close>. The Zipf distribution of \<^verbatim>\<open>zip_fian.h\<close> computes with doubles; the functions that
  draw from it take it as an argument, as the code does, a function from the generator's state
  to a number and the next state.
\<close>

unbundle bit_operations_syntax

section \<open>Random numbers (\<^verbatim>\<open>xoroshiro128_plus.h\<close>)\<close>

record rng =
  s0 :: "64 word"
  s1 :: "64 word"

definition splitMix64 :: "64 word \<Rightarrow> 64 word" where
  "splitMix64 seed =
    (let z = seed + 0x9e3779b97f4a7c15;
         z = (z XOR drop_bit 30 z) * 0xbf58476d1ce4e5b9;
         z = (z XOR drop_bit 27 z) * 0x94d049bb133111eb
     in z XOR drop_bit 31 z)"

definition seed_rng :: "64 word \<Rightarrow> rng" where
  "seed_rng seed = \<lparr>s0 = seed, s1 = splitMix64 seed\<rparr>"

definition rotl :: "64 word \<Rightarrow> nat \<Rightarrow> 64 word" where
  "rotl x k = push_bit k x OR drop_bit (64 - k) x"

definition next_random :: "rng \<Rightarrow> 64 word \<times> rng" where
  "next_random r =
    (let a = s0 r; b = s1 r XOR a
     in (a + s1 r, \<lparr>s0 = (rotl a 24 XOR b) XOR push_bit 16 b, s1 = rotl b 37\<rparr>))"

text \<open>
  \<open>jump\<close> and \<open>long_jump\<close>: the loop over the 64 bits of each of the two words of a table. The
  accumulators are the pair \<open>acc\<close>.
\<close>

definition jump_bit :: "64 word \<Rightarrow> nat \<Rightarrow> (64 word \<times> 64 word) \<times> rng \<Rightarrow> (64 word \<times> 64 word) \<times> rng" where
  "jump_bit j b = (\<lambda>(acc, r).
    ((if bit j b then (fst acc XOR s0 r, snd acc XOR s1 r) else acc), snd (next_random r)))"

definition jump_table :: "64 word list \<Rightarrow> rng \<Rightarrow> rng" where
  "jump_table tab r =
    (let acc = fst (foldl (\<lambda>st j. foldl (\<lambda>st b. jump_bit j b st) st [0..<64]) ((0, 0), r) tab)
     in \<lparr>s0 = fst acc, s1 = snd acc\<rparr>)"

definition jump :: "rng \<Rightarrow> rng" where
  "jump = jump_table [0xdf900294d8f554a5, 0x170865df4b3201fc]"

definition long_jump :: "rng \<Rightarrow> rng" where
  "long_jump = jump_table [0xd2a98b26625eee7b, 0xdddf9b1090aa7ac1]"

section \<open>Steps (\<^verbatim>\<open>step.h\<close>)\<close>

datatype operation = Read | Write | RMW

record step =
  operation :: operation
  key :: "64 word"
  readOnly :: bool
  writeOnly :: bool

definition Step :: "operation \<Rightarrow> 64 word \<Rightarrow> step" where
  "Step op k = \<lparr>operation = op, key = k, readOnly = False, writeOnly = False\<rparr>"

text \<open>\<open>operator<\<close>.\<close>

definition step_less :: "step \<Rightarrow> step \<Rightarrow> bool" where
  "step_less a b =
    (if key a = key b \<and> operation a = Write \<and> operation b = Read then True
     else if key a = key b \<and> operation a = Write \<and> operation b = Write then True
     else key a < key b)"

text \<open>
  \<open>makeSteps\<close>. The loop keeps the generator, the two flags and the steps made; the update of the
  first step after the loop is undefined when there is none.
\<close>

type_synonym zipf = "rng \<Rightarrow> 64 word \<times> rng"

fun make_steps_loop :: "zipf \<Rightarrow> 64 word \<Rightarrow> 64 word \<Rightarrow> nat \<Rightarrow> bool \<Rightarrow> bool \<Rightarrow> step list \<Rightarrow> rng \<Rightarrow> step list \<times> bool \<times> bool \<times> rng" where
  "make_steps_loop zipf tupleNum ratio 0 ro wo steps r = (steps, ro, wo, r)"
| "make_steps_loop zipf tupleNum ratio (Suc n) ro wo steps r =
    (let (z, r) = zipf r;
         tmpKey = z AND (tupleNum - 1);
         (x, r) = next_random r
     in if x mod 100 < ratio
        then make_steps_loop zipf tupleNum ratio n ro False (steps @ [Step Read tmpKey]) r
        else make_steps_loop zipf tupleNum ratio n False wo (steps @ [Step Write tmpKey]) r)"

definition makeSteps :: "zipf \<Rightarrow> 64 word \<Rightarrow> nat \<Rightarrow> 64 word \<Rightarrow> rng \<Rightarrow> (step list \<times> rng) option" where
  "makeSteps zipf tupleNum maxOp ratio r =
    (case make_steps_loop zipf tupleNum ratio maxOp True True [] r of
      ([], _) \<Rightarrow> None
    | (s # steps, ro, wo, r) \<Rightarrow> Some (s\<lparr>readOnly := ro, writeOnly := wo\<rparr> # steps, r))"

text \<open>
  \<open>genStringRepeatedNumber\<close>: \<open>sprintf\<close> writes the decimal digits of the thread and a NUL into the
  array, then the cells from the number of digits up to \<open>valueSize - 2\<close> get the character 0. The
  bound \<open>valueSize - 2\<close> is an unsigned difference. A write outside the array is undefined.
\<close>

fun digits :: "nat \<Rightarrow> nat list" where
  "digits n = (if n < 10 then [48 + n] else digits (n div 10) @ [48 + n mod 10])"

fun count_digits :: "nat \<Rightarrow> nat" where
  "count_digits n = (if n div 10 \<noteq> 0 then Suc (count_digits (n div 10)) else 1)"

declare digits.simps [simp del] count_digits.simps [simp del]

lemma digits_small [simp]: "n < 10 \<Longrightarrow> digits n = [48 + n]"
  by (subst digits.simps) simp

lemma count_digits_small [simp]: "n < 10 \<Longrightarrow> count_digits n = 1"
  by (subst count_digits.simps) simp

definition poke :: "'a list \<Rightarrow> nat \<Rightarrow> 'a \<Rightarrow> 'a list option" where
  "poke xs i x = (if i < length xs then Some (xs[i := x]) else None)"

fun poke_from :: "'a list \<Rightarrow> nat \<Rightarrow> 'a list \<Rightarrow> 'a list option" where
  "poke_from xs i [] = Some xs"
| "poke_from xs i (y # ys) = (case poke xs i y of None \<Rightarrow> None | Some xs \<Rightarrow> poke_from xs (Suc i) ys)"

definition genStringRepeatedNumber :: "8 word list \<Rightarrow> 64 word \<Rightarrow> nat \<Rightarrow> 8 word list option" where
  "genStringRepeatedNumber out valueSize threadId =
    (let digit = count_digits threadId in
     case poke_from out 0 (List.map word_of_nat (digits threadId) @ [0]) of
       None \<Rightarrow> None
     | Some out \<Rightarrow> poke_from out digit (replicate (unat (valueSize - 2) - digit) 48))"

section \<open>Helpers (\<^verbatim>\<open>helper.h\<close>) and counters (\<^verbatim>\<open>result.h\<close>)\<close>

text \<open>
  \<open>decideParallelTableBuildNumber\<close>; \<open>hw\<close> is what \<open>hardware_concurrency\<close> returns, 0 when unknown.
  \<open>None\<close> is the exit of \<open>ERR\<close>.
\<close>

fun build_number_loop :: "nat \<Rightarrow> nat \<Rightarrow> nat option" where
  "build_number_loop tupleNum 0 = Some 0"
| "build_number_loop tupleNum (Suc i) =
    (if tupleNum mod Suc i = 0 then Some (Suc i)
     else if Suc i = 1 then None
     else build_number_loop tupleNum i)"

definition decideParallelTableBuildNumber :: "nat \<Rightarrow> nat \<Rightarrow> nat option" where
  "decideParallelTableBuildNumber hw tupleNum =
    (if tupleNum < 1000 then Some 1 else build_number_loop tupleNum hw)"

lemma build_number_divides: "build_number_loop n hw = Some m \<Longrightarrow> 0 < hw \<Longrightarrow> 0 < m \<and> n mod m = 0"
  by (induction n hw rule: build_number_loop.induct) (auto split: if_splits)

lemma build_number_total: "\<exists>m. build_number_loop n hw = Some m"
  by (induction n hw rule: build_number_loop.induct) auto

definition checkClockSpan :: "64 word \<Rightarrow> 64 word \<Rightarrow> 64 word \<Rightarrow> bool" where
  "checkClockSpan start stop threshold = (threshold < stop - start)"

definition isReady :: "bool list \<Rightarrow> bool" where
  "isReady flags = list_all id flags"

record result_counts =
  localAbortCounts :: "64 word"
  localCommitCounts :: "64 word"
  totalAboutCounts :: "64 word"
  totalCommitCounts :: "64 word"

definition addLocalAllResult :: "result_counts \<Rightarrow> result_counts \<Rightarrow> result_counts" where
  "addLocalAllResult res other =
    res\<lparr>totalAboutCounts := totalAboutCounts res + localAbortCounts other,
        totalCommitCounts := totalCommitCounts res + localCommitCounts other\<rparr>"

end
