(* ===== verification/Common_Props.thy ===== *)
theory Common_Props
  imports Common
begin

text \<open>
  Properties of the code in \<^verbatim>\<open>src/common/\<close>: the generator never reaches the state it could not
  leave, generated steps are well formed, which keys they can touch, and the string a thread writes.
\<close>

unbundle bit_operations_syntax

section \<open>The random number generator\<close>

lemma rotl_0: "k < 64 \<Longrightarrow> rotl x k = 0 \<Longrightarrow> x = 0"
proof (rule bit_word_eqI)
  fix n assume k: "k < 64" "rotl x k = 0" and n: "n < LENGTH(64)"
  from k(2) have bits: "\<not> bit (rotl x k) m" for m by simp
  show "bit x n = bit 0 n"
  proof (cases "n + k < 64")
    case True
    then show ?thesis using bits [of "n + k"] by (simp add: rotl_def bit_simps)
  next
    case False
    then have "n = (n + k - 64) + (64 - k)" using k(1) by simp
    then show ?thesis using bits [of "n + k - 64"] n by (simp add: rotl_def bit_simps add.commute)
  qed
qed

lemma next_random_0:
  assumes "snd (next_random r) = \<lparr>s0 = 0, s1 = 0\<rparr>"
  shows "r = \<lparr>s0 = 0, s1 = 0\<rparr>"
proof -
  have "rotl (s1 r XOR s0 r) 37 = 0" and a: "(rotl (s0 r) 24 XOR (s1 r XOR s0 r)) XOR push_bit 16 (s1 r XOR s0 r) = 0"
    using assms by (simp_all add: next_random_def Let_def)
  then have b: "s1 r XOR s0 r = 0" by (auto dest: rotl_0 [rotated])
  with a have "rotl (s0 r) 24 = 0" by simp
  then have "s0 r = 0" by (auto dest: rotl_0 [rotated])
  with b show ?thesis by (cases r) simp
qed

lemma seed_rng_nonzero: "seed_rng s \<noteq> \<lparr>s0 = 0, s1 = 0\<rparr>"
  by (cases "s = 0") (simp_all add: seed_rng_def splitMix64_def Let_def)

text \<open>
  However a generator is seeded and however many numbers are drawn from it, its state is never
  the all-zero state, from which every further number would be zero.
\<close>

theorem generator_never_stuck:
  "((\<lambda>r. snd (next_random r)) ^^ n) (seed_rng seed) \<noteq> \<lparr>s0 = 0, s1 = 0\<rparr>"
  by (induction n) (use seed_rng_nonzero next_random_0 in auto)

section \<open>Generated steps\<close>

definition step_ok :: "64 word \<Rightarrow> step \<Rightarrow> bool" where
  "step_ok tupleNum s \<longleftrightarrow> operation s \<in> {Read, Write} \<and> (\<exists>z. key s = z AND (tupleNum - 1))"

lemma make_steps_loop_ok:
  "make_steps_loop zipf tupleNum ratio n ro wo steps r = (steps', ro', wo', r') \<Longrightarrow> list_all (step_ok tupleNum) steps \<Longrightarrow>
   (ro \<longleftrightarrow> (\<forall>s \<in> set steps. operation s = Read)) \<Longrightarrow> (wo \<longleftrightarrow> (\<forall>s \<in> set steps. operation s = Write)) \<Longrightarrow>
   length steps' = length steps + n \<and> list_all (step_ok tupleNum) steps' \<and>
   (ro' \<longleftrightarrow> (\<forall>s \<in> set steps'. operation s = Read)) \<and> (wo' \<longleftrightarrow> (\<forall>s \<in> set steps'. operation s = Write))"
proof (induction n arbitrary: ro wo steps r)
  case (Suc n)
  obtain z r1 where z: "zipf r = (z, r1)" by fastforce
  obtain x r2 where x: "next_random r1 = (x, r2)" by fastforce
  show ?case
  proof (cases "x mod 100 < ratio")
    case True
    let ?s = "Step Read (z AND (tupleNum - 1))"
    have "make_steps_loop zipf tupleNum ratio n ro False (steps @ [?s]) r2 = (steps', ro', wo', r')"
      using Suc.prems(1) z x True by simp
    from Suc.IH [OF this] Suc.prems(2,3,4) show ?thesis by (auto simp: Step_def step_ok_def)
  next
    case False
    let ?s = "Step Write (z AND (tupleNum - 1))"
    have "make_steps_loop zipf tupleNum ratio n False wo (steps @ [?s]) r2 = (steps', ro', wo', r')"
      using Suc.prems(1) z x False by simp
    from Suc.IH [OF this] Suc.prems(2,3,4) show ?thesis by (auto simp: Step_def step_ok_def)
  qed
qed simp

lemma makeSteps_ok:
  assumes "0 < n"
  obtains s steps r' where "makeSteps zipf tupleNum n ratio r = Some (s # steps, r')" "length (s # steps) = n"
    "list_all (step_ok tupleNum) (s # steps)" "readOnly s \<longleftrightarrow> (\<forall>t \<in> set (s # steps). operation t = Read)"
    "writeOnly s \<longleftrightarrow> (\<forall>t \<in> set (s # steps). operation t = Write)"
proof -
  obtain steps ro wo r' where e: "make_steps_loop zipf tupleNum ratio n True True [] r = (steps, ro, wo, r')"
    by (metis prod_cases4)
  from make_steps_loop_ok [OF e] have a: "length steps = n" "list_all (step_ok tupleNum) steps"
    "ro \<longleftrightarrow> (\<forall>s \<in> set steps. operation s = Read)" "wo \<longleftrightarrow> (\<forall>s \<in> set steps. operation s = Write)" by simp_all
  with assms obtain s ss where s: "steps = s # ss" by (cases steps) auto
  show ?thesis
    by (rule that [of "s\<lparr>readOnly := ro, writeOnly := wo\<rparr>" ss r'])
      (use a in \<open>simp_all add: makeSteps_def e s step_ok_def\<close>)
qed

lemma mask_less:
  assumes "0 < tupleNum"
  shows "z AND (tupleNum - 1) < (tupleNum :: 64 word)"
proof -
  have "unat (z AND (tupleNum - 1)) \<le> unat (tupleNum - 1)"
    using word_and_le1 [of z "tupleNum - 1"] by (simp add: word_le_nat_alt)
  moreover have "unat (tupleNum - 1) < unat tupleNum"
    using assms by (simp add: unat_minus_one word_neq_0_conv unat_gt_0)
  ultimately show ?thesis by (simp add: word_less_nat_alt)
qed

lemma makeSteps_steps:
  assumes "0 < maxOp" and "0 < tupleNum"
  shows "\<exists>s steps r'. makeSteps zipf tupleNum maxOp ratio r = Some (s # steps, r') \<and> length (s # steps) = maxOp
    \<and> (\<forall>t \<in> set (s # steps). operation t \<noteq> RMW \<and> key t < tupleNum)
    \<and> (readOnly s \<longleftrightarrow> (\<forall>t \<in> set (s # steps). operation t = Read))
    \<and> (writeOnly s \<longleftrightarrow> (\<forall>t \<in> set (s # steps). operation t = Write))"
proof -
  have ok: "step_ok tupleNum t \<Longrightarrow> operation t \<noteq> RMW \<and> key t < tupleNum" for t
    using mask_less [OF assms(2)] by (auto simp: step_ok_def)
  obtain s steps r' where m: "makeSteps zipf tupleNum maxOp ratio r = Some (s # steps, r')" "length (s # steps) = maxOp"
    "list_all (step_ok tupleNum) (s # steps)" "readOnly s \<longleftrightarrow> (\<forall>t \<in> set (s # steps). operation t = Read)"
    "writeOnly s \<longleftrightarrow> (\<forall>t \<in> set (s # steps). operation t = Write)"
    using makeSteps_ok [OF assms(1)] by blast
  have "\<forall>t \<in> set (s # steps). operation t \<noteq> RMW \<and> key t < tupleNum"
    using m(3) ok unfolding list_all_iff by blast
  with m show ?thesis by blast
qed

text \<open>
  C16: with at least one operation asked for and a table that is not empty, whatever numbers are drawn,
  \<open>makeSteps\<close> makes exactly that many steps, each a read or a write of a key inside the table, and
  marks the first step read-only or write-only exactly when all steps are reads or writes.
\<close>

theorem steps_are_well_formed:
  assumes "0 < maxOp" and "0 < tupleNum"
  shows "\<exists>s steps r'. makeSteps zipf tupleNum maxOp ratio r = Some (s # steps, r') \<and> length (s # steps) = maxOp
    \<and> (\<forall>t \<in> set (s # steps). operation t \<noteq> RMW \<and> key t < tupleNum)
    \<and> (readOnly s \<longleftrightarrow> (\<forall>t \<in> set (s # steps). operation t = Read))
    \<and> (writeOnly s \<longleftrightarrow> (\<forall>t \<in> set (s # steps). operation t = Write))"
  using assms by (rule makeSteps_steps)

theorem steps_are_well_formed_witness:
  "\<exists>s steps r'. makeSteps (\<lambda>r. next_random r) 10000 10 50 (seed_rng 32) = Some (s # steps, r') \<and> length (s # steps) = 10
    \<and> (\<forall>t \<in> set (s # steps). operation t \<noteq> RMW \<and> key t < 10000)
    \<and> (readOnly s \<longleftrightarrow> (\<forall>t \<in> set (s # steps). operation t = Read))
    \<and> (writeOnly s \<longleftrightarrow> (\<forall>t \<in> set (s # steps). operation t = Write))"
  by (rule steps_are_well_formed) simp_all

lemma bit_9999: "bit (9999 :: 64 word) n \<longleftrightarrow> n \<in> {0, 1, 2, 3, 8, 9, 10, 13}"
proof (cases "n < 64")
  case True
  then have "n \<in> set [0..<64]" by simp
  moreover have "\<forall>n \<in> set [0..<64]. bit (9999 :: 64 word) n \<longleftrightarrow> n \<in> {0, 1, 2, 3, 8, 9, 10, 13}"
    by (simp add: upt_rec)
  ultimately show ?thesis by blast
next
  case False
  then show ?thesis by (auto dest: bit_imp_le_length)
qed

lemma masked_keys: "card (range (\<lambda>z :: 64 word. z AND 9999)) \<le> 256"
proof -
  let ?B = "{0, 1, 2, 3, 8, 9, 10, 13} :: nat set"
  have "inj_on (\<lambda>k. Collect (bit k)) (range (\<lambda>z :: 64 word. z AND 9999))"
    by (rule inj_onI) (metis bit_eqI mem_Collect_eq)
  moreover have "(\<lambda>k. Collect (bit k)) ` range (\<lambda>z :: 64 word. z AND 9999) \<subseteq> Pow ?B"
  proof -
    have "Collect (bit (z AND 9999)) \<subseteq> ?B" for z :: "64 word"
    proof
      fix n assume "n \<in> Collect (bit (z AND 9999))"
      then have "bit (9999 :: 64 word) n" by (simp only: mem_Collect_eq bit_and_iff)
      then show "n \<in> ?B" by (simp only: bit_9999)
    qed
    then show ?thesis by blast
  qed
  ultimately have "card (range (\<lambda>z :: 64 word. z AND 9999)) \<le> card (Pow ?B)"
    by (auto intro!: card_inj_on_le)
  then show ?thesis by (simp add: card_Pow)
qed

text \<open>
  C17: the keys that the generated steps of any seed, distribution and ratio touch in the table of 10000
  tuples are at most 256 of the 10000, because \<open>tupleNum - 1\<close> is used as a mask although
  \<open>tupleNum\<close> is not a power of two.
\<close>

theorem few_keys_are_touched:
  "card {key t | t zipf ratio n r steps r'. makeSteps zipf 10000 n ratio r = Some (steps, r') \<and> t \<in> set steps} \<le> 256"
proof -
  have "{key t | t zipf ratio n r steps r'. makeSteps zipf 10000 n ratio r = Some (steps, r') \<and> t \<in> set steps}
    \<subseteq> range (\<lambda>z :: 64 word. z AND 9999)"
  proof
    fix k assume "k \<in> {key t | t zipf ratio n r steps r'. makeSteps zipf 10000 n ratio r = Some (steps, r') \<and> t \<in> set steps}"
    then obtain t zipf ratio n r steps r' where k: "k = key t" "makeSteps zipf 10000 n ratio r = Some (steps, r')" "t \<in> set steps"
      by blast
    from k(2) have "0 < n" by (cases n) (simp_all add: makeSteps_def)
    from makeSteps_ok [OF this, of zipf 10000 ratio r] k(2) have "list_all (step_ok 10000) steps" by (metis option.inject prod.inject)
    with k(1,3) show "k \<in> range (\<lambda>z :: 64 word. z AND 9999)" by (auto simp: list_all_iff step_ok_def)
  qed
  then have "card {key t | t zipf ratio n r steps r'. makeSteps zipf 10000 n ratio r = Some (steps, r') \<and> t \<in> set steps}
    \<le> card (range (\<lambda>z :: 64 word. z AND 9999))"
    by (rule card_mono [rotated]) simp
  with masked_keys show ?thesis by linarith
qed

section \<open>The value a thread writes\<close>

lemma poke_from_append:
  "length pre = i \<Longrightarrow> length ys \<le> length xs \<Longrightarrow> poke_from (pre @ xs) i ys = Some (pre @ ys @ drop (length ys) xs)"
proof (induction ys arbitrary: pre xs i)
  case (Cons y ys)
  then obtain x xs' where "xs = x # xs'" by (cases xs) auto
  with Cons.prems Cons.IH [of "pre @ [y]" "Suc i" xs'] show ?case by (simp add: poke_def list_update_append)
qed simp

lemma length_digits: "length (digits n) = count_digits n"
  by (induction n rule: digits.induct) (subst digits.simps, subst count_digits.simps, simp add: div_eq_0_iff not_less)

text \<open>
  When the thread has fewer than \<open>valueSize - 2\<close> digits and the array has \<open>valueSize\<close> cells,
  \<open>genStringRepeatedNumber\<close> stays inside the array and leaves the digits followed by the
  character 0 in its first \<open>valueSize - 2\<close> cells and what was there before in the last two: the NUL
  that \<open>sprintf\<close> wrote is overwritten.
\<close>

theorem thread_value_is_not_terminated:
  assumes "count_digits threadId < unat valueSize - 2" and "length out = unat valueSize"
  shows "genStringRepeatedNumber out valueSize threadId =
    Some (List.map word_of_nat (digits threadId) @ replicate (unat valueSize - 2 - count_digits threadId) 48 @ drop (unat valueSize - 2) out)"
proof -
  let ?d = "count_digits threadId" and ?ds = "List.map word_of_nat (digits threadId) :: 8 word list"
  have v: "unat (valueSize - 2) = unat valueSize - 2"
    using assms(1) unat_sub [of 2 valueSize] by (simp add: word_le_nat_alt)
  have ld: "length ?ds = ?d" by (simp add: length_digits)
  have "poke_from out 0 (?ds @ [0]) = Some ([] @ (?ds @ [0]) @ drop (length (?ds @ [0])) out)"
    using poke_from_append [of "[]" 0 "?ds @ [0]" out] assms ld by simp
  then have 1: "poke_from out 0 (?ds @ [0]) = Some (?ds @ 0 # drop (Suc ?d) out)" using ld by simp
  let ?z = "replicate (unat valueSize - 2 - ?d) (48 :: 8 word)"
  have 2: "poke_from (?ds @ 0 # drop (Suc ?d) out) ?d ?z = Some (?ds @ ?z @ drop (length ?z) (0 # drop (Suc ?d) out))"
    by (rule poke_from_append [OF ld]) (use assms in simp)
  have 3: "drop (length ?z) (0 # drop (Suc ?d) out) = drop (unat valueSize - 2) out"
  proof -
    obtain m where "unat valueSize - 2 - ?d = Suc m" using assms(1) by (cases "unat valueSize - 2 - ?d") auto
    moreover from this have "m + Suc ?d = unat valueSize - 2" by linarith
    ultimately show ?thesis by simp
  qed
  show ?thesis by (simp only: genStringRepeatedNumber_def Let_def 1 option.case v 2 3)
qed

theorem thread_value_is_not_terminated_witness:
  "genStringRepeatedNumber [1, 2, 3, 4] 4 7 = Some [55, 48, 3, 4]"
proof -
  have "genStringRepeatedNumber [1, 2, 3, 4] 4 7 =
    Some (List.map word_of_nat (digits 7) @ replicate (unat (4 :: 64 word) - 2 - count_digits 7) 48 @ drop (unat (4 :: 64 word) - 2) [1, 2, 3, 4])"
    by (rule thread_value_is_not_terminated) simp_all
  then show ?thesis by simp
qed

end
