(* ===== verification/TidWord.thy ===== *)
theory TidWord
  imports Prelude "HOL-Library.Word"
begin

text \<open>
  The TID word of \<^verbatim>\<open>silo/tuple.h\<close> and \<^verbatim>\<open>kvsilo/record.h\<close>: a union of \<open>uint64_t body\<close> with bit
  fields, laid out from the least significant bit as the compilers the repository is built
  with do: \<open>lock\<close>, \<open>latest\<close>, \<open>absent\<close>, 29 bits of \<open>tid\<close> and 32 bits of \<open>epoch\<close>. The word is
  its body; a field is read out of it and a field assignment rebuilds it. Comparison is
  comparison of the bodies, so the epoch weighs most.
\<close>

type_synonym tid_word = "64 word"

section \<open>Fields\<close>

definition lock :: "tid_word \<Rightarrow> bool" where "lock w = bit w 0"
definition latest :: "tid_word \<Rightarrow> bool" where "latest w = bit w 1"
definition absent :: "tid_word \<Rightarrow> bool" where "absent w = bit w 2"
definition tid :: "tid_word \<Rightarrow> 29 word" where "tid w = ucast (drop_bit 3 w)"
definition epoch :: "tid_word \<Rightarrow> 32 word" where "epoch w = ucast (drop_bit 32 w)"

definition layout :: "bool \<Rightarrow> bool \<Rightarrow> bool \<Rightarrow> 29 word \<Rightarrow> 32 word \<Rightarrow> nat" where
  "layout l la ab t e = of_bool l + 2 * of_bool la + 4 * of_bool ab + 8 * unat t + 2 ^ 32 * unat e"

definition tid_word :: "bool \<Rightarrow> bool \<Rightarrow> bool \<Rightarrow> 29 word \<Rightarrow> 32 word \<Rightarrow> tid_word" where
  "tid_word l la ab t e = word_of_nat (layout l la ab t e)"

definition set_lock :: "bool \<Rightarrow> tid_word \<Rightarrow> tid_word" where
  "set_lock b w = tid_word b (latest w) (absent w) (tid w) (epoch w)"

definition set_latest :: "bool \<Rightarrow> tid_word \<Rightarrow> tid_word" where
  "set_latest b w = tid_word (lock w) b (absent w) (tid w) (epoch w)"

definition set_tid :: "29 word \<Rightarrow> tid_word \<Rightarrow> tid_word" where
  "set_tid t w = tid_word (lock w) (latest w) (absent w) t (epoch w)"

definition set_epoch :: "32 word \<Rightarrow> tid_word \<Rightarrow> tid_word" where
  "set_epoch e w = tid_word (lock w) (latest w) (absent w) (tid w) e"

text \<open>\<open>w.tid++\<close>, which wraps around at 29 bits.\<close>

definition tid_incr :: "tid_word \<Rightarrow> tid_word" where
  "tid_incr w = set_tid (tid w + 1) w"

section \<open>The layout as a number\<close>

lemma unat_29: "unat (t :: 29 word) < 536870912"
  using unsigned_less [where 'a = nat, of t] by simp

lemma unat_32: "unat (e :: 32 word) < 4294967296"
  using unsigned_less [where 'a = nat, of e] by simp

lemma unat_64: "unat (w :: 64 word) < 18446744073709551616"
  using unsigned_less [where 'a = nat, of w] by simp

lemma layout_less: "layout l la ab t e < 2 ^ 64"
  using unat_29 [of t] unat_32 [of e] by (auto simp: layout_def)

lemma unat_tid_word: "unat (tid_word l la ab t e) = layout l la ab t e"
  using layout_less [of l la ab t e] by (simp add: tid_word_def unsigned_of_nat take_bit_nat_eq_self)

lemma bit_unat: "bit (w :: 64 word) n \<longleftrightarrow> odd (unat w div 2 ^ n)"
  using bit_unsigned_iff [where 'a = nat, of w n] by (simp add: bit_iff_odd)

lemma lock_unat: "lock w \<longleftrightarrow> odd (unat w)"
  and latest_unat: "latest w \<longleftrightarrow> odd (unat w div 2)"
  and absent_unat: "absent w \<longleftrightarrow> odd (unat w div 4)"
  by (simp_all add: lock_def latest_def absent_def bit_unat)

lemma unat_tid: "unat (tid w) = unat w div 8 mod 2 ^ 29"
  by (simp add: tid_def unsigned_ucast_eq unsigned_drop_bit_eq take_bit_eq_mod drop_bit_eq_div unat_div)

lemma unat_epoch: "unat (epoch w) = unat w div 2 ^ 32"
  using unat_64 [of w] by (simp add: epoch_def unsigned_ucast_eq unsigned_drop_bit_eq take_bit_eq_mod drop_bit_eq_div unat_div)

section \<open>Fields and words determine each other\<close>

lemma nat_layout: "(n :: nat) = n mod 2 + 2 * (n div 2 mod 2) + 4 * (n div 4 mod 2) + 8 * (n div 8 mod 536870912) + 4294967296 * (n div 4294967296)"
proof -
  have "n div 8 = 536870912 * (n div 4294967296) + n div 8 mod 536870912"
    using div_mult2_eq [of n 8 536870912] by (simp add: mult_div_mod_eq)
  moreover have "n = n mod 2 + 2 * (n div 2)" "n div 2 = n div 2 mod 2 + 2 * (n div 4)" "n div 4 = n div 4 mod 2 + 2 * (n div 8)"
    using div_mult2_eq [of n 2 2] div_mult2_eq [of n 4 2] by (simp_all add: mod_mult_div_eq add.commute)
  ultimately show ?thesis by linarith
qed

lemma of_bool_odd: "of_bool (odd n) = (n mod 2 :: nat)"
  by (simp add: mod2_eq_if)

lemma layout_fields: "layout (lock w) (latest w) (absent w) (tid w) (epoch w) = unat w"
  using nat_layout [of "unat w"]
  by (simp add: layout_def lock_unat latest_unat absent_unat unat_tid unat_epoch of_bool_odd)

lemma tid_word_fields [simp]: "tid_word (lock w) (latest w) (absent w) (tid w) (epoch w) = w"
  by (rule word_unat_eq_iff [THEN iffD2]) (simp add: unat_tid_word layout_fields)

lemma layout_div:
  fixes t :: "29 word" and e :: "32 word" and l la ab :: bool
  defines "n \<equiv> layout l la ab t e"
  shows "odd n \<longleftrightarrow> l" "odd (n div 2) \<longleftrightarrow> la" "odd (n div 4) \<longleftrightarrow> ab" "n div 8 mod 536870912 = unat t" "n div 4294967296 = unat e"
proof -
  have t: "unat t < 536870912" by (rule unat_29)
  have n: "n = of_bool l + 2 * (of_bool la + 2 * (of_bool ab + 2 * (unat t + 536870912 * unat e)))"
    by (simp add: n_def layout_def)
  have b: "of_bool x < (2 :: nat)" for x by simp
  have d1: "n div 2 = of_bool la + 2 * (of_bool ab + 2 * (unat t + 536870912 * unat e))" unfolding n by simp
  have d2: "n div 4 = of_bool ab + 2 * (unat t + 536870912 * unat e)"
    using d1 div_mult2_eq [of n 2 2] by simp
  have d3: "n div 8 = unat t + 536870912 * unat e"
    using d2 div_mult2_eq [of n 4 2] by simp
  show "odd n \<longleftrightarrow> l" unfolding n by simp
  show "odd (n div 2) \<longleftrightarrow> la" unfolding d1 by simp
  show "odd (n div 4) \<longleftrightarrow> ab" unfolding d2 by simp
  show "n div 8 mod 536870912 = unat t" unfolding d3 using t by simp
  show "n div 4294967296 = unat e" using d3 div_mult2_eq [of n 8 536870912] t by simp
qed

lemma fields_tid_word [simp, tid_simps]:
  "lock (tid_word l la ab t e) = l" "latest (tid_word l la ab t e) = la" "absent (tid_word l la ab t e) = ab"
  "tid (tid_word l la ab t e) = t" "epoch (tid_word l la ab t e) = e"
  using layout_div [of l la ab t e]
  by (simp_all add: lock_unat latest_unat absent_unat word_unat_eq_iff unat_tid unat_epoch unat_tid_word)

lemma tid_word_eq_iff:
  "v = w \<longleftrightarrow> lock v = lock w \<and> latest v = latest w \<and> absent v = absent w \<and> tid v = tid w \<and> epoch v = epoch w"
proof
  assume "lock v = lock w \<and> latest v = latest w \<and> absent v = absent w \<and> tid v = tid w \<and> epoch v = epoch w"
  then have "tid_word (lock v) (latest v) (absent v) (tid v) (epoch v) = tid_word (lock w) (latest w) (absent w) (tid w) (epoch w)"
    by simp
  then show "v = w" by (simp only: tid_word_fields)
qed simp

lemma fields_set [simp, tid_simps]:
  "lock (set_lock b w) = b" "latest (set_lock b w) = latest w" "absent (set_lock b w) = absent w" "tid (set_lock b w) = tid w" "epoch (set_lock b w) = epoch w"
  "lock (set_latest b w) = lock w" "latest (set_latest b w) = b" "absent (set_latest b w) = absent w" "tid (set_latest b w) = tid w" "epoch (set_latest b w) = epoch w"
  "lock (set_tid t w) = lock w" "latest (set_tid t w) = latest w" "absent (set_tid t w) = absent w" "tid (set_tid t w) = t" "epoch (set_tid t w) = epoch w"
  "lock (set_epoch e w) = lock w" "latest (set_epoch e w) = latest w" "absent (set_epoch e w) = absent w" "tid (set_epoch e w) = tid w" "epoch (set_epoch e w) = e"
  "lock (tid_incr w) = lock w" "latest (tid_incr w) = latest w" "absent (tid_incr w) = absent w" "tid (tid_incr w) = tid w + 1" "epoch (tid_incr w) = epoch w"
  by (simp_all add: set_lock_def set_latest_def set_tid_def set_epoch_def tid_incr_def)

lemma fields_0 [simp, tid_simps]:
  "lock 0 = False" "latest 0 = False" "absent 0 = False" "tid 0 = 0" "epoch 0 = 0"
  by (simp_all add: lock_def latest_def absent_def tid_def epoch_def)

section \<open>Order\<close>

text \<open>The body as epoch, counter and status bits.\<close>

lemma unat_fields:
  "unat w = of_bool (lock w) + 2 * of_bool (latest w) + 4 * of_bool (absent w) + 8 * unat (tid w) + 4294967296 * unat (epoch w)"
  using layout_fields [of w] by (simp add: layout_def)

text \<open>The comparison of the bodies is lexicographic: epoch, counter, status bits.\<close>

lemma less_epoch: "epoch v < epoch w \<Longrightarrow> v < w"
  using unat_29 [of "tid v"] unfolding word_less_nat_alt unat_fields [of v] unat_fields [of w] by auto

lemma less_tid: "epoch v = epoch w \<Longrightarrow> tid v < tid w \<Longrightarrow> v < w"
  unfolding word_less_nat_alt unat_fields [of v] unat_fields [of w] by auto

lemma le_epoch: "v \<le> w \<Longrightarrow> epoch v \<le> epoch w"
  using less_epoch [of w v] by (meson not_le)

text \<open>Incrementing a counter that is not at its maximum raises the body by 8.\<close>

lemma unat_tid_incr:
  assumes "tid w \<noteq> - 1"
  shows "unat (tid_incr w) = unat w + 8"
proof -
  have "unat (tid w + 1) = unat (tid w) + 1"
    using assms unatSuc [of "tid w"] by (simp add: add.commute eq_neg_iff_add_eq_0)
  then show ?thesis unfolding unat_fields [of "tid_incr w"] unat_fields [of w] by simp
qed

lemma unat_set_lock: "unat (set_lock b w) + of_bool (lock w) = unat w + of_bool b"
  unfolding unat_fields [of "set_lock b w"] unat_fields [of w] by simp

lemma unat_set_latest: "unat (set_latest b w) + 2 * of_bool (latest w) = unat w + 2 * of_bool b"
  unfolding unat_fields [of "set_latest b w"] unat_fields [of w] by simp

end
