(* ===== verification/Silo.thy ===== *)
theory Silo
  imports TidWord Common Runs "HOL-Library.Multiset"
begin

text \<open>
  The Silo program, \<^verbatim>\<open>src/silo/\<close>: eight workers execute generated transactions on a shared table
  with the optimistic protocol of Silo (versions in TID words, locks in their lowest bit, epochs).

  A state is the shared memory (table, epochs, quit flag) and the local state of every worker.
  A worker's local state has the members of \<open>TXNExecutor\<close>, the local variables of \<open>worker\<close> and a
  program counter. One step of a worker performs at most one access to a word or byte of shared
  memory, with the local code around it; \<open>memcpy\<close> copies byte by byte, upwards. A run interleaves
  the workers' steps arbitrarily, so memory is sequentially consistent; the acquire and release
  orders of the accesses and the compiler fences are there to justify this.
\<close>

section \<open>Constants (\<^verbatim>\<open>consts.h\<close>) and records\<close>

abbreviation (input) "VALUE_SIZE \<equiv> 4 :: nat"
abbreviation (input) "THREAD_NUM \<equiv> 8 :: nat"
abbreviation (input) "MAX_OPERATIONS \<equiv> 10 :: nat"
abbreviation (input) "TUPLE_NUM \<equiv> 10000 :: 64 word"
abbreviation (input) "RATIO \<equiv> 50 :: 64 word"
abbreviation (input) "EPOCH_TICKS \<equiv> 40 * 2100 * 1000 :: 64 word"

text \<open>A tuple of the table; a pointer \<open>&Table[i]\<close> is its index \<open>i\<close>.\<close>

record tuple =
  tidWord :: tid_word
  val :: "8 word list"

record shared =
  Table :: "64 word \<Rightarrow> tuple"
  GlobalEpoch :: "64 word"
  ThreadLocalEpochs :: "nat \<Rightarrow> 64 word"
  quit :: bool

definition set_tidWord :: "64 word \<Rightarrow> tid_word \<Rightarrow> shared \<Rightarrow> shared" where
  "set_tidWord p w S = S\<lparr>Table := (Table S)(p := (Table S p)\<lparr>tidWord := w\<rparr>)\<rparr>"

definition set_byte :: "64 word \<Rightarrow> nat \<Rightarrow> 8 word \<Rightarrow> shared \<Rightarrow> shared" where
  "set_byte p i b S = S\<lparr>Table := (Table S)(p := (Table S p)\<lparr>val := (val (Table S p))[i := b]\<rparr>)\<rparr>"

section \<open>The local sets (\<^verbatim>\<open>op_elemet.h\<close>) and a worker's state\<close>

record write_element =
  op_key :: "64 word"
  recordPtr :: "64 word"

record read_element = write_element +
  read_tid :: tid_word
  read_value :: "8 word list"

datatype TXNStatus = Active | Committed | Aborted

text \<open>
  Program counters: \<open>Loop\<close> is the head of the loop of \<open>worker\<close> and \<open>Retry\<close> its label \<open>RETRY\<close>;
  \<open>CheckEpoch\<close>, \<open>AddEpoch0\<close> and \<open>AddEpoch\<close> are in \<open>stepEpochTime\<close> with the clock's reading (and the
  epoch read and the next worker to look at, or the expected epoch); \<open>Ops\<close> is the loop over the
  steps left; \<open>Spin\<close> and \<open>Copy\<close> are in \<open>read\<close> with the key, \<open>expected\<close> and the number of bytes copied;
  \<open>LockLoad\<close> and \<open>LockTry\<close> are in \<open>lockWriteSet\<close> at an element of the write set, \<open>ReadEpoch\<close>,
  \<open>StoreEpoch\<close> and \<open>Validate\<close> in \<open>validationPhase\<close>, \<open>Unlock\<close> and \<open>UnlockStore\<close> in \<open>unlockWriteSet\<close>,
  \<open>ChooseTid\<close> and \<open>Install\<close> in \<open>writePhase\<close>, \<open>Install i j T\<close> about to copy byte \<open>j\<close> into element \<open>i\<close>
  (or to store the TID word when the bytes are copied). \<open>Failed\<close> is the exit of \<open>ERR\<close>.
\<close>

datatype pc =
    Loop | Retry | CheckQuit | Stopped | Failed
  | CheckEpoch "64 word" "64 word" nat
  | AddEpoch0 "64 word"
  | AddEpoch "64 word" "64 word"
  | Ops "step list"
  | Spin "64 word" tid_word "step list"
  | Copy "64 word" tid_word nat "step list"
  | LockLoad nat
  | LockTry nat tid_word
  | ReadEpoch
  | StoreEpoch "64 word"
  | Validate nat
  | Unlock nat
  | UnlockStore nat tid_word
  | ChooseTid
  | Install nat nat tid_word

record executor =
  steps :: "step list"
  readSet :: "read_element list"
  writeSet :: "write_element list"
  status :: TXNStatus
  mostRecentlyChosenTid :: tid_word
  maxReadTid :: tid_word
  maxWriteTid :: tid_word
  writeValue :: "8 word list"
  returnValue :: "8 word list"
  random :: rng
  epochTimerStart :: "64 word"
  commits :: "64 word"
  aborts :: "64 word"
  pc :: pc

section \<open>\<^verbatim>\<open>TXNExecutor\<close>\<close>

definition searchReadSet :: "executor \<Rightarrow> 64 word \<Rightarrow> read_element option" where
  "searchReadSet x k = List.find (\<lambda>e. op_key e = k) (readSet x)"

definition searchWriteSet :: "executor \<Rightarrow> 64 word \<Rightarrow> write_element option" where
  "searchWriteSet x k = List.find (\<lambda>e. op_key e = k) (writeSet x)"

definition begin_txn :: "executor \<Rightarrow> executor" where
  "begin_txn x = x\<lparr>status := Active, maxReadTid := 0, maxWriteTid := 0\<rparr>"

definition abort_txn :: "executor \<Rightarrow> executor" where
  "abort_txn x = x\<lparr>readSet := [], writeSet := []\<rparr>"

definition write_op :: "executor \<Rightarrow> 64 word \<Rightarrow> executor" where
  "write_op x k =
    (if searchWriteSet x k \<noteq> None then x
     else x\<lparr>writeSet := writeSet x @
       [\<lparr>op_key = k, recordPtr = (case searchReadSet x k of Some re \<Rightarrow> recordPtr re | None \<Rightarrow> k)\<rparr>]\<rparr>)"

text \<open>
  \<open>read\<close>: nothing for a key that the transaction has read or written; otherwise the TID word is
  loaded until it is unlocked, the bytes are copied, and the word is loaded again.
\<close>

definition read_op :: "shared \<Rightarrow> executor \<Rightarrow> 64 word \<Rightarrow> step list \<Rightarrow> executor" where
  "read_op S x k ops =
    (if searchReadSet x k \<noteq> None \<or> searchWriteSet x k \<noteq> None then x\<lparr>pc := Ops ops\<rparr>
     else x\<lparr>pc := Spin k (tidWord (Table S k)) ops\<rparr>)"

definition read_spin :: "shared \<Rightarrow> executor \<Rightarrow> 64 word \<Rightarrow> tid_word \<Rightarrow> step list \<Rightarrow> executor" where
  "read_spin S x k expected ops =
    (if lock expected then x\<lparr>pc := Spin k (tidWord (Table S k)) ops\<rparr>
     else x\<lparr>pc := Copy k expected 0 ops\<rparr>)"

definition read_copy :: "shared \<Rightarrow> executor \<Rightarrow> 64 word \<Rightarrow> tid_word \<Rightarrow> nat \<Rightarrow> step list \<Rightarrow> executor" where
  "read_copy S x k expected i ops =
    (if i < VALUE_SIZE
     then x\<lparr>returnValue := (returnValue x)[i := val (Table S k) ! i], pc := Copy k expected (Suc i) ops\<rparr>
     else let check = tidWord (Table S k) in
       if expected = check
       then x\<lparr>readSet := readSet x @ [\<lparr>op_key = k, recordPtr = k, read_tid = expected, read_value = returnValue x\<rparr>],
              pc := Ops ops\<rparr>
       else x\<lparr>pc := Spin k check ops\<rparr>)"

text \<open>\<open>lockWriteSet\<close>, from element \<open>i\<close> on.\<close>

definition lock_next :: "executor \<Rightarrow> nat \<Rightarrow> executor" where
  "lock_next x i = x\<lparr>pc := (if i < length (writeSet x) then LockLoad i else ReadEpoch)\<rparr>"

definition lock_load :: "shared \<Rightarrow> executor \<Rightarrow> nat \<Rightarrow> executor" where
  "lock_load S x i = x\<lparr>pc := LockTry i (tidWord (Table S (recordPtr (writeSet x ! i))))\<rparr>"

definition lock_try :: "shared \<Rightarrow> executor \<Rightarrow> nat \<Rightarrow> tid_word \<Rightarrow> shared \<times> executor" where
  "lock_try S x i expected =
    (let p = recordPtr (writeSet x ! i); w = tidWord (Table S p) in
     if lock expected then (S, x\<lparr>pc := LockTry i w\<rparr>)
     else if w = expected
     then (set_tidWord p (set_lock True expected) S,
           lock_next (x\<lparr>maxWriteTid := max (maxWriteTid x) expected\<rparr>) (Suc i))
     else (S, x\<lparr>pc := LockTry i w\<rparr>))"

text \<open>\<open>unlockWriteSet\<close>, from element \<open>i\<close> on, and what \<open>worker\<close> does after a failed validation.\<close>

definition unlock_next :: "executor \<Rightarrow> nat \<Rightarrow> executor" where
  "unlock_next x i =
    (if i < length (writeSet x) then x\<lparr>pc := Unlock i\<rparr>
     else (abort_txn x)\<lparr>aborts := aborts x + 1, pc := Retry\<rparr>)"

definition unlock_load :: "shared \<Rightarrow> executor \<Rightarrow> nat \<Rightarrow> executor" where
  "unlock_load S x i =
    x\<lparr>pc := UnlockStore i (set_lock False (tidWord (Table S (recordPtr (writeSet x ! i)))))\<rparr>"

definition unlock_store :: "shared \<Rightarrow> executor \<Rightarrow> nat \<Rightarrow> tid_word \<Rightarrow> shared \<times> executor" where
  "unlock_store S x i desired =
    (set_tidWord (recordPtr (writeSet x ! i)) desired S, unlock_next x (Suc i))"

text \<open>\<open>validationPhase\<close>: the sort before the locks, and the validation of element \<open>i\<close> of the read set.\<close>

definition start_validation :: "executor \<Rightarrow> executor" where
  "start_validation x = lock_next (x\<lparr>writeSet := sort_key op_key (writeSet x)\<rparr>) 0"

definition validation_fails :: "executor \<Rightarrow> read_element \<Rightarrow> tid_word \<Rightarrow> bool" where
  "validation_fails x re check \<longleftrightarrow> tid (read_tid re) \<noteq> tid check
    \<or> (lock check \<and> searchWriteSet x (op_key re) = None)
    \<or> epoch (read_tid re) \<noteq> epoch check"

definition validate :: "shared \<Rightarrow> executor \<Rightarrow> nat \<Rightarrow> executor" where
  "validate S x i =
    (if i < length (readSet x) then
       let check = tidWord (Table S (recordPtr (readSet x ! i))) in
       if validation_fails x (readSet x ! i) check
       then unlock_next (x\<lparr>status := Aborted\<rparr>) 0
       else x\<lparr>maxReadTid := max (maxReadTid x) check, pc := Validate (Suc i)\<rparr>
     else x\<lparr>status := Committed, pc := ChooseTid\<rparr>)"

text \<open>\<open>writePhase\<close>: the choice of the transaction's TID, and the installation of the writes.\<close>

definition chosen_tid :: "executor \<Rightarrow> 64 word \<Rightarrow> tid_word" where
  "chosen_tid x e_w =
    (let tidA = tid_incr (max (maxWriteTid x) (maxReadTid x));
         tidB = tid_incr (mostRecentlyChosenTid x);
         tidC = set_epoch (ucast e_w) 0;
         maxTid = max (max tidA tidB) tidC
     in set_latest True (set_lock False maxTid))"

definition install_next :: "executor \<Rightarrow> nat \<Rightarrow> tid_word \<Rightarrow> executor" where
  "install_next x i T =
    (if i < length (writeSet x) then x\<lparr>pc := Install i 0 T\<rparr>
     else x\<lparr>readSet := [], writeSet := [], commits := commits x + 1, pc := Loop\<rparr>)"

definition choose_tid :: "nat \<Rightarrow> shared \<Rightarrow> executor \<Rightarrow> executor" where
  "choose_tid th S x =
    (let T = chosen_tid x (ThreadLocalEpochs S th) in install_next (x\<lparr>mostRecentlyChosenTid := T\<rparr>) 0 T)"

definition install :: "shared \<Rightarrow> executor \<Rightarrow> nat \<Rightarrow> nat \<Rightarrow> tid_word \<Rightarrow> shared \<times> executor" where
  "install S x i j T =
    (let p = recordPtr (writeSet x ! i) in
     if j < VALUE_SIZE then (set_byte p j (writeValue x ! j) S, x\<lparr>pc := Install i (Suc j) T\<rparr>)
     else (set_tidWord p T S, install_next x (Suc i) T))"

section \<open>Epochs (\<^verbatim>\<open>epoch.h\<close>)\<close>

definition check_epoch :: "shared \<Rightarrow> executor \<Rightarrow> 64 word \<Rightarrow> 64 word \<Rightarrow> nat \<Rightarrow> executor" where
  "check_epoch S x stop nowEpoch i =
    (if i < THREAD_NUM
     then if ThreadLocalEpochs S i \<noteq> nowEpoch then x\<lparr>pc := CheckQuit\<rparr>
          else x\<lparr>pc := CheckEpoch stop nowEpoch (Suc i)\<rparr>
     else x\<lparr>pc := AddEpoch0 stop\<rparr>)"

definition add_epoch :: "shared \<Rightarrow> executor \<Rightarrow> 64 word \<Rightarrow> 64 word \<Rightarrow> shared \<times> executor" where
  "add_epoch S x stop expected =
    (if GlobalEpoch S = expected
     then (S\<lparr>GlobalEpoch := expected + 1\<rparr>, x\<lparr>epochTimerStart := stop, pc := CheckQuit\<rparr>)
     else (S, x\<lparr>pc := AddEpoch stop (GlobalEpoch S)\<rparr>))"

definition step_epoch_time :: "shared \<Rightarrow> executor \<Rightarrow> 64 word \<Rightarrow> executor" where
  "step_epoch_time S x stop =
    (if checkClockSpan (epochTimerStart x) stop EPOCH_TICKS
     then x\<lparr>pc := CheckEpoch stop (GlobalEpoch S) 1\<rparr> else x\<lparr>pc := CheckQuit\<rparr>)"

section \<open>\<^verbatim>\<open>worker\<close>\<close>

definition next_txn :: "zipf \<Rightarrow> shared \<Rightarrow> executor \<Rightarrow> executor" where
  "next_txn zipf S x =
    (if quit S then x\<lparr>pc := Stopped\<rparr>
     else case makeSteps zipf TUPLE_NUM MAX_OPERATIONS RATIO (random x) of
       None \<Rightarrow> x\<lparr>pc := Failed\<rparr>
     | Some (ss, r) \<Rightarrow> x\<lparr>steps := ss, random := r, pc := Retry\<rparr>)"

definition check_quit :: "shared \<Rightarrow> executor \<Rightarrow> executor" where
  "check_quit S x = (if quit S then x\<lparr>pc := Stopped\<rparr> else (begin_txn x)\<lparr>pc := Ops (steps x)\<rparr>)"

definition next_op :: "shared \<Rightarrow> executor \<Rightarrow> step list \<Rightarrow> executor" where
  "next_op S x ops =
    (case ops of
      [] \<Rightarrow> start_validation x
    | s # ops \<Rightarrow> (case operation s of
        Read \<Rightarrow> read_op S x (key s) ops
      | Write \<Rightarrow> (write_op x (key s))\<lparr>pc := Ops ops\<rparr>
      | RMW \<Rightarrow> x\<lparr>pc := Failed\<rparr>))"

text \<open>
  One step of worker \<open>th\<close>; \<open>clock\<close> is what the time stamp counter shows. The quit flag is read at
  \<open>Loop\<close> and at \<open>CheckQuit\<close>. A worker that has stopped or failed stays as it is.
\<close>

definition worker_step :: "zipf \<Rightarrow> nat \<Rightarrow> 64 word \<Rightarrow> shared \<Rightarrow> executor \<Rightarrow> shared \<times> executor" where
  "worker_step zipf th clock S x =
    (case pc x of
      Loop \<Rightarrow> (S, next_txn zipf S x)
    | Retry \<Rightarrow> (S, if th = 0 then step_epoch_time S x clock else x\<lparr>pc := CheckQuit\<rparr>)
    | CheckEpoch stop e i \<Rightarrow> (S, check_epoch S x stop e i)
    | AddEpoch0 stop \<Rightarrow> (S, x\<lparr>pc := AddEpoch stop (GlobalEpoch S)\<rparr>)
    | AddEpoch stop e \<Rightarrow> add_epoch S x stop e
    | CheckQuit \<Rightarrow> (S, check_quit S x)
    | Ops ops \<Rightarrow> (S, next_op S x ops)
    | Spin k e ops \<Rightarrow> (S, read_spin S x k e ops)
    | Copy k e i ops \<Rightarrow> (S, read_copy S x k e i ops)
    | LockLoad i \<Rightarrow> (S, lock_load S x i)
    | LockTry i e \<Rightarrow> lock_try S x i e
    | ReadEpoch \<Rightarrow> (S, x\<lparr>pc := StoreEpoch (GlobalEpoch S)\<rparr>)
    | StoreEpoch e \<Rightarrow> (S\<lparr>ThreadLocalEpochs := (ThreadLocalEpochs S)(th := e)\<rparr>, x\<lparr>pc := Validate 0\<rparr>)
    | Validate i \<Rightarrow> (S, validate S x i)
    | Unlock i \<Rightarrow> (S, unlock_load S x i)
    | UnlockStore i d \<Rightarrow> unlock_store S x i d
    | ChooseTid \<Rightarrow> (S, choose_tid th S x)
    | Install i j T \<Rightarrow> install S x i j T
    | Stopped \<Rightarrow> (S, x)
    | Failed \<Rightarrow> (S, x))"

section \<open>The program (\<^verbatim>\<open>main.cpp\<close>)\<close>

text \<open>
  \<open>init\<close>: the allocated table has arbitrary content; each of \<open>m\<close> builder threads sets epoch,
  latest, lock and the first two bytes of the tuples of its part. The parts are done one after the other, which makes no difference
  when they are disjoint.
\<close>

definition init_tuple :: "tuple \<Rightarrow> tuple" where
  "init_tuple t = \<lparr>tidWord = set_lock False (set_latest True (set_epoch 1 (tidWord t))), val = (val t)[0 := 97, 1 := 0]\<rparr>"

definition part_init :: "nat \<Rightarrow> nat \<Rightarrow> (64 word \<Rightarrow> tuple) \<Rightarrow> 64 word \<Rightarrow> tuple" where
  "part_init start stop T = fold (\<lambda>i T. T(word_of_nat i := init_tuple (T (word_of_nat i)))) [start..<Suc stop] T"

definition init_table :: "nat \<Rightarrow> (64 word \<Rightarrow> tuple) \<Rightarrow> (64 word \<Rightarrow> tuple) option" where
  "init_table hw T =
    (case decideParallelTableBuildNumber hw (unat TUPLE_NUM) of
      None \<Rightarrow> None
    | Some m \<Rightarrow> Some (fold (\<lambda>i. part_init (i * (unat TUPLE_NUM div m)) ((i + 1) * (unat TUPLE_NUM div m) - 1)) [0..<m] T))"

text \<open>
  The state when \<open>start\<close> is set: the table as \<open>init\<close> leaves it, both kinds of epochs 0 (the global one by
  its constructor, the local ones when the allocator returns cleared memory), every worker at the
  head of its loop as its constructor leaves it.
\<close>

definition fresh_executor :: "nat \<Rightarrow> executor \<Rightarrow> bool" where
  "fresh_executor th x \<longleftrightarrow> pc x = Loop \<and> steps x = [] \<and> readSet x = [] \<and> writeSet x = [] \<and> mostRecentlyChosenTid x = 0
    \<and> maxReadTid x = 0 \<and> maxWriteTid x = 0 \<and> random x = seed_rng 32 \<and> length (returnValue x) = VALUE_SIZE
    \<and> (\<exists>out. length out = VALUE_SIZE \<and> genStringRepeatedNumber out (word_of_nat VALUE_SIZE) th = Some (writeValue x))"

type_synonym world = "shared \<times> (nat \<Rightarrow> executor)"

definition silo_init :: "world \<Rightarrow> bool" where
  "silo_init W \<longleftrightarrow> (\<forall>k < TUPLE_NUM. \<exists>t. length (val t) = VALUE_SIZE \<and> Table (fst W) k = init_tuple t)
    \<and> GlobalEpoch (fst W) = 0 \<and> (\<forall>th. ThreadLocalEpochs (fst W) th = 0) \<and> \<not> quit (fst W)
    \<and> (\<forall>th < THREAD_NUM. fresh_executor th (snd W th))"

inductive silo_step :: "zipf \<Rightarrow> world \<Rightarrow> world \<Rightarrow> bool" for zipf where
  worker: "th < THREAD_NUM \<Longrightarrow> worker_step zipf th clock S (X th) = (S', x') \<Longrightarrow> silo_step zipf (S, X) (S', X(th := x'))"
| main_quits: "silo_step zipf (S, X) (S\<lparr>quit := True\<rparr>, X)"

inductive_cases silo_stepE: "silo_step zipf W W'"

end
