(* ===== verification/Silo_Local.thy ===== *)
theory Silo_Local
  imports Silo Common_Props
begin

text \<open>
  What the local state of a Silo worker satisfies at each program counter: its read and write sets
  are well formed, its indices are in range, and the steps it has left touch the table only; and
  the set of records whose locks it holds there.
\<close>

named_theorems silo_defs \<open>the operations of the Silo program\<close>
declare searchReadSet_def [silo_defs] searchWriteSet_def [silo_defs] begin_txn_def [silo_defs]
  abort_txn_def [silo_defs] write_op_def [silo_defs] read_op_def [silo_defs] read_spin_def [silo_defs]
  read_copy_def [silo_defs] lock_next_def [silo_defs] lock_load_def [silo_defs] lock_try_def [silo_defs]
  unlock_next_def [silo_defs] unlock_load_def [silo_defs] unlock_store_def [silo_defs]
  start_validation_def [silo_defs] validate_def [silo_defs] install_next_def [silo_defs]
  choose_tid_def [silo_defs] install_def [silo_defs] check_epoch_def [silo_defs] add_epoch_def [silo_defs]
  step_epoch_time_def [silo_defs] next_txn_def [silo_defs] check_quit_def [silo_defs] next_op_def [silo_defs]

section \<open>The local state of a worker\<close>

definition ptrs :: "executor \<Rightarrow> 64 word list" where
  "ptrs x = map recordPtr (writeSet x)"

text \<open>The records whose locks a worker holds, by its program counter.\<close>

definition held :: "executor \<Rightarrow> 64 word set" where
  "held x = (case pc x of
      LockLoad i \<Rightarrow> set (take i (ptrs x)) | LockTry i e \<Rightarrow> set (take i (ptrs x))
    | ReadEpoch \<Rightarrow> set (ptrs x) | StoreEpoch e \<Rightarrow> set (ptrs x) | Validate i \<Rightarrow> set (ptrs x) | ChooseTid \<Rightarrow> set (ptrs x)
    | Unlock i \<Rightarrow> set (drop i (ptrs x)) | UnlockStore i d \<Rightarrow> set (drop i (ptrs x)) | Install i j T \<Rightarrow> set (drop i (ptrs x))
    | _ \<Rightarrow> {})"

definition element_ok :: "'a write_element_scheme \<Rightarrow> bool" where
  "element_ok e \<longleftrightarrow> recordPtr e = op_key e \<and> op_key e < TUPLE_NUM"

definition ops_ok :: "step list \<Rightarrow> bool" where
  "ops_ok ops \<longleftrightarrow> (\<forall>s \<in> set ops. operation s \<noteq> RMW \<and> key s < TUPLE_NUM)"

definition sets_ok :: "executor \<Rightarrow> bool" where
  "sets_ok x \<longleftrightarrow> (\<forall>e \<in> set (writeSet x). element_ok e) \<and> distinct (ptrs x)
    \<and> (\<forall>e \<in> set (readSet x). element_ok e \<and> length (read_value e) = VALUE_SIZE)
    \<and> length (returnValue x) = VALUE_SIZE \<and> length (writeValue x) = VALUE_SIZE \<and> ops_ok (steps x)"

definition pc_ok :: "executor \<Rightarrow> bool" where
  "pc_ok x \<longleftrightarrow> (case pc x of
      Ops ops \<Rightarrow> ops_ok ops
    | Spin k e ops \<Rightarrow> k < TUPLE_NUM \<and> ops_ok ops
    | Copy k e i ops \<Rightarrow> k < TUPLE_NUM \<and> ops_ok ops \<and> i \<le> VALUE_SIZE
    | LockLoad i \<Rightarrow> i < length (writeSet x) \<and> sorted (ptrs x)
    | LockTry i e \<Rightarrow> i < length (writeSet x) \<and> sorted (ptrs x)
    | ReadEpoch \<Rightarrow> True | StoreEpoch e \<Rightarrow> True | ChooseTid \<Rightarrow> True
    | Validate i \<Rightarrow> i \<le> length (readSet x)
    | Unlock i \<Rightarrow> i < length (writeSet x)
    | UnlockStore i d \<Rightarrow> i < length (writeSet x)
    | Install i j T \<Rightarrow> i < length (writeSet x) \<and> j \<le> VALUE_SIZE
    | Failed \<Rightarrow> False
    | _ \<Rightarrow> readSet x = [] \<and> writeSet x = [])"

definition local_ok :: "executor \<Rightarrow> bool" where
  "local_ok x \<longleftrightarrow> sets_ok x \<and> pc_ok x"

lemma find_None: "List.find P xs = None \<longleftrightarrow> (\<forall>x \<in> set xs. \<not> P x)"
  by (induction xs) auto

lemma find_SomeD: "List.find P xs = Some x \<Longrightarrow> x \<in> set xs \<and> P x"
  by (induction xs) (auto split: if_splits)

lemma sorted_ptrs_sort:
  assumes "\<forall>e \<in> set ws. element_ok e"
  shows "sorted (map recordPtr (sort_key op_key ws))"
proof -
  have "map recordPtr (sort_key op_key ws) = map op_key (sort_key op_key ws)"
    by (rule map_cong) (use assms in \<open>simp_all add: element_ok_def\<close>)
  then show ?thesis by (simp only: sorted_sort_key)
qed

lemma distinct_ptrs_sort: "distinct (map recordPtr (sort_key op_key ws)) = distinct (map recordPtr ws)"
proof -
  have "mset (map recordPtr (sort_key op_key ws)) = mset (map recordPtr ws)" by simp
  then show ?thesis by (metis mset_eq_imp_distinct_iff)
qed

text \<open>Every method keeps the local state well formed.\<close>

lemma local_write_op:
  assumes "sets_ok x" "k < TUPLE_NUM"
  shows "sets_ok (write_op x k)" "readSet (write_op x k) = readSet x"
proof -
  have "\<forall>re. searchReadSet x k = Some re \<longrightarrow> recordPtr re = k"
    using assms(1) by (auto simp: sets_ok_def element_ok_def searchReadSet_def dest!: find_SomeD)
  then have "(case searchReadSet x k of Some re \<Rightarrow> recordPtr re | None \<Rightarrow> k) = k" by (cases "searchReadSet x k") auto
  moreover have "searchWriteSet x k = None \<Longrightarrow> k \<notin> set (ptrs x)"
    using assms(1) by (auto simp: sets_ok_def element_ok_def searchWriteSet_def find_None ptrs_def)
  ultimately show "sets_ok (write_op x k)"
    using assms by (auto simp: write_op_def sets_ok_def ptrs_def element_ok_def)
qed (simp add: write_op_def)

lemma local_next_op:
  assumes "sets_ok x" "ops_ok ops"
  shows "local_ok (next_op S x ops)"
proof (cases ops)
  case Nil
  then show ?thesis
    using assms sorted_ptrs_sort [of "writeSet x"] distinct_ptrs_sort [of "writeSet x"]
    by (auto simp: local_ok_def next_op_def start_validation_def lock_next_def sets_ok_def pc_ok_def ptrs_def)
next
  case (Cons s ops')
  from assms(2) Cons have s: "key s < TUPLE_NUM" "operation s \<noteq> RMW" "ops_ok ops'" by (auto simp: ops_ok_def)
  show ?thesis
  proof (cases "operation s")
    case Write
    have "sets_ok ((write_op x (key s))\<lparr>pc := Ops ops'\<rparr>)"
      using local_write_op(1) [OF assms(1) s(1)] by (simp add: sets_ok_def ptrs_def)
    with Write Cons s show ?thesis by (simp add: local_ok_def next_op_def pc_ok_def)
  qed (use assms s Cons in \<open>auto simp: local_ok_def next_op_def read_op_def sets_ok_def pc_ok_def ptrs_def\<close>)
qed

lemma local_next_txn:
  assumes "sets_ok x" "readSet x = []" "writeSet x = []"
  shows "local_ok (next_txn zipf S x)"
proof -
  have "0 < MAX_OPERATIONS" "0 < TUPLE_NUM" by simp_all
  from makeSteps_steps [OF this, of zipf RATIO "random x"]
  obtain s ss r where m: "makeSteps zipf TUPLE_NUM MAX_OPERATIONS RATIO (random x) = Some (s # ss, r)"
    and "\<forall>t \<in> set (s # ss). operation t \<noteq> RMW \<and> key t < TUPLE_NUM" by metis
  then have "ops_ok (s # ss)" unfolding ops_ok_def by blast
  with m assms show ?thesis by (auto simp: local_ok_def next_txn_def sets_ok_def pc_ok_def ptrs_def)
qed

lemma local_read_copy:
  assumes "local_ok x" "pc x = Copy k e i ops"
  shows "local_ok (read_copy S x k e i ops)"
  using assms by (auto simp: local_ok_def read_copy_def Let_def sets_ok_def pc_ok_def ptrs_def element_ok_def)

lemma local_lock_try:
  assumes "local_ok x" "pc x = LockTry i e" "lock_try S x i e = (S', x')"
  shows "local_ok x'"
  using assms by (auto simp: local_ok_def lock_try_def lock_next_def Let_def sets_ok_def pc_ok_def ptrs_def split: if_splits)

lemma local_unlock_next: "sets_ok x \<Longrightarrow> local_ok (unlock_next x i)"
  by (auto simp: local_ok_def unlock_next_def abort_txn_def sets_ok_def pc_ok_def ptrs_def)

lemma local_install_next: "sets_ok x \<Longrightarrow> local_ok (install_next x i T)"
  by (auto simp: local_ok_def install_next_def sets_ok_def pc_ok_def ptrs_def)

lemma local_validate:
  assumes "local_ok x" "pc x = Validate i"
  shows "local_ok (validate S x i)"
proof -
  have "sets_ok (x\<lparr>status := Aborted\<rparr>)" using assms by (simp add: local_ok_def sets_ok_def ptrs_def)
  note un = local_unlock_next [OF this, of 0]
  let ?c = "tidWord (Table S (recordPtr (readSet x ! i)))"
  show ?thesis
  proof (cases "i < length (readSet x) \<and> validation_fails x (readSet x ! i) ?c")
    case True
    with un show ?thesis by (simp add: validate_def)
  next
    case False
    with assms show ?thesis by (auto simp: validate_def Let_def local_ok_def sets_ok_def pc_ok_def ptrs_def)
  qed
qed

lemma sets_ok_update [simp]:
  "sets_ok (x\<lparr>pc := p\<rparr>) = sets_ok x" "sets_ok (x\<lparr>mostRecentlyChosenTid := T\<rparr>) = sets_ok x"
  "sets_ok (x\<lparr>epochTimerStart := w\<rparr>) = sets_ok x" "sets_ok (begin_txn x) = sets_ok x"
  by (simp_all add: sets_ok_def ptrs_def begin_txn_def)

lemma worker_local_ok:
  assumes "local_ok x" "worker_step zipf th clock S x = (S', x')"
  shows "local_ok x'"
proof -
  have s: "sets_ok x" and p: "pc_ok x" using assms(1) by (simp_all add: local_ok_def)
  show ?thesis
  proof (cases "pc x")
    case Loop
    then show ?thesis using assms(2) p local_next_txn [OF s] by (auto simp: worker_step_def pc_ok_def)
  next
    case (Ops ops)
    then show ?thesis using assms(2) p local_next_op [OF s] by (auto simp: worker_step_def pc_ok_def)
  next
    case (Copy k e i ops)
    then show ?thesis using assms(2) local_read_copy [OF assms(1)] by (auto simp: worker_step_def)
  next
    case (LockTry i e)
    then show ?thesis using assms(2) local_lock_try [OF assms(1)] by (auto simp: worker_step_def)
  next
    case (Validate i)
    then show ?thesis using assms(2) local_validate [OF assms(1)] by (auto simp: worker_step_def)
  next
    case (UnlockStore i d)
    then show ?thesis using assms(2) local_unlock_next [OF s] by (auto simp: worker_step_def unlock_store_def)
  next
    case ChooseTid
    then show ?thesis using assms(2) s by (auto simp: worker_step_def choose_tid_def Let_def intro: local_install_next)
  next
    case (Install i j T)
    then show ?thesis using assms(2) p s local_install_next [OF s]
      by (auto simp: worker_step_def install_def Let_def local_ok_def pc_ok_def split: if_splits)
  qed (use assms(2) s p in \<open>auto simp: worker_step_def local_ok_def pc_ok_def begin_txn_def step_epoch_time_def
      check_epoch_def add_epoch_def check_quit_def read_spin_def lock_load_def unlock_load_def sets_ok_def ptrs_def split: if_splits\<close>)
qed

end
