(* ===== verification/Silo_Locks.thy ===== *)
theory Silo_Locks
  imports Silo_Local
begin

text \<open>
  Which locks are held by whom. Every step of a worker has one of five effects on the table: none,
  the acquisition of an unlocked record, the release of a held one, the overwriting of a byte of a
  held one, the installation of a TID in a held one. From this the lock bits say exactly which
  records the workers hold, and no record is held twice.
\<close>

section \<open>The effect of a step on the table\<close>

definition locked :: "shared \<Rightarrow> 64 word \<Rightarrow> bool" where
  "locked S k \<longleftrightarrow> lock (tidWord (Table S k))"

definition version :: "shared \<Rightarrow> 64 word \<Rightarrow> tid_word" where
  "version S k = set_lock False (tidWord (Table S k))"

text \<open>The record whose bytes the worker is in the middle of overwriting.\<close>

definition dirty_by :: "executor \<Rightarrow> 64 word \<Rightarrow> bool" where
  "dirty_by x k \<longleftrightarrow> (case pc x of Install i j T \<Rightarrow> 0 < j \<and> ptrs x ! i = k | _ \<Rightarrow> False)"

definition own_lock :: "shared \<Rightarrow> executor \<Rightarrow> bool" where
  "own_lock S x \<longleftrightarrow> (case pc x of UnlockStore i d \<Rightarrow> d = version S (ptrs x ! i) | Install i j T \<Rightarrow> \<not> lock T \<and> latest T | _ \<Rightarrow> True)"

inductive table_effect :: "shared \<Rightarrow> executor \<Rightarrow> shared \<Rightarrow> executor \<Rightarrow> bool" where
  keep: "Table S' = Table S \<Longrightarrow> held x' = held x \<Longrightarrow> dirty_by x' = dirty_by x \<Longrightarrow> table_effect S x S' x'"
| acquire: "p < TUPLE_NUM \<Longrightarrow> \<not> locked S p \<Longrightarrow> S' = set_tidWord p (set_lock True (tidWord (Table S p))) S \<Longrightarrow>
    held x' = insert p (held x) \<Longrightarrow> \<forall>k. \<not> dirty_by x k \<Longrightarrow> \<forall>k. \<not> dirty_by x' k \<Longrightarrow> table_effect S x S' x'"
| release: "p \<in> held x \<Longrightarrow> S' = set_tidWord p (version S p) S \<Longrightarrow> held x' = held x - {p} \<Longrightarrow>
    \<forall>k. \<not> dirty_by x k \<Longrightarrow> \<forall>k. \<not> dirty_by x' k \<Longrightarrow> table_effect S x S' x'"
| byte: "p \<in> held x \<Longrightarrow> S' = set_byte p i b S \<Longrightarrow> held x' = held x \<Longrightarrow>
    \<forall>k. dirty_by x k \<longrightarrow> k = p \<Longrightarrow> \<forall>k. dirty_by x' k \<longleftrightarrow> k = p \<Longrightarrow> table_effect S x S' x'"
| install: "p \<in> held x \<Longrightarrow> S' = set_tidWord p T S \<Longrightarrow> pc x = Install i j T \<Longrightarrow> \<not> lock T \<Longrightarrow> latest T \<Longrightarrow> held x' = held x - {p} \<Longrightarrow>
    \<forall>k. dirty_by x k \<longrightarrow> k = p \<Longrightarrow> \<forall>k. \<not> dirty_by x' k \<Longrightarrow> table_effect S x S' x'"

inductive_cases table_effectE: "table_effect S x S' x'"

lemma dirty_by_Install: "pc x = Install i j T \<Longrightarrow> dirty_by x k \<longleftrightarrow> 0 < j \<and> ptrs x ! i = k"
  by (simp add: dirty_by_def)

lemma dirty_by_other: "(\<And>i j T. pc x \<noteq> Install i j T) \<Longrightarrow> \<not> dirty_by x k"
  by (simp add: dirty_by_def split: pc.splits)

lemma held_in_table: "local_ok x \<Longrightarrow> k \<in> held x \<Longrightarrow> k < TUPLE_NUM"
  by (auto simp: local_ok_def sets_ok_def held_def ptrs_def element_ok_def split: pc.splits
      dest!: in_set_takeD in_set_dropD)

lemma ptrs_nth: "i < length (writeSet x) \<Longrightarrow> recordPtr (writeSet x ! i) = ptrs x ! i"
  by (simp add: ptrs_def)

lemma length_ptrs [simp]: "length (ptrs x) = length (writeSet x)"
  by (simp add: ptrs_def)

lemma held_unlock_next: "held (unlock_next x i) = set (drop i (ptrs x))" "\<not> dirty_by (unlock_next x i) k"
  by (auto simp: unlock_next_def held_def abort_txn_def ptrs_def dirty_by_def)

lemma held_install_next: "held (install_next x i T) = set (drop i (ptrs x))" "\<not> dirty_by (install_next x i T) k"
  by (auto simp: install_next_def held_def ptrs_def dirty_by_def)

lemma held_lock_next: "i \<le> length (writeSet x) \<Longrightarrow> held (lock_next x i) = set (take i (ptrs x))" "\<not> dirty_by (lock_next x i) k"
  by (auto simp: lock_next_def held_def ptrs_def dirty_by_def)

lemma effect_lock_try:
  assumes "local_ok x" "pc x = LockTry i e" "lock_try S x i e = (S', x')"
  shows "table_effect S x S' x'"
proof -
  have i: "i < length (writeSet x)" using assms(1,2) by (simp add: local_ok_def pc_ok_def)
  let ?p = "ptrs x ! i"
  show ?thesis
  proof (cases "\<not> lock e \<and> tidWord (Table S ?p) = e")
    case True
    show ?thesis
    proof (rule table_effect.acquire)
      have "?p \<in> set (ptrs x)" using i by simp
      then show "?p < TUPLE_NUM" using assms(1) by (auto simp: local_ok_def sets_ok_def ptrs_def element_ok_def)
      show "\<not> locked S ?p" using True by (simp add: locked_def)
      show "S' = set_tidWord ?p (set_lock True (tidWord (Table S ?p))) S"
        using assms(3) True by (simp add: lock_try_def Let_def ptrs_nth [OF i] split: if_splits)
      have "x' = lock_next (x\<lparr>maxWriteTid := max (maxWriteTid x) e\<rparr>) (Suc i)"
        using assms(3) True by (simp add: lock_try_def Let_def ptrs_nth [OF i] split: if_splits)
      then have "held x' = set (take (Suc i) (ptrs x))" and d: "\<And>k. \<not> dirty_by x' k"
        using held_lock_next [where i = "Suc i" and x = "x\<lparr>maxWriteTid := max (maxWriteTid x) e\<rparr>"] i by (simp_all add: ptrs_def)
      then show "held x' = insert ?p (held x)" using assms(2) i by (simp add: held_def set_take_Suc)
      show "\<forall>k. \<not> dirty_by x' k" using d by simp
      show "\<forall>k. \<not> dirty_by x k" using assms(2) by (simp add: dirty_by_def)
    qed
  next
    case False
    then show ?thesis using assms i
      by (intro table_effect.keep) (auto simp: lock_try_def Let_def held_def dirty_by_def ptrs_def split: if_splits)
  qed
qed

lemma effect_install:
  assumes "local_ok x" "own_lock S x" "pc x = Install i j T" "install S x i j T = (S', x')"
  shows "table_effect S x S' x'"
proof -
  have i: "i < length (writeSet x)" and d: "distinct (ptrs x)" using assms(1,3) by (simp_all add: local_ok_def pc_ok_def sets_ok_def)
  have h: "held x = set (drop i (ptrs x))" using assms(3) by (simp add: held_def)
  have p: "ptrs x ! i \<in> held x" using i nth_in_drop [of i "ptrs x"] h by simp
  show ?thesis
  proof (cases "j < VALUE_SIZE")
    case True
    then have "S' = set_byte (ptrs x ! i) j (writeValue x ! j) S" "x' = x\<lparr>pc := Install i (Suc j) T\<rparr>"
      using assms(4) by (simp_all add: install_def Let_def ptrs_nth [OF i])
    with p assms(3) show ?thesis
      by (intro table_effect.byte [where p = "ptrs x ! i"]) (auto simp: held_def dirty_by_def ptrs_def)
  next
    case False
    then have "S' = set_tidWord (ptrs x ! i) T S" "x' = install_next x (Suc i) T"
      using assms(4) by (simp_all add: install_def Let_def ptrs_nth [OF i])
    with p assms(2,3) d i h show ?thesis
      by (intro table_effect.install [where p = "ptrs x ! i"])
        (auto simp: own_lock_def held_install_next set_drop_Suc dirty_by_Install)
  qed
qed

lemma effect_unlock_store:
  assumes "local_ok x" "own_lock S x" "pc x = UnlockStore i d" "unlock_store S x i d = (S', x')"
  shows "table_effect S x S' x'"
proof -
  have i: "i < length (writeSet x)" and dist: "distinct (ptrs x)" using assms(1,3) by (simp_all add: local_ok_def pc_ok_def sets_ok_def)
  have h: "held x = set (drop i (ptrs x))" using assms(3) by (simp add: held_def)
  have p: "ptrs x ! i \<in> held x" using i nth_in_drop [of i "ptrs x"] h by simp
  have "S' = set_tidWord (ptrs x ! i) (version S (ptrs x ! i)) S" "x' = unlock_next x (Suc i)"
    using assms(2-4) by (simp_all add: unlock_store_def own_lock_def ptrs_nth [OF i])
  with p assms(3) dist i h show ?thesis
    by (intro table_effect.release [where p = "ptrs x ! i"]) (auto simp: held_unlock_next set_drop_Suc dirty_by_other)
qed

lemma keep_next_op:
  assumes "pc x = Ops ops"
  shows "held (next_op S x ops) = {} \<and> (\<forall>k. \<not> dirty_by (next_op S x ops) k)"
proof (cases ops)
  case Nil
  then show ?thesis by (simp add: next_op_def start_validation_def held_lock_next)
next
  case (Cons s ops')
  then show ?thesis by (cases "operation s") (simp_all add: next_op_def read_op_def held_def dirty_by_def)
qed

lemma keep_validate:
  assumes "pc x = Validate i"
  shows "held (validate S x i) = held x \<and> (\<forall>k. \<not> dirty_by (validate S x i) k)"
proof (cases "i < length (readSet x) \<and> validation_fails x (readSet x ! i) (tidWord (Table S (recordPtr (readSet x ! i))))")
  case True
  then have "validate S x i = unlock_next (x\<lparr>status := Aborted\<rparr>) 0" by (simp add: validate_def)
  then show ?thesis using assms held_unlock_next [of "x\<lparr>status := Aborted\<rparr>" 0]
    by (simp add: held_def [of x] ptrs_def)
next
  case False
  with assms show ?thesis by (auto simp: validate_def Let_def held_def dirty_by_def ptrs_def)
qed

lemma pc_next_txn: "pc (next_txn zipf S x) \<in> {Stopped, Failed, Retry}"
  by (simp add: next_txn_def split: option.split)

lemma held_idle: "pc x \<in> {Loop, Retry, CheckQuit, Stopped, Failed} \<Longrightarrow> held x = {}" "pc x \<in> {Loop, Retry, CheckQuit, Stopped, Failed} \<Longrightarrow> \<not> dirty_by x k"
  by (auto simp: held_def dirty_by_def)

lemma worker_effect:
  assumes "local_ok x" "own_lock S x" "worker_step zipf th clock S x = (S', x')"
  shows "table_effect S x S' x'"
proof (cases "pc x")
  case (LockTry i e)
  then show ?thesis using assms effect_lock_try by (simp add: worker_step_def)
next
  case (Install i j T)
  then show ?thesis using assms effect_install by (simp add: worker_step_def)
next
  case (UnlockStore i d)
  then show ?thesis using assms effect_unlock_store by (simp add: worker_step_def)
next
  case (Ops ops)
  then have "Table S' = Table S" "x' = next_op S x ops" using assms(3) by (auto simp: worker_step_def)
  with keep_next_op [OF Ops] Ops show ?thesis
    by (intro table_effect.keep) (simp_all add: held_def [of x] fun_eq_iff dirty_by_other)
next
  case (Validate i)
  then have "Table S' = Table S" "x' = validate S x i" using assms(3) by (auto simp: worker_step_def)
  with keep_validate [OF Validate] Validate show ?thesis
    by (intro table_effect.keep) (simp_all add: fun_eq_iff dirty_by_other)
next
  case ChooseTid
  then show ?thesis using assms(3)
    by (intro table_effect.keep) (auto simp: worker_step_def choose_tid_def Let_def held_install_next fun_eq_iff held_def [of x] dirty_by_other [of x] ptrs_def)
next
  case Loop
  then have "Table S' = Table S" "x' = next_txn zipf S x" using assms(3) by (auto simp: worker_step_def)
  moreover have "pc (next_txn zipf S x) \<in> {Loop, Retry, CheckQuit, Stopped, Failed}" using pc_next_txn by blast
  ultimately show ?thesis using Loop held_idle [of x] held_idle [of "next_txn zipf S x"]
    by (intro table_effect.keep) (simp_all add: fun_eq_iff)
qed (use assms(3) in \<open>auto simp: worker_step_def step_epoch_time_def begin_txn_def
      check_epoch_def add_epoch_def check_quit_def read_spin_def read_copy_def lock_load_def unlock_load_def
      held_def dirty_by_def ptrs_def Let_def fun_eq_iff intro!: table_effect.keep split: if_splits\<close>)

section \<open>The lock bits\<close>

lemma set_tidWord_simps [simp]:
  "tidWord (Table (set_tidWord p w S) k) = (if k = p then w else tidWord (Table S k))"
  "val (Table (set_tidWord p w S) k) = val (Table S k)"
  "tidWord (Table (set_byte p i b S) k) = tidWord (Table S k)"
  "val (Table (set_byte p i b S) k) = (if k = p then (val (Table S k))[i := b] else val (Table S k))"
  by (simp_all add: set_tidWord_def set_byte_def)

lemma locked_simps [simp]:
  "locked (set_tidWord p w S) k = (if k = p then lock w else locked S k)" "locked (set_byte p i b S) k = locked S k"
  "version (set_tidWord p w S) k = (if k = p then set_lock False w else version S k)" "version (set_byte p i b S) k = version S k"
  by (simp_all add: locked_def version_def)

lemma locked_cong [simp]:
  "locked (S\<lparr>quit := b\<rparr>) k = locked S k" "version (S\<lparr>quit := b\<rparr>) k = version S k"
  "own_lock (S\<lparr>quit := b\<rparr>) x = own_lock S x"
  by (simp_all add: locked_def version_def own_lock_def split: pc.splits)

lemma set_lock_set_lock [simp]: "set_lock b (set_lock c w) = set_lock b w"
  by (simp add: set_lock_def)

lemma set_lock_same [simp]: "\<not> lock w \<Longrightarrow> set_lock False w = w"
  using tid_word_fields [of w] by (simp add: set_lock_def)

lemma version_version [simp]: "set_lock False (version S k) = version S k" "\<not> lock (version S k)" "latest (version S k) = latest (tidWord (Table S k))"
  by (simp_all add: version_def)

definition locks_ok :: "shared \<Rightarrow> (nat \<Rightarrow> executor) \<Rightarrow> bool" where
  "locks_ok S X \<longleftrightarrow> (\<forall>th < THREAD_NUM. local_ok (X th) \<and> own_lock S (X th))
    \<and> (\<forall>k < TUPLE_NUM. locked S k \<longleftrightarrow> (\<exists>th < THREAD_NUM. k \<in> held (X th)))
    \<and> (\<forall>th < THREAD_NUM. \<forall>th' < THREAD_NUM. th \<noteq> th' \<longrightarrow> held (X th) \<inter> held (X th') = {})
    \<and> (\<forall>k < TUPLE_NUM. latest (tidWord (Table S k)) \<and> length (val (Table S k)) = VALUE_SIZE)"

text \<open>A worker's own step.\<close>

lemma own_lock_unlock_next: "own_lock S (unlock_next x i)"
  by (simp add: own_lock_def unlock_next_def)

lemma own_lock_lock_next: "own_lock S (lock_next x i)"
  by (simp add: own_lock_def lock_next_def)

lemma own_lock_install_next: "\<not> lock T \<Longrightarrow> latest T \<Longrightarrow> own_lock S (install_next x i T)"
  by (simp add: own_lock_def install_next_def)

lemma own_lock_other: "(\<And>i d. pc x \<noteq> UnlockStore i d) \<Longrightarrow> (\<And>i j T. pc x \<noteq> Install i j T) \<Longrightarrow> own_lock S x"
  by (simp add: own_lock_def split: pc.splits)

lemma pc_lock_next: "pc (lock_next x i) \<noteq> UnlockStore j d" "pc (lock_next x i) \<noteq> Install i' j' T"
  by (simp_all add: lock_next_def)

lemma worker_own_lock:
  assumes "local_ok x" "own_lock S x" "worker_step zipf th clock S x = (S', x')"
  shows "own_lock S' x'"
proof (cases "pc x")
  case (Ops ops)
  have "pc (next_op S x ops) \<noteq> UnlockStore i d" "pc (next_op S x ops) \<noteq> Install i j T" for i j d T
    by (auto simp: next_op_def start_validation_def lock_next_def read_op_def split: list.splits operation.splits)
  then have "own_lock S' (next_op S x ops)" by (rule own_lock_other)
  then show ?thesis using assms(3) Ops by (auto simp: worker_step_def)
next
  case (Validate i)
  have "pc (validate S x i) \<noteq> UnlockStore i' d" "pc (validate S x i) \<noteq> Install i' j T" for i' j d T
    by (auto simp: validate_def Let_def unlock_next_def)
  then have "own_lock S' (validate S x i)" by (rule own_lock_other)
  then show ?thesis using assms(3) Validate by (auto simp: worker_step_def)
next
  case (LockTry i e)
  then show ?thesis using assms(3)
    by (auto simp: worker_step_def lock_try_def Let_def pc_lock_next intro!: own_lock_other split: if_splits)
next
  case (Unlock i)
  with assms show ?thesis
    by (auto simp: worker_step_def unlock_load_def own_lock_def version_def local_ok_def pc_ok_def ptrs_def)
next
  case (UnlockStore i d)
  then show ?thesis using assms(3) by (auto simp: worker_step_def unlock_store_def own_lock_unlock_next)
next
  case ChooseTid
  then show ?thesis using assms(3)
    by (auto simp: worker_step_def choose_tid_def Let_def chosen_tid_def intro!: own_lock_install_next)
next
  case (Install i j T)
  then have T: "\<not> lock T" "latest T" using assms(2) by (simp_all add: own_lock_def)
  then show ?thesis using assms(3) Install
    by (auto simp: worker_step_def install_def Let_def own_lock_def [of _ "x\<lparr>pc := Install i (Suc j) T\<rparr>"]
        intro!: own_lock_install_next split: if_splits)
next
  case Loop
  then show ?thesis using assms(3)
    by (auto simp: worker_step_def next_txn_def intro!: own_lock_other split: option.splits if_splits)
qed (use assms(3) in \<open>auto simp: worker_step_def step_epoch_time_def begin_txn_def
      check_epoch_def add_epoch_def check_quit_def read_spin_def read_copy_def lock_load_def Let_def
      intro!: own_lock_other split: if_splits\<close>)

text \<open>The step of another worker: it does not touch what this one holds.\<close>

lemma effect_others:
  assumes "table_effect S x S' x'" "k \<notin> held x" "locked S k \<or> k \<notin> held x'"
  shows "Table S' k = Table S k"
  using assms by (cases rule: table_effect.cases) (auto simp: set_tidWord_def set_byte_def)

lemma own_lock_others:
  assumes "own_lock S y" "local_ok y" "\<And>k. k \<in> held y \<Longrightarrow> Table S' k = Table S k"
  shows "own_lock S' y"
proof (cases "pc y")
  case (UnlockStore i d)
  then have "ptrs y ! i \<in> held y" using assms(2) nth_in_drop [of i "ptrs y"] by (simp add: held_def local_ok_def pc_ok_def)
  with assms UnlockStore show ?thesis by (simp add: own_lock_def version_def)
qed (use assms in \<open>simp_all add: own_lock_def\<close>)

lemma locks_ok_worker:
  assumes ok: "locks_ok S X" and th: "th < THREAD_NUM" and step: "worker_step zipf th clock S (X th) = (S', x')"
  shows "locks_ok S' (X(th := x'))"
proof -
  let ?x = "X th" and ?X = "X(th := x')"
  have l: "local_ok ?x" and o: "own_lock S ?x" using ok th by (simp_all add: locks_ok_def)
  have e: "table_effect S ?x S' x'" by (rule worker_effect [OF l o step])
  have l': "local_ok x'" by (rule worker_local_ok [OF l step])
  have o': "own_lock S' x'" by (rule worker_own_lock [OF l o step])
  have excl: "k \<notin> held ?x" if "th' < THREAD_NUM" "th' \<noteq> th" "k \<in> held (X th')" for k th'
    using ok th that unfolding locks_ok_def by (metis disjoint_iff)
  have lk: "locked S k" if "th' < THREAD_NUM" "k \<in> held (X th')" for k th'
    using ok that held_in_table [of "X th'" k] by (auto simp: locks_ok_def)
  have others: "Table S' k = Table S k" if "th' < THREAD_NUM" "th' \<noteq> th" "k \<in> held (X th')" for k th'
    using effect_others [OF e] excl [OF that] lk [OF that(1,3)] by blast
  have 1: "\<forall>t < THREAD_NUM. local_ok (?X t) \<and> own_lock S' (?X t)"
  proof (intro allI impI)
    fix t :: nat assume t: "t < THREAD_NUM"
    show "local_ok (?X t) \<and> own_lock S' (?X t)"
    proof (cases "t = th")
      case False
      then show ?thesis using ok t own_lock_others [of S "X t" S'] others [OF t False] by (auto simp: locks_ok_def)
    qed (use l' o' in simp)
  qed
  have held': "k \<in> held ?x \<or> \<not> locked S k" if "k \<in> held x'" for k
    using e that by (cases rule: table_effect.cases) auto
  have 2: "held (?X t) \<inter> held (?X t') = {}" if "t < THREAD_NUM" "t' < THREAD_NUM" "t \<noteq> t'" for t t'
  proof -
    have "held x' \<inter> held (X u) = {}" if "u < THREAD_NUM" "u \<noteq> th" for u
      using held' excl [OF that] lk [OF that(1)] by blast
    then show ?thesis using that ok by (auto simp: locks_ok_def)
  qed
  have ex: "(\<exists>t < THREAD_NUM. k \<in> held (?X t)) \<longleftrightarrow> k \<in> held x' \<or> (\<exists>t < THREAD_NUM. t \<noteq> th \<and> k \<in> held (X t))" for k
    using th by auto
  have ex0: "locked S k \<longleftrightarrow> k \<in> held ?x \<or> (\<exists>t < THREAD_NUM. t \<noteq> th \<and> k \<in> held (X t))" if "k < TUPLE_NUM" for k
    using ok th that unfolding locks_ok_def by metis
  have locks': "locked S' k \<longleftrightarrow> k \<in> held x' \<or> (\<exists>t < THREAD_NUM. t \<noteq> th \<and> k \<in> held (X t))" if k: "k < TUPLE_NUM" for k
    using e
  proof (cases rule: table_effect.cases)
    case keep
    then show ?thesis using ex0 [OF k] by (simp add: locked_def)
  next
    case (acquire p)
    then show ?thesis using ex0 [OF k] by auto
  next
    case (release p)
    then show ?thesis using ex0 [OF k] excl by auto
  next
    case (byte p i b)
    then show ?thesis using ex0 [OF k] by auto
  next
    case (install p T i j)
    then show ?thesis using ex0 [OF k] excl by auto
  qed
  have 3: "locked S' k \<longleftrightarrow> (\<exists>t < THREAD_NUM. k \<in> held (?X t))" if k: "k < TUPLE_NUM" for k
    unfolding ex by (rule locks' [OF k])
  have 4: "latest (tidWord (Table S' k)) \<and> length (val (Table S' k)) = VALUE_SIZE" if "k < TUPLE_NUM" for k
    using e ok that by (cases rule: table_effect.cases) (auto simp: locks_ok_def)
  show ?thesis unfolding locks_ok_def using 1 2 3 4 by blast
qed

lemma locks_ok_step: "locks_ok (fst W) (snd W) \<Longrightarrow> silo_step zipf W W' \<Longrightarrow> locks_ok (fst W') (snd W')"
proof (erule silo_stepE)
  fix S X assume "locks_ok (fst W) (snd W)" "W = (S, X)" "W' = (S\<lparr>quit := True\<rparr>, X)"
  then show ?thesis by (simp add: locks_ok_def)
qed (simp add: locks_ok_worker)

lemma genString_length: "genStringRepeatedNumber out n t = Some v \<Longrightarrow> length v = length out"
proof -
  have "poke_from xs i ys = Some zs \<Longrightarrow> length zs = length xs" for xs zs :: "8 word list" and ys i
    by (induction xs i ys rule: poke_from.induct) (auto simp: poke_def split: if_splits)
  then show "genStringRepeatedNumber out n t = Some v \<Longrightarrow> length v = length out"
    by (auto simp: genStringRepeatedNumber_def Let_def split: option.splits)
qed

lemma locks_ok_init:
  assumes "silo_init W"
  shows "locks_ok (fst W) (snd W)"
proof -
  have "local_ok x \<and> own_lock S x \<and> held x = {}" if "fresh_executor th x" for th x S
    using that by (auto simp: fresh_executor_def ops_ok_def local_ok_def sets_ok_def pc_ok_def ptrs_def own_lock_def held_def dest!: genString_length)
  moreover have "\<not> locked (fst W) k \<and> latest (tidWord (Table (fst W) k)) \<and> length (val (Table (fst W) k)) = VALUE_SIZE" if "k < TUPLE_NUM" for k
    using assms that by (auto simp: silo_init_def init_tuple_def locked_def)
  ultimately show ?thesis using assms by (auto simp: locks_ok_def silo_init_def)
qed

interpretation silo_locks: invariant_of silo_init "silo_step zipf" "\<lambda>W. locks_ok (fst W) (snd W)" for zipf
  by unfold_locales (fact locks_ok_init, fact locks_ok_step)

end
