(* ===== verification/Silo_Versions.thy ===== *)
theory Silo_Versions
  imports Silo_Locks
begin

text \<open>
  The versions of the records. The epoch and the counter of a TID word are its stamp. As long as no
  counter is at its maximum when a TID is chosen, the stamp of a record only grows, strictly with each
  installation, and what a transaction has read of a record is what the record holds whenever its
  stamp is still the one read and nobody is in the middle of overwriting it.
\<close>

section \<open>Stamps\<close>

definition stamp :: "tid_word \<Rightarrow> nat" where
  "stamp w = unat w div 8"

lemma stamp_fields: "stamp w = 2 ^ 29 * unat (epoch w) + unat (tid w)"
proof -
  have "unat w = (of_bool (lock w) + 2 * of_bool (latest w) + 4 * of_bool (absent w)) + 8 * (536870912 * unat (epoch w) + unat (tid w))"
    unfolding unat_fields [of w] by simp
  moreover have "of_bool (lock w) + 2 * of_bool (latest w) + 4 * of_bool (absent w) < (8 :: nat)" by (cases "lock w"; cases "latest w"; cases "absent w") simp_all
  ultimately show ?thesis by (simp add: stamp_def)
qed

lemma stamp_cong: "tid v = tid w \<Longrightarrow> epoch v = epoch w \<Longrightarrow> stamp v = stamp w"
  by (simp add: stamp_fields)

lemma stamp_set [simp]: "stamp (set_lock b w) = stamp w" "stamp (set_latest b w) = stamp w"
  by (simp_all add: stamp_fields)

lemma stamp_mono: "v \<le> w \<Longrightarrow> stamp v \<le> stamp w"
  by (simp add: stamp_def word_le_nat_alt div_le_mono)

lemma stamp_tid_incr: "tid w \<noteq> - 1 \<Longrightarrow> stamp (tid_incr w) = Suc (stamp w)"
  by (simp add: stamp_def unat_tid_incr)

lemma stamp_less: "stamp v < stamp w \<Longrightarrow> v < w"
  using stamp_mono [of w v] by (meson leD leI)

lemma stamp_tid_word: "stamp (tid_word l la ab t e) = 2 ^ 29 * unat e + unat t"
  by (simp add: stamp_fields)

text \<open>A worker whose next TID would come from a counter that wraps around.\<close>

definition saturated :: "executor \<Rightarrow> bool" where
  "saturated x \<longleftrightarrow> tid (max (maxWriteTid x) (maxReadTid x)) = - 1 \<or> tid (mostRecentlyChosenTid x) = - 1"

lemma chosen_tid_stamp:
  assumes "\<not> saturated x"
  shows "stamp (maxWriteTid x) < stamp (chosen_tid x e)" "stamp (maxReadTid x) < stamp (chosen_tid x e)"
    "stamp (mostRecentlyChosenTid x) < stamp (chosen_tid x e)"
    "2 ^ 29 * unat (ucast e :: 32 word) \<le> stamp (chosen_tid x e)"
proof -
  let ?A = "tid_incr (max (maxWriteTid x) (maxReadTid x))" and ?B = "tid_incr (mostRecentlyChosenTid x)"
    and ?C = "set_epoch (ucast e) 0"
  have T: "stamp (chosen_tid x e) = stamp (max (max ?A ?B) ?C)" by (simp add: chosen_tid_def Let_def)
  have A: "stamp ?A \<le> stamp (chosen_tid x e)" and B: "stamp ?B \<le> stamp (chosen_tid x e)" and C: "stamp ?C \<le> stamp (chosen_tid x e)"
    unfolding T by (rule stamp_mono, simp add: le_max_iff_disj)+
  have "Suc (stamp (max (maxWriteTid x) (maxReadTid x))) \<le> stamp (chosen_tid x e)"
    using A assms by (simp add: saturated_def stamp_tid_incr)
  moreover have "stamp (maxWriteTid x) \<le> stamp (max (maxWriteTid x) (maxReadTid x))"
    "stamp (maxReadTid x) \<le> stamp (max (maxWriteTid x) (maxReadTid x))" by (rule stamp_mono, simp)+
  ultimately show "stamp (maxWriteTid x) < stamp (chosen_tid x e)" "stamp (maxReadTid x) < stamp (chosen_tid x e)" by linarith+
  show "stamp (mostRecentlyChosenTid x) < stamp (chosen_tid x e)"
    using B assms by (simp add: saturated_def stamp_tid_incr)
  show "2 ^ 29 * unat (ucast e :: 32 word) \<le> stamp (chosen_tid x e)"
    using C by (simp add: stamp_fields [of ?C])
qed

section \<open>What a worker knows of the versions\<close>

definition rec_stamp :: "shared \<Rightarrow> 64 word \<Rightarrow> nat" where
  "rec_stamp S k = stamp (tidWord (Table S k))"

definition dirty :: "(nat \<Rightarrow> executor) \<Rightarrow> 64 word \<Rightarrow> bool" where
  "dirty X k \<longleftrightarrow> (\<exists>th < THREAD_NUM. dirty_by (X th) k)"

definition own_stamps :: "shared \<Rightarrow> executor \<Rightarrow> bool" where
  "own_stamps S x \<longleftrightarrow> (case pc x of
      Install i j T \<Rightarrow> \<forall>k \<in> held x. rec_stamp S k < stamp T
    | Unlock i \<Rightarrow> True | UnlockStore i d \<Rightarrow> True
    | _ \<Rightarrow> \<forall>k \<in> held x. rec_stamp S k \<le> stamp (maxWriteTid x))"

text \<open>
  The bytes \<open>vs\<close> were read of record \<open>k\<close> at stamp \<open>n\<close>: the record's stamp is no smaller now, and while
  it is the same and nobody overwrites the record, the bytes are those of the record.
\<close>

definition promise :: "shared \<Rightarrow> (64 word \<Rightarrow> bool) \<Rightarrow> 64 word \<Rightarrow> nat \<Rightarrow> 8 word list \<Rightarrow> bool" where
  "promise S D k n vs \<longleftrightarrow> n \<le> rec_stamp S k \<and> (rec_stamp S k = n \<and> \<not> D k \<longrightarrow> take (length vs) (val (Table S k)) = vs)"

definition own_reads :: "shared \<Rightarrow> (64 word \<Rightarrow> bool) \<Rightarrow> executor \<Rightarrow> bool" where
  "own_reads S D x \<longleftrightarrow>
    (\<forall>re \<in> set (readSet x). promise S D (recordPtr re) (stamp (read_tid re)) (read_value re)) \<and>
    (case pc x of
      Spin k e ops \<Rightarrow> stamp e \<le> rec_stamp S k
    | Copy k e i ops \<Rightarrow> promise S D k (stamp e) (take i (returnValue x))
    | Validate i \<Rightarrow> \<forall>re \<in> set (take i (readSet x)). stamp (read_tid re) \<le> stamp (maxReadTid x)
    | ChooseTid \<Rightarrow> \<forall>re \<in> set (readSet x). stamp (read_tid re) \<le> stamp (maxReadTid x)
    | _ \<Rightarrow> True)"

section \<open>Effects and stamps\<close>

lemma rec_stamp_simps [simp]:
  "rec_stamp (set_tidWord p w S) k = (if k = p then stamp w else rec_stamp S k)"
  "rec_stamp (set_byte p i b S) k = rec_stamp S k"
  by (simp_all add: rec_stamp_def)

lemma stamp_version [simp]: "stamp (version S k) = rec_stamp S k"
  by (simp add: version_def rec_stamp_def)

lemma effect_stamp:
  assumes "table_effect S x S' x'" "own_stamps S x"
  shows "rec_stamp S k \<le> rec_stamp S' k"
  using assms(1) by (cases rule: table_effect.cases) (use assms(2) in \<open>auto simp: own_stamps_def rec_stamp_def [of _ k]\<close>)

lemma effect_promise:
  assumes e: "table_effect S x S' x'" "own_stamps S x" and pr: "promise S D k n vs"
    and D: "\<And>k. D k \<longleftrightarrow> dirty_by x k \<or> E k" "\<And>k. D' k \<longleftrightarrow> dirty_by x' k \<or> E k"
  shows "promise S' D' k n vs"
  using e(1)
proof (cases rule: table_effect.cases)
  case keep
  then show ?thesis using pr D by (simp add: promise_def rec_stamp_def)
next
  case (acquire p)
  then show ?thesis using pr D by (auto simp: promise_def rec_stamp_def)
next
  case (release p)
  then show ?thesis using pr D by (auto simp: promise_def)
next
  case (byte p i b)
  then show ?thesis using pr D by (auto simp: promise_def)
next
  case (install p T i j)
  then have "rec_stamp S p < stamp T" using e(2) by (simp add: own_stamps_def)
  moreover have "D' k = D k" if "k \<noteq> p" using D [of k] install that by blast
  ultimately show ?thesis using install(2) pr by (cases "k = p") (simp_all add: promise_def)
qed

section \<open>A worker's own step\<close>

lemma own_stamps_free: "held x = {} \<Longrightarrow> own_stamps S x"
  by (simp add: own_stamps_def split: pc.splits)

lemma own_stamps_unlock_next: "own_stamps S (unlock_next x i)"
  by (simp add: own_stamps_def unlock_next_def held_def)

lemma own_stamps_lock_next:
  assumes "i \<le> length (writeSet x)" "\<forall>k \<in> set (take i (ptrs x)). rec_stamp S k \<le> stamp (maxWriteTid x)"
  shows "own_stamps S (lock_next x i)"
proof (cases "i < length (writeSet x)")
  case True
  then show ?thesis using assms(2) by (simp add: lock_next_def own_stamps_def held_def ptrs_def)
next
  case False
  then have "take i (ptrs x) = ptrs x" by simp
  then show ?thesis using False assms(2) by (simp add: lock_next_def own_stamps_def held_def ptrs_def)
qed

lemma own_stamps_install_next:
  assumes "\<forall>k \<in> set (drop i (ptrs x)). rec_stamp S k < stamp T"
  shows "own_stamps S (install_next x i T)"
proof (cases "i < length (writeSet x)")
  case True
  then show ?thesis using assms by (simp add: install_next_def own_stamps_def held_def ptrs_def)
next
  case False
  then show ?thesis by (simp add: install_next_def own_stamps_def held_def)
qed

lemma worker_own_stamps:
  assumes "local_ok x" "own_stamps S x" "\<not> saturated x" "worker_step zipf th clock S x = (S', x')"
  shows "own_stamps S' x'"
proof (cases "pc x")
  case (Ops ops)
  then have "x' = next_op S x ops" using assms(4) by (auto simp: worker_step_def)
  with keep_next_op [OF Ops] show ?thesis by (simp add: own_stamps_free)
next
  case (Validate i)
  then have x': "x' = validate S x i" "Table S' = Table S" using assms(4) by (auto simp: worker_step_def)
  from assms(2) Validate have "\<forall>k \<in> held x. rec_stamp S' k \<le> stamp (maxWriteTid x)" by (simp add: own_stamps_def rec_stamp_def x')
  then have "own_stamps S' (x\<lparr>maxReadTid := m, pc := Validate (Suc i)\<rparr>)" "own_stamps S' (x\<lparr>status := Committed, pc := ChooseTid\<rparr>)" for m
    using Validate by (simp_all add: own_stamps_def held_def ptrs_def)
  then show ?thesis by (simp add: x' validate_def Let_def own_stamps_unlock_next)
next
  case (LockTry i e)
  have i: "i < length (writeSet x)" using assms(1) LockTry by (simp add: local_ok_def pc_ok_def)
  let ?p = "ptrs x ! i"
  show ?thesis
  proof (cases "\<not> lock e \<and> tidWord (Table S ?p) = e")
    case True
    let ?m = "max (maxWriteTid x) e"
    have x': "x' = lock_next (x\<lparr>maxWriteTid := ?m\<rparr>) (Suc i)" "S' = set_tidWord ?p (set_lock True e) S"
      using assms(4) LockTry True by (auto simp: worker_step_def lock_try_def Let_def ptrs_nth [OF i])
    have m: "stamp (maxWriteTid x) \<le> stamp ?m" "stamp e \<le> stamp ?m" by (rule stamp_mono, simp)+
    have "rec_stamp S k \<le> stamp (maxWriteTid x)" if "k \<in> set (take i (ptrs x))" for k
      using assms(2) LockTry that by (simp add: own_stamps_def held_def)
    then have "rec_stamp S k \<le> stamp ?m" if "k \<in> set (take i (ptrs x))" for k
      using m(1) that by (meson order_trans)
    then have "\<forall>k \<in> set (take (Suc i) (ptrs x)). rec_stamp S' k \<le> stamp ?m"
      using i m(2) by (auto simp: set_take_Suc x')
    then show ?thesis unfolding x'(1) by (intro own_stamps_lock_next) (use i in \<open>simp_all add: ptrs_def\<close>)
  next
    case False
    then have "x' = x\<lparr>pc := LockTry i (tidWord (Table S ?p))\<rparr>" "S' = S"
      using assms(4) LockTry by (auto simp: worker_step_def lock_try_def Let_def ptrs_nth [OF i] split: if_splits)
    with assms(2) LockTry show ?thesis by (simp add: own_stamps_def held_def ptrs_def)
  qed
next
  case (LockLoad i)
  then have "x' = lock_load S x i" "S' = S" using assms(4) by (auto simp: worker_step_def)
  with assms(2) LockLoad show ?thesis by (simp add: lock_load_def own_stamps_def held_def ptrs_def)
next
  case (UnlockStore i d)
  then show ?thesis using assms(4) by (auto simp: worker_step_def unlock_store_def own_stamps_unlock_next)
next
  case ChooseTid
  let ?T = "chosen_tid x (ThreadLocalEpochs S th)"
  have x': "x' = install_next (x\<lparr>mostRecentlyChosenTid := ?T\<rparr>) 0 ?T" "S' = S"
    using assms(4) ChooseTid by (auto simp: worker_step_def choose_tid_def Let_def)
  have "\<forall>k \<in> set (drop 0 (ptrs x)). rec_stamp S k \<le> stamp (maxWriteTid x)"
    using assms(2) ChooseTid by (simp add: own_stamps_def held_def)
  then have "\<forall>k \<in> set (drop 0 (ptrs x)). rec_stamp S k < stamp ?T"
    using chosen_tid_stamp(1) [OF assms(3), of "ThreadLocalEpochs S th"] by (meson le_less_trans)
  then show ?thesis unfolding x' by (intro own_stamps_install_next) (simp add: ptrs_def)
next
  case (Install i j T)
  have i: "i < length (writeSet x)" and d: "distinct (ptrs x)" using assms(1) Install by (simp_all add: local_ok_def pc_ok_def sets_ok_def)
  have h: "\<forall>k \<in> set (drop i (ptrs x)). rec_stamp S k < stamp T" using assms(2) Install by (simp add: own_stamps_def held_def)
  show ?thesis
  proof (cases "j < VALUE_SIZE")
    case True
    then have "S' = set_byte (ptrs x ! i) j (writeValue x ! j) S" "x' = x\<lparr>pc := Install i (Suc j) T\<rparr>"
      using assms(4) Install by (simp_all add: worker_step_def install_def Let_def ptrs_nth [OF i])
    with h show ?thesis by (simp add: own_stamps_def held_def ptrs_def)
  next
    case False
    then have "S' = set_tidWord (ptrs x ! i) T S" "x' = install_next x (Suc i) T"
      using assms(4) Install by (simp_all add: worker_step_def install_def Let_def ptrs_nth [OF i])
    with h d i show ?thesis by (auto simp: set_drop_Suc intro!: own_stamps_install_next)
  qed
next
  case Loop
  then have "x' = next_txn zipf S x" using assms(4) by (auto simp: worker_step_def)
  with pc_next_txn [of zipf S x] show ?thesis by (auto simp: held_idle intro: own_stamps_free)
next
  case (Unlock i)
  then show ?thesis using assms(4) by (auto simp: worker_step_def unlock_load_def own_stamps_def)
qed (use assms(2,4) in \<open>auto simp: worker_step_def step_epoch_time_def begin_txn_def
      check_epoch_def add_epoch_def check_quit_def read_spin_def read_copy_def Let_def own_stamps_def rec_stamp_def held_def ptrs_def
      split: if_splits\<close>)

lemma promise_take: "promise S D k n vs \<Longrightarrow> promise S D k n (take i vs)"
  unfolding promise_def by (metis length_take min_def take_all_iff take_take)

lemma promise_next:
  assumes "promise S D k n (take i rv)" "i < length rv" "length (val (Table S k)) = length rv"
  shows "promise S D k n (take (Suc i) (rv[i := val (Table S k) ! i]))"
proof -
  have "take (Suc i) (rv[i := b]) = take i rv @ [b]" for b using assms(2) by (simp add: take_Suc_conv_app_nth)
  moreover have "take (Suc i) (val (Table S k)) = take i (val (Table S k)) @ [val (Table S k) ! i]"
    using assms(2,3) by (simp add: take_Suc_conv_app_nth)
  ultimately show ?thesis using assms by (simp add: promise_def)
qed

lemma own_reads_keep:
  assumes "own_reads S D x" "readSet x' = readSet x" "\<And>k e ops. pc x' = Spin k e ops \<Longrightarrow> stamp e \<le> rec_stamp S k"
    "\<And>k e i ops. pc x' = Copy k e i ops \<Longrightarrow> promise S D k (stamp e) (take i (returnValue x'))"
    "\<And>i. pc x' = Validate i \<Longrightarrow> \<forall>re \<in> set (take i (readSet x)). stamp (read_tid re) \<le> stamp (maxReadTid x')"
    "pc x' = ChooseTid \<Longrightarrow> \<forall>re \<in> set (readSet x). stamp (read_tid re) \<le> stamp (maxReadTid x')"
  shows "own_reads S D x'"
  using assms by (auto simp: own_reads_def split: pc.splits)

lemma own_reads_free: "readSet x = [] \<Longrightarrow> (\<And>k e ops. pc x \<noteq> Spin k e ops) \<Longrightarrow> (\<And>k e i ops. pc x \<noteq> Copy k e i ops) \<Longrightarrow> own_reads S D x"
  by (auto simp: own_reads_def split: pc.splits)

lemma own_reads_plain:
  assumes "own_reads S D x" "readSet x' = readSet x" "\<And>k e ops. pc x' \<noteq> Spin k e ops"
    "\<And>k e i ops. pc x' \<noteq> Copy k e i ops" "\<And>i. pc x' \<noteq> Validate i" "pc x' \<noteq> ChooseTid"
  shows "own_reads S D x'"
  by (rule own_reads_keep [OF assms(1,2)]) (use assms in simp_all)

text \<open>The reads are kept when the step does not change the table.\<close>

lemma reads_next_op:
  assumes "own_reads S D x" "pc x = Ops ops"
  shows "own_reads S D (next_op S x ops)"
proof (cases ops)
  case Nil
  then show ?thesis using assms(1)
    by (intro own_reads_plain [OF assms(1)]) (simp_all add: next_op_def start_validation_def lock_next_def)
next
  case (Cons s ops')
  show ?thesis
  proof (cases "operation s")
    case Read
    with Cons show ?thesis
      by (intro own_reads_keep [OF assms(1)]) (auto simp: next_op_def read_op_def rec_stamp_def split: if_splits)
  next
    case Write
    with Cons show ?thesis
      by (intro own_reads_plain [OF assms(1)]) (simp_all add: next_op_def write_op_def)
  next
    case RMW
    with Cons show ?thesis
      by (intro own_reads_plain [OF assms(1)]) (simp_all add: next_op_def)
  qed
qed

lemma reads_copy:
  assumes "own_reads S D x" "pc x = Copy k e i ops" "local_ok x" "length (val (Table S k)) = VALUE_SIZE"
  shows "own_reads S D (read_copy S x k e i ops)"
proof -
  have p: "promise S D k (stamp e) (take i (returnValue x))" using assms(1,2) by (simp add: own_reads_def)
  have l: "length (returnValue x) = VALUE_SIZE" "i \<le> VALUE_SIZE" using assms(2,3) by (simp_all add: local_ok_def sets_ok_def pc_ok_def)
  show ?thesis
  proof (cases "i < VALUE_SIZE")
    case True
    with promise_next [OF p] l assms(4) show ?thesis
      by (intro own_reads_keep [OF assms(1)]) (auto simp: read_copy_def)
  next
    case i: False
    show ?thesis
    proof (cases "e = tidWord (Table S k)")
      case True
      with i assms(1) p l show ?thesis by (simp add: read_copy_def own_reads_def Let_def)
    next
      case False
      with i show ?thesis
        by (intro own_reads_keep [OF assms(1)]) (auto simp: read_copy_def Let_def rec_stamp_def)
    qed
  qed
qed

lemma reads_validate:
  assumes "own_reads S D x" "pc x = Validate i" "i \<le> length (readSet x)"
  shows "own_reads S D (validate S x i)"
proof (cases "i < length (readSet x)")
  case True
  let ?re = "readSet x ! i"
  let ?c = "tidWord (Table S (recordPtr ?re))"
  show ?thesis
  proof (cases "validation_fails x ?re ?c")
    case fails: True
    have "own_reads S D (unlock_next (x\<lparr>status := Aborted\<rparr>) 0)"
    proof (cases "0 < length (writeSet x)")
      case True
      then show ?thesis by (intro own_reads_plain [OF assms(1)]) (simp_all add: unlock_next_def)
    next
      case False
      then show ?thesis by (intro own_reads_free) (simp_all add: unlock_next_def abort_txn_def)
    qed
    with True fails show ?thesis by (simp add: validate_def)
  next
    case False
    let ?m = "max (maxReadTid x) ?c"
    have m: "stamp (maxReadTid x) \<le> stamp ?m" "stamp ?c \<le> stamp ?m" by (rule stamp_mono, simp)+
    have "promise S D (recordPtr ?re) (stamp (read_tid ?re)) (read_value ?re)"
      using assms(1) True by (simp add: own_reads_def)
    then have "stamp (read_tid ?re) \<le> stamp ?c" by (simp add: promise_def rec_stamp_def)
    moreover have "\<forall>re \<in> set (take i (readSet x)). stamp (read_tid re) \<le> stamp (maxReadTid x)"
      using assms(1,2) by (simp add: own_reads_def)
    ultimately have "\<forall>re \<in> set (take (Suc i) (readSet x)). stamp (read_tid re) \<le> stamp ?m"
      using m True by (auto simp: take_Suc_conv_app_nth intro: order_trans)
    with True False show ?thesis
      by (intro own_reads_keep [OF assms(1)]) (simp_all add: validate_def Let_def)
  qed
next
  case False
  with assms show ?thesis
    by (intro own_reads_keep [OF assms(1)]) (simp_all add: validate_def own_reads_def)
qed

lemma reads_unlock_next: "own_reads S D x \<Longrightarrow> own_reads S D (unlock_next x i)"
proof (cases "i < length (writeSet x)")
  case True
  assume "own_reads S D x"
  then show ?thesis by (rule own_reads_plain) (use True in \<open>simp_all add: unlock_next_def\<close>)
qed (auto simp: unlock_next_def abort_txn_def intro: own_reads_free)

lemma reads_install_next: "own_reads S D x \<Longrightarrow> own_reads S D (install_next x i T)"
proof (cases "i < length (writeSet x)")
  case True
  assume "own_reads S D x"
  then show ?thesis by (rule own_reads_plain) (use True in \<open>simp_all add: install_next_def\<close>)
qed (auto simp: install_next_def intro: own_reads_free)

text \<open>
  The worker's own reads after its step, with the promises already carried over to the new table
  (\<open>R\<close>): the step only adds to them.
\<close>

lemma worker_own_reads:
  assumes l: "local_ok x" and R: "own_reads S' D' x"
    and v: "\<And>k. k < TUPLE_NUM \<Longrightarrow> length (val (Table S k)) = VALUE_SIZE"
    and s: "worker_step zipf th clock S x = (S', x')"
  shows "own_reads S' D' x'"
proof (cases "pc x")
  case (Ops ops)
  with s have "S' = S" "x' = next_op S x ops" by (auto simp: worker_step_def)
  with reads_next_op [OF R Ops] show ?thesis by simp
next
  case (Copy k e i ops)
  with s have x': "S' = S" "x' = read_copy S x k e i ops" by (auto simp: worker_step_def)
  have "k < TUPLE_NUM" using l Copy by (simp add: local_ok_def pc_ok_def)
  then show ?thesis using reads_copy [OF R Copy l] v x' by simp
next
  case (Validate i)
  with s have "S' = S" "x' = validate S x i" by (auto simp: worker_step_def)
  with reads_validate [OF R Validate] l Validate show ?thesis by (simp add: local_ok_def pc_ok_def)
next
  case (UnlockStore i d)
  with s have "x' = unlock_next x (Suc i)" by (auto simp: worker_step_def unlock_store_def)
  with R show ?thesis by (simp add: reads_unlock_next)
next
  case (Install i j T)
  show ?thesis
  proof (cases "j < VALUE_SIZE")
    case True
    with s Install have "x' = x\<lparr>pc := Install i (Suc j) T\<rparr>" by (auto simp: worker_step_def install_def Let_def)
    then show ?thesis using R by (auto intro: own_reads_plain)
  next
    case False
    with s Install have "x' = install_next x (Suc i) T" by (auto simp: worker_step_def install_def Let_def)
    with R show ?thesis by (simp add: reads_install_next)
  qed
next
  case ChooseTid
  let ?T = "chosen_tid x (ThreadLocalEpochs S th)"
  have "own_reads S' D' (x\<lparr>mostRecentlyChosenTid := ?T\<rparr>)" using R ChooseTid by (simp add: own_reads_def)
  with s ChooseTid show ?thesis by (auto simp: worker_step_def choose_tid_def Let_def reads_install_next)
next
  case (Spin k e ops)
  with s have x': "S' = S" "x' = read_spin S x k e ops" by (auto simp: worker_step_def)
  have "stamp e \<le> rec_stamp S k" using R Spin x' by (simp add: own_reads_def)
  then show ?thesis unfolding x'
    by (intro own_reads_keep [OF R [unfolded x']]) (auto simp: read_spin_def rec_stamp_def promise_def split: if_splits)
next
  case (LockTry i e)
  with s have "readSet x' = readSet x" "(\<exists>j. pc x' = LockLoad j) \<or> (\<exists>e. pc x' = LockTry i e) \<or> pc x' = ReadEpoch"
    by (auto simp: worker_step_def lock_try_def lock_next_def Let_def split: if_splits)
  then show ?thesis by (intro own_reads_plain [OF R]) auto
next
  case Loop
  with l have "readSet x = []" by (simp add: local_ok_def pc_ok_def)
  then have "readSet (next_txn zipf S x) = []" by (simp add: next_txn_def split: option.split)
  moreover have "x' = next_txn zipf S x" using s Loop by (auto simp: worker_step_def)
  ultimately show ?thesis using pc_next_txn [of zipf S x] by (auto intro!: own_reads_free)
next
  case (StoreEpoch e)
  with s have x': "x' = x\<lparr>pc := Validate 0\<rparr>" by (auto simp: worker_step_def)
  show ?thesis unfolding x' by (intro own_reads_keep [OF R]) simp_all
qed (rule own_reads_plain [OF R]; use s l in \<open>auto simp: worker_step_def step_epoch_time_def begin_txn_def
      check_epoch_def add_epoch_def check_quit_def lock_load_def unlock_load_def split: if_splits\<close>)+

section \<open>All workers\<close>

definition versions_ok :: "shared \<Rightarrow> (nat \<Rightarrow> executor) \<Rightarrow> bool" where
  "versions_ok S X \<longleftrightarrow> locks_ok S X
    \<and> (\<forall>th < THREAD_NUM. own_stamps S (X th) \<and> own_reads S (dirty X) (X th))"

lemma own_stamps_others:
  assumes "own_stamps S y" "\<And>k. k \<in> held y \<Longrightarrow> Table S' k = Table S k"
  shows "own_stamps S' y"
  using assms by (auto simp: own_stamps_def rec_stamp_def split: pc.splits)

lemma own_reads_carried:
  assumes "own_reads S D y" "\<And>k n vs. promise S D k n vs \<Longrightarrow> promise S' D' k n vs" "\<And>k. rec_stamp S k \<le> rec_stamp S' k"
  shows "own_reads S' D' y"
  using assms unfolding own_reads_def by (auto split: pc.splits intro: order_trans)

lemma versions_ok_worker:
  assumes ok: "versions_ok S X" and th: "th < THREAD_NUM" and sat: "\<not> saturated (X th)"
    and step: "worker_step zipf th clock S (X th) = (S', x')"
  shows "versions_ok S' (X(th := x'))"
proof -
  let ?x = "X th" and ?X = "X(th := x')"
  have lk: "locks_ok S X" and l: "local_ok ?x" and o: "own_lock S ?x" and st: "own_stamps S ?x" and rd: "own_reads S (dirty X) ?x"
    using ok th by (simp_all add: versions_ok_def locks_ok_def)
  have e: "table_effect S ?x S' x'" by (rule worker_effect [OF l o step])
  let ?E = "\<lambda>k. \<exists>t < THREAD_NUM. t \<noteq> th \<and> dirty_by (X t) k"
  have D: "dirty X k \<longleftrightarrow> dirty_by ?x k \<or> ?E k" "dirty ?X k \<longleftrightarrow> dirty_by x' k \<or> ?E k" for k
    using th unfolding dirty_def by auto
  have pr: "promise S' (dirty ?X) k n vs" if "promise S (dirty X) k n vs" for k n vs
    by (rule effect_promise [OF e st that D])
  have mono: "rec_stamp S k \<le> rec_stamp S' k" for k by (rule effect_stamp [OF e st])
  have carried: "own_reads S' (dirty ?X) (X t)" if "t < THREAD_NUM" for t
    by (rule own_reads_carried [OF _ pr mono]) (use ok that in \<open>simp_all add: versions_ok_def\<close>)
  have others: "own_stamps S' (X t)" if t: "t < THREAD_NUM" "t \<noteq> th" for t
  proof (rule own_stamps_others)
    show "own_stamps S (X t)" using ok t by (simp add: versions_ok_def)
    fix k assume k: "k \<in> held (X t)"
    have "k \<notin> held ?x" using lk t k th unfolding locks_ok_def by (metis disjoint_iff)
    moreover have "locked S k" using lk t k held_in_table [of "X t" k] unfolding locks_ok_def by blast
    ultimately show "Table S' k = Table S k" using effect_others [OF e] by blast
  qed
  have own: "own_reads S' (dirty ?X) x'"
  proof (rule worker_own_reads [OF l carried [OF th] _ step])
    show "length (val (Table S k)) = VALUE_SIZE" if "k < TUPLE_NUM" for k using lk that by (simp add: locks_ok_def)
  qed
  have "own_stamps S' x'" by (rule worker_own_stamps [OF l st sat step])
  with own others carried locks_ok_worker [OF lk th step] show ?thesis by (auto simp: versions_ok_def)
qed

text \<open>
  Runs in which no TID is ever chosen from a counter at its maximum: after such a choice a record's
  stamp may fall back (the 29-bit counter wraps), and what follows is not claimed.
\<close>

definition nowrap_step :: "zipf \<Rightarrow> world \<Rightarrow> world \<Rightarrow> bool" where
  "nowrap_step zipf W W' \<longleftrightarrow> silo_step zipf W W' \<and> (\<forall>th < THREAD_NUM. \<not> saturated (snd W th))"

lemma quit_cong: "own_stamps (S\<lparr>quit := b\<rparr>) x = own_stamps S x" "own_reads (S\<lparr>quit := b\<rparr>) D x = own_reads S D x"
  "locks_ok (S\<lparr>quit := b\<rparr>) X = locks_ok S X"
  by (simp_all add: own_stamps_def own_reads_def promise_def rec_stamp_def locks_ok_def cong: pc.case_cong)

lemma versions_ok_step:
  assumes "versions_ok (fst W) (snd W)" "nowrap_step zipf W W'"
  shows "versions_ok (fst W') (snd W')"
proof -
  have "silo_step zipf W W'" using assms(2) by (simp add: nowrap_step_def)
  then show ?thesis
  proof cases
    case (worker th clock S X S' x')
    then show ?thesis using versions_ok_worker [of S X th zipf clock S' x'] assms by (simp add: nowrap_step_def)
  next
    case (main_quits S X)
    then show ?thesis using assms(1) by (simp add: versions_ok_def quit_cong)
  qed
qed

lemma versions_ok_init: "silo_init W \<Longrightarrow> versions_ok (fst W) (snd W)"
proof -
  assume W: "silo_init W"
  have "own_stamps S x" "own_reads S D x" if "fresh_executor th x" for th x S D
    using that by (auto simp: fresh_executor_def own_stamps_def held_def own_reads_def)
  then show ?thesis using W locks_ok_init [OF W] unfolding versions_ok_def silo_init_def by blast
qed

interpretation silo_versions: invariant_of silo_init "nowrap_step zipf" "\<lambda>W. versions_ok (fst W) (snd W)" for zipf
  by unfold_locales (fact versions_ok_init, fact versions_ok_step)

text \<open>Validated reads are current.\<close>

lemma validated_current:
  assumes ok: "versions_ok S X" and th: "th < THREAD_NUM" and pc: "pc (X th) = Validate i"
    and re: "re \<in> set (readSet (X th))" and v: "\<not> validation_fails (X th) re (tidWord (Table S (recordPtr re)))"
  shows "val (Table S (recordPtr re)) = read_value re"
proof -
  let ?k = "recordPtr re" and ?x = "X th"
  have lk: "locks_ok S X" and l: "local_ok ?x" and rd: "own_reads S (dirty X) ?x"
    using ok th by (simp_all add: versions_ok_def locks_ok_def)
  have k: "element_ok re" "length (read_value re) = VALUE_SIZE" using l re by (auto simp: local_ok_def sets_ok_def)
  then have k': "?k < TUPLE_NUM" "?k = op_key re" by (simp_all add: element_ok_def)
  have "rec_stamp S ?k = stamp (read_tid re)"
    using v by (auto simp: validation_fails_def rec_stamp_def intro: stamp_cong)
  moreover have "\<not> dirty X ?k"
  proof
    assume "dirty X ?k"
    then obtain t where t: "t < THREAD_NUM" "dirty_by (X t) ?k" by (auto simp: dirty_def)
    then obtain i' j T where p: "pc (X t) = Install i' j T" "ptrs (X t) ! i' = ?k" by (auto simp: dirty_by_def split: pc.splits)
    have "pc_ok (X t)" using lk t(1) by (simp add: locks_ok_def local_ok_def)
    then have "?k \<in> held (X t)" "t \<noteq> th"
      using p pc nth_in_drop [of i' "ptrs (X t)"] by (auto simp: held_def pc_ok_def)
    moreover from this t have "?k \<notin> held ?x" using lk th unfolding locks_ok_def by (metis disjoint_iff)
    moreover have "locked S ?k" using lk t \<open>?k \<in> held (X t)\<close> k'(1) unfolding locks_ok_def by blast
    ultimately have "searchWriteSet ?x (op_key re) \<noteq> None" "?k \<notin> set (ptrs ?x)"
      using v pc by (simp_all add: validation_fails_def locked_def held_def)
    then obtain w where "w \<in> set (writeSet ?x)" "op_key w = op_key re" by (auto simp: searchWriteSet_def dest!: find_SomeD)
    with l k' \<open>?k \<notin> set (ptrs ?x)\<close> show False by (force simp: local_ok_def sets_ok_def element_ok_def ptrs_def)
  qed
  moreover have "promise S (dirty X) ?k (stamp (read_tid re)) (read_value re)" using rd re by (simp add: own_reads_def)
  ultimately have "take (length (read_value re)) (val (Table S ?k)) = read_value re" by (simp add: promise_def)
  moreover have "length (val (Table S ?k)) = VALUE_SIZE" using lk k'(1) by (simp add: locks_ok_def)
  ultimately show ?thesis using k(2) by simp
qed

end
