(* ===== verification/Silo_Epochs.thy ===== *)
theory Silo_Epochs
  imports Silo_Local
begin

text \<open>
  The epochs: only worker 0 advances the global epoch, and only after it has seen every other worker
  at the current one, so every worker's epoch is the global one or its predecessor (differences of
  64-bit words, so the statement survives a wrap-around of the epochs).
\<close>

definition near :: "64 word \<Rightarrow> 64 word \<Rightarrow> bool" where
  "near E e \<longleftrightarrow> e = E \<or> e = E - 1"

text \<open>What worker \<open>th\<close> knows: its own epoch, and for the leader the epochs it has checked.\<close>

definition follower_ok :: "shared \<Rightarrow> nat \<Rightarrow> executor \<Rightarrow> bool" where
  "follower_ok S th x \<longleftrightarrow> near (GlobalEpoch S) (ThreadLocalEpochs S th)
    \<and> (case pc x of StoreEpoch v \<Rightarrow> near (GlobalEpoch S) v \<and> (ThreadLocalEpochs S th = GlobalEpoch S \<longrightarrow> v = GlobalEpoch S)
       | _ \<Rightarrow> True)"

definition leader_at :: "executor \<Rightarrow> bool" where
  "leader_at x \<longleftrightarrow> (case pc x of CheckEpoch a b i \<Rightarrow> True | AddEpoch0 a \<Rightarrow> True | AddEpoch a b \<Rightarrow> True | _ \<Rightarrow> False)"

definition seen :: "shared \<Rightarrow> nat \<Rightarrow> bool" where
  "seen S n \<longleftrightarrow> (\<forall>i. 1 \<le> i \<and> i < n \<longrightarrow> ThreadLocalEpochs S i = GlobalEpoch S)"

definition leader_ok :: "shared \<Rightarrow> executor \<Rightarrow> bool" where
  "leader_ok S x \<longleftrightarrow> near (GlobalEpoch S) (ThreadLocalEpochs S 0) \<and>
    (case pc x of
      CheckEpoch stop e i \<Rightarrow> e = GlobalEpoch S \<and> seen S i \<and> i \<le> THREAD_NUM \<and> ThreadLocalEpochs S 0 = GlobalEpoch S
    | AddEpoch0 stop \<Rightarrow> seen S THREAD_NUM \<and> ThreadLocalEpochs S 0 = GlobalEpoch S
    | AddEpoch stop e \<Rightarrow> e = GlobalEpoch S \<and> seen S THREAD_NUM \<and> ThreadLocalEpochs S 0 = GlobalEpoch S
    | StoreEpoch v \<Rightarrow> v = GlobalEpoch S
    | CheckQuit \<Rightarrow> True | Stopped \<Rightarrow> True | Failed \<Rightarrow> True | Ops ops \<Rightarrow> True | Spin k e ops \<Rightarrow> True | Copy k e i ops \<Rightarrow> True
    | LockLoad i \<Rightarrow> True | LockTry i e \<Rightarrow> True | ReadEpoch \<Rightarrow> True
    | _ \<Rightarrow> ThreadLocalEpochs S 0 = GlobalEpoch S)"

definition epochs_ok :: "shared \<Rightarrow> (nat \<Rightarrow> executor) \<Rightarrow> bool" where
  "epochs_ok S X \<longleftrightarrow> leader_ok S (X 0)
    \<and> (\<forall>th. 1 \<le> th \<and> th < THREAD_NUM \<longrightarrow> follower_ok S th (X th) \<and> \<not> leader_at (X th))"

text \<open>A step that is not the leader's epoch step leaves the epochs as they are, or stores the worker's own.\<close>

lemma table_only: "GlobalEpoch (set_tidWord p w S) = GlobalEpoch S" "ThreadLocalEpochs (set_tidWord p w S) = ThreadLocalEpochs S"
  "GlobalEpoch (set_byte p i b S) = GlobalEpoch S" "ThreadLocalEpochs (set_byte p i b S) = ThreadLocalEpochs S"
  by (simp_all add: set_tidWord_def set_byte_def)

lemma epochs_kept:
  assumes "worker_step zipf th clock S x = (S', x')" "\<And>v. pc x \<noteq> StoreEpoch v" "\<And>a b. pc x \<noteq> AddEpoch a b"
  shows "GlobalEpoch S' = GlobalEpoch S" "ThreadLocalEpochs S' = ThreadLocalEpochs S"
  using assms
  by (auto simp: worker_step_def lock_try_def unlock_store_def install_def Let_def table_only split: pc.splits if_splits)

lemma pc_next_op: "pc (next_op S x ops) \<in> range Ops \<union> {Spin k e ops | k e ops. True} \<union> range LockLoad \<union> {ReadEpoch, Failed}"
  by (auto simp: next_op_def start_validation_def lock_next_def read_op_def split: list.splits operation.splits)

lemma pc_validate: "pc (validate S x i) \<in> range Validate \<union> range Unlock \<union> {Retry, ChooseTid}"
  by (auto simp: validate_def Let_def unlock_next_def)

lemma pc_read_copy: "pc (read_copy S x k e i ops) \<in> range Ops \<union> {Spin k e ops | k e ops. True} \<union> {Copy k e i ops | k e i ops. True}"
  by (auto simp: read_copy_def Let_def)

lemma pc_install_next: "pc (install_next x i T) \<in> {Install i j T | i j T. True} \<union> {Loop}"
  by (simp add: install_next_def)

lemma pc_choose_tid: "pc (choose_tid th S x) \<in> {Install i j T | i j T. True} \<union> {Loop}"
  unfolding choose_tid_def Let_def by (rule pc_install_next)

lemma follower_step:
  assumes ok: "follower_ok S th x" "\<not> leader_at x" and th: "th \<noteq> 0" and s: "worker_step zipf th clock S x = (S', x')"
  shows "follower_ok S' th x'" "\<not> leader_at x'" "GlobalEpoch S' = GlobalEpoch S"
    "t \<noteq> th \<Longrightarrow> ThreadLocalEpochs S' t = ThreadLocalEpochs S t"
    "ThreadLocalEpochs S th = GlobalEpoch S \<Longrightarrow> ThreadLocalEpochs S' th = GlobalEpoch S"
proof -
  have *: "follower_ok S' th x' \<and> \<not> leader_at x' \<and> GlobalEpoch S' = GlobalEpoch S \<and> (\<forall>t. t \<noteq> th \<longrightarrow> ThreadLocalEpochs S' t = ThreadLocalEpochs S t)
    \<and> (ThreadLocalEpochs S th = GlobalEpoch S \<longrightarrow> ThreadLocalEpochs S' th = GlobalEpoch S)"
  proof (cases "pc x")
    case (StoreEpoch v)
    then show ?thesis using ok s by (auto simp: worker_step_def follower_ok_def leader_at_def)
  next
    case ReadEpoch
    then show ?thesis using ok s by (auto simp: worker_step_def follower_ok_def leader_at_def near_def)
  next
    case (Ops ops)
    then show ?thesis using ok s pc_next_op [of S x ops] by (auto simp: worker_step_def follower_ok_def leader_at_def)
  next
    case (Validate i)
    then show ?thesis using ok s pc_validate [of S x i] by (auto simp: worker_step_def follower_ok_def leader_at_def)
  next
    case (Copy k e i ops)
    then show ?thesis using ok s pc_read_copy [of S x k e i ops] by (auto simp: worker_step_def follower_ok_def leader_at_def)
  next
    case Loop
    have "pc (next_txn zipf S x) \<in> {Stopped, Failed, Retry}" by (simp add: next_txn_def split: option.split)
    then show ?thesis using ok s Loop by (auto simp: worker_step_def follower_ok_def leader_at_def)
  next
    case (LockTry i e)
    then have "pc x' \<in> range LockLoad \<union> {LockTry i e | e. True} \<union> {ReadEpoch}" using s
      by (auto simp: worker_step_def lock_try_def lock_next_def Let_def split: if_splits)
    then show ?thesis using ok epochs_kept [OF s] LockTry by (auto simp: follower_ok_def leader_at_def)
  next
    case (Install i j T)
    then have "pc x' \<in> {Install i j T | i j T. True} \<union> {Loop}" using s
      by (auto simp: worker_step_def install_def install_next_def Let_def split: if_splits)
    then show ?thesis using ok epochs_kept [OF s] Install by (auto simp: follower_ok_def leader_at_def)
  next
    case (UnlockStore i d)
    then have "pc x' \<in> range Unlock \<union> {Retry}" using s
      by (auto simp: worker_step_def unlock_store_def unlock_next_def)
    then show ?thesis using ok epochs_kept [OF s] UnlockStore by (auto simp: follower_ok_def leader_at_def)
  next
    case ChooseTid
    then have "pc x' \<in> {Install i j T | i j T. True} \<union> {Loop}" using s
      pc_choose_tid [of th S x] by (auto simp: worker_step_def)
    then show ?thesis using ok epochs_kept [OF s] ChooseTid by (auto simp: follower_ok_def leader_at_def)
  qed (use ok th s in \<open>auto simp: worker_step_def follower_ok_def leader_at_def check_quit_def begin_txn_def read_spin_def
      lock_load_def unlock_load_def split: if_splits\<close>)
  then show "follower_ok S' th x'" "\<not> leader_at x'" "GlobalEpoch S' = GlobalEpoch S"
    "t \<noteq> th \<Longrightarrow> ThreadLocalEpochs S' t = ThreadLocalEpochs S t"
    "ThreadLocalEpochs S th = GlobalEpoch S \<Longrightarrow> ThreadLocalEpochs S' th = GlobalEpoch S" by auto
qed

lemma leader_epoch_step:
  assumes ok: "leader_ok S x" and s: "worker_step zipf 0 clock S x = (S', x')"
    and n: "\<And>a b. pc x \<noteq> AddEpoch a b"
  shows "leader_ok S' x' \<and> GlobalEpoch S' = GlobalEpoch S \<and> (\<forall>t. t \<noteq> 0 \<longrightarrow> ThreadLocalEpochs S' t = ThreadLocalEpochs S t)"
proof (cases "pc x")
  case (StoreEpoch v)
  then show ?thesis using ok s by (auto simp: worker_step_def leader_ok_def seen_def near_def)
next
  case (CheckEpoch stop e i)
  then show ?thesis using ok s
    by (auto simp: worker_step_def leader_ok_def check_epoch_def seen_def less_Suc_eq split: if_splits)
next
  case Retry
  then show ?thesis using ok s by (auto simp: worker_step_def leader_ok_def step_epoch_time_def seen_def split: if_splits)
next
  case (Ops ops)
  then show ?thesis using ok s pc_next_op [of S x ops] by (auto simp: worker_step_def leader_ok_def)
next
  case (Validate i)
  then show ?thesis using ok s pc_validate [of S x i] by (auto simp: worker_step_def leader_ok_def)
next
  case (Copy k e i ops)
  then show ?thesis using ok s pc_read_copy [of S x k e i ops] by (auto simp: worker_step_def leader_ok_def)
next
  case Loop
  have "pc (next_txn zipf S x) \<in> {Stopped, Failed, Retry}" by (simp add: next_txn_def split: option.split)
  then show ?thesis using ok s Loop by (auto simp: worker_step_def leader_ok_def)
next
  case (LockTry i e)
  then have "pc x' \<in> range LockLoad \<union> {LockTry i e | e. True} \<union> {ReadEpoch}" using s
    by (auto simp: worker_step_def lock_try_def lock_next_def Let_def split: if_splits)
  then show ?thesis using ok epochs_kept [OF s] LockTry by (auto simp: leader_ok_def)
next
  case (Install i j T)
  then have "pc x' \<in> {Install i j T | i j T. True} \<union> {Loop}" using s
    by (auto simp: worker_step_def install_def install_next_def Let_def split: if_splits)
  then show ?thesis using ok epochs_kept [OF s] Install by (auto simp: leader_ok_def)
next
  case (UnlockStore i d)
  then have "pc x' \<in> range Unlock \<union> {Retry}" using s
    by (auto simp: worker_step_def unlock_store_def unlock_next_def)
  then show ?thesis using ok epochs_kept [OF s] UnlockStore by (auto simp: leader_ok_def)
next
  case ChooseTid
  then have "pc x' \<in> {Install i j T | i j T. True} \<union> {Loop}" using s
    pc_choose_tid [of 0 S x] by (auto simp: worker_step_def)
  then show ?thesis using ok epochs_kept [OF s] ChooseTid by (auto simp: leader_ok_def)
qed (use ok s n in \<open>auto simp: worker_step_def leader_ok_def check_quit_def begin_txn_def read_spin_def
    lock_load_def unlock_load_def split: if_splits\<close>)

lemma leader_others:
  assumes "leader_ok S y" "GlobalEpoch S' = GlobalEpoch S" "ThreadLocalEpochs S' 0 = ThreadLocalEpochs S 0"
    and "\<And>t. ThreadLocalEpochs S t = GlobalEpoch S \<Longrightarrow> ThreadLocalEpochs S' t = GlobalEpoch S"
  shows "leader_ok S' y"
proof -
  have "seen S n \<Longrightarrow> seen S' n" for n using assms(2,4) by (auto simp: seen_def)
  with assms(1-3) show ?thesis by (auto simp: leader_ok_def split: pc.splits)
qed

lemma follower_others:
  assumes "follower_ok S t y" "GlobalEpoch S' = GlobalEpoch S" "ThreadLocalEpochs S' t = ThreadLocalEpochs S t"
  shows "follower_ok S' t y"
  using assms by (simp add: follower_ok_def split: pc.splits)

text \<open>The leader's step to the next epoch: everybody has been seen at the old one.\<close>

lemma advance:
  assumes ok: "epochs_ok S X" and pc: "pc (X 0) = AddEpoch stop e" and s: "worker_step zipf 0 clock S (X 0) = (S', x')"
  shows "epochs_ok S' (X(0 := x'))"
proof -
  have l: "e = GlobalEpoch S" "seen S THREAD_NUM" "ThreadLocalEpochs S 0 = GlobalEpoch S"
    using ok pc by (simp_all add: epochs_ok_def leader_ok_def)
  then have S': "S' = S\<lparr>GlobalEpoch := GlobalEpoch S + 1\<rparr>" and x': "pc x' = CheckQuit"
    using s pc by (auto simp: worker_step_def add_epoch_def)
  have lead: "leader_ok S' x'" using l(3) by (simp add: leader_ok_def x' S' near_def)
  have "follower_ok S' th (X th) \<and> \<not> leader_at (X th)" if th: "1 \<le> th" "th < THREAD_NUM" for th
  proof -
    have f: "follower_ok S th (X th)" "\<not> leader_at (X th)" using ok th unfolding epochs_ok_def by blast+
    have e: "ThreadLocalEpochs S th = GlobalEpoch S" using l(2) th unfolding seen_def by blast
    have "follower_ok S' th (X th)"
    proof (cases "\<exists>v. pc (X th) = StoreEpoch v")
      case True
      then obtain v where v: "pc (X th) = StoreEpoch v" by blast
      then have "v = GlobalEpoch S" using f(1) e by (simp add: follower_ok_def)
      with v e show ?thesis by (simp add: follower_ok_def S' near_def)
    next
      case False
      with e show ?thesis by (auto simp: follower_ok_def S' near_def split: pc.splits)
    qed
    with f(2) show ?thesis by simp
  qed
  with lead show ?thesis by (simp add: epochs_ok_def)
qed

lemma epochs_ok_worker:
  assumes ok: "epochs_ok S X" and th: "th < THREAD_NUM" and s: "worker_step zipf th clock S (X th) = (S', x')"
  shows "epochs_ok S' (X(th := x'))"
proof (cases "th = 0")
  case True
  show ?thesis
  proof (cases "\<exists>a b. pc (X 0) = AddEpoch a b")
    case a: True
    then show ?thesis using advance [of S X _ _ zipf clock S' x'] ok s True by blast
  next
    case False
    then have l: "leader_ok S' x'" "GlobalEpoch S' = GlobalEpoch S" "\<And>t. t \<noteq> 0 \<Longrightarrow> ThreadLocalEpochs S' t = ThreadLocalEpochs S t"
      using leader_epoch_step [of S "X 0" zipf clock S' x'] ok s True by (auto simp: epochs_ok_def)
    then show ?thesis using ok True follower_others [of S _ _ S'] by (simp add: epochs_ok_def)
  qed
next
  case False
  then have f: "follower_ok S th (X th)" "\<not> leader_at (X th)" using ok th by (simp_all add: epochs_ok_def)
  note st = follower_step [OF f False s]
  have "leader_ok S (X 0)" using ok by (simp add: epochs_ok_def)
  then have "leader_ok S' (X 0)"
    by (rule leader_others [OF _ st(3)]) (use st(4,5) False in \<open>force+\<close>)
  moreover have "follower_ok S' t (X t) \<and> \<not> leader_at (X t)" if "1 \<le> t" "t < THREAD_NUM" "t \<noteq> th" for t
    using ok that st(3,4) follower_others [of S t "X t" S'] by (simp add: epochs_ok_def)
  ultimately show ?thesis using st(1,2) False by (simp add: epochs_ok_def)
qed

lemma epochs_ok_step: "epochs_ok (fst W) (snd W) \<Longrightarrow> silo_step zipf W W' \<Longrightarrow> epochs_ok (fst W') (snd W')"
proof (erule silo_stepE)
  fix S X assume "epochs_ok (fst W) (snd W)" "W = (S, X)" "W' = (S\<lparr>quit := True\<rparr>, X)"
  moreover have "leader_ok (S\<lparr>quit := True\<rparr>) x = leader_ok S x" "follower_ok (S\<lparr>quit := True\<rparr>) t x = follower_ok S t x" for x t
    by (simp_all add: leader_ok_def follower_ok_def seen_def cong: pc.case_cong)
  ultimately show ?thesis by (simp add: epochs_ok_def)
qed (simp add: epochs_ok_worker)

lemma epochs_ok_init: "silo_init W \<Longrightarrow> epochs_ok (fst W) (snd W)"
  by (auto simp: silo_init_def epochs_ok_def leader_ok_def follower_ok_def near_def fresh_executor_def leader_at_def)

interpretation silo_epochs: invariant_of silo_init "silo_step zipf" "\<lambda>W. epochs_ok (fst W) (snd W)" for zipf
  by unfold_locales (fact epochs_ok_init, fact epochs_ok_step)

lemma epochs_near: "epochs_ok S X \<Longrightarrow> th < THREAD_NUM \<Longrightarrow> near (GlobalEpoch S) (ThreadLocalEpochs S th)"
  by (cases "th = 0") (auto simp: epochs_ok_def leader_ok_def follower_ok_def)

end
