(* ===== verification/Silo_Example.thy ===== *)
theory Silo_Example
  imports Silo_Versions Silo_Epochs
begin

text \<open>
  A concrete run of one worker, on which the properties of the Silo program are applied: the table as
  \<open>init\<close> leaves it, a distribution that always draws key 0, and worker 1 stepping alone. With the seed
  of the code its first transaction reads key 0 and then writes it.
\<close>

section \<open>The initial state and the first transaction\<close>

definition shared0 :: shared where
  "shared0 = \<lparr>Table = (\<lambda>k. init_tuple \<lparr>tidWord = 0, val = [0, 0, 0, 0]\<rparr>), GlobalEpoch = 0, ThreadLocalEpochs = (\<lambda>th. 0), quit = False\<rparr>"

definition executor0 :: "nat \<Rightarrow> executor" where
  "executor0 th = \<lparr>steps = [], readSet = [], writeSet = [], status = Active, mostRecentlyChosenTid = 0, maxReadTid = 0,
    maxWriteTid = 0, writeValue = [48 + word_of_nat th, 48, 0, 0], returnValue = [0, 0, 0, 0], random = seed_rng 32,
    epochTimerStart = 0, commits = 0, aborts = 0, pc = Loop\<rparr>"

definition zipf0 :: zipf where "zipf0 r = (0, r)"

lemma rng_seed: "seed_rng 32 = \<lparr>s0 = 32, s1 = 16927763432924390401\<rparr>"
  by (simp add: seed_rng_def splitMix64_def Let_def)

lemma rng_run:
  "next_random \<lparr>s0 = 32, s1 = 16927763432924390401\<rparr> = (16927763432924390433, \<lparr>s0 = 10794224962197464097, s1 = 12233047886940595446\<rparr>)"
  "next_random \<lparr>s0 = 10794224962197464097, s1 = 12233047886940595446\<rparr> = (4580528775428507927, \<lparr>s0 = 2012490489646943261, s1 = 9230157017900501661\<rparr>)"
  "next_random \<lparr>s0 = 2012490489646943261, s1 = 9230157017900501661\<rparr> = (11242647507547444922, \<lparr>s0 = 4354727747307711309, s1 = 9905896162550543089\<rparr>)"
  "next_random \<lparr>s0 = 4354727747307711309, s1 = 9905896162550543089\<rparr> = (14260623909858254398, \<lparr>s0 = 12430832734562858661, s1 = 3268267074706290789\<rparr>)"
  "next_random \<lparr>s0 = 12430832734562858661, s1 = 3268267074706290789\<rparr> = (15699099809269149450, \<lparr>s0 = 320303891423890928, s1 = 16317060489161007747\<rparr>)"
  "next_random \<lparr>s0 = 320303891423890928, s1 = 16317060489161007747\<rparr> = (16637364380584898675, \<lparr>s0 = 9049238888824479361, s1 = 17293240363737502753\<rparr>)"
  "next_random \<lparr>s0 = 9049238888824479361, s1 = 17293240363737502753\<rparr> = (7895735178852430498, \<lparr>s0 = 17714746666853097466, s1 = 124222902308869626\<rparr>)"
  "next_random \<lparr>s0 = 17714746666853097466, s1 = 124222902308869626\<rparr> = (17838969569161967092, \<lparr>s0 = 17355534548564385132, s1 = 15625590882110473690\<rparr>)"
  "next_random \<lparr>s0 = 17355534548564385132, s1 = 15625590882110473690\<rparr> = (14534381356965307206, \<lparr>s0 = 16234674288592077704, s1 = 9116155106097616173\<rparr>)"
  "next_random \<lparr>s0 = 16234674288592077704, s1 = 9116155106097616173\<rparr> = (6904085320980142261, \<lparr>s0 = 17245582301769325443, s1 = 18420519295353491619\<rparr>)"
  by (simp_all add: next_random_def rotl_def Let_def)

definition steps0 :: "step list" where
  "steps0 = List.map (\<lambda>b. Step (if b then Read else Write) 0) [True, True, True, False, False, False, False, False, True, False]"

lemma makeSteps_loop0: "\<exists>r. make_steps_loop zipf0 10000 50 (Suc (Suc (Suc (Suc (Suc (Suc (Suc (Suc (Suc (Suc 0)))))))))) True True [] (seed_rng 32) = (steps0, False, False, r)"
  by (simp add: rng_seed rng_run zipf0_def steps0_def)

lemma makeSteps0: "\<exists>r. makeSteps zipf0 10000 10 50 (seed_rng 32) = Some (steps0, r)"
proof -
  have ten: "(Suc (Suc (Suc (Suc (Suc (Suc (Suc (Suc (Suc (Suc 0)))))))))) = (10 :: nat)" by simp
  obtain r where r: "make_steps_loop zipf0 10000 50 10 True True [] (seed_rng 32) = (steps0, False, False, r)"
    using makeSteps_loop0 unfolding ten by blast
  show ?thesis by (simp add: makeSteps_def r) (simp add: steps0_def Step_def)
qed

fun solo :: "nat \<Rightarrow> shared \<times> executor \<Rightarrow> shared \<times> executor" where
  "solo 0 Sx = Sx"
| "solo (Suc n) Sx = solo n (worker_step zipf0 1 0 (fst Sx) (snd Sx))"

fun solo_ok :: "nat \<Rightarrow> shared \<times> executor \<Rightarrow> bool" where
  "solo_ok 0 Sx = True"
| "solo_ok (Suc n) Sx = (\<not> saturated (snd Sx) \<and> solo_ok n (worker_step zipf0 1 0 (fst Sx) (snd Sx)))"

lemma silo_init0: "silo_init (shared0, executor0)"
  unfolding silo_init_def fst_conv snd_conv
proof (intro conjI allI impI)
  show "\<exists>t. length (val t) = VALUE_SIZE \<and> Table shared0 k = init_tuple t" for k
    by (rule exI [of _ "\<lparr>tidWord = 0, val = [0, 0, 0, 0]\<rparr>"]) (simp add: shared0_def)
  fix th assume "th < THREAD_NUM"
  then have "genStringRepeatedNumber [0, 0, 0, 0] (word_of_nat VALUE_SIZE) th = Some [48 + word_of_nat th, 48, 0, 0]"
    by (simp add: genStringRepeatedNumber_def poke_def)
  then show "fresh_executor th (executor0 th)"
    unfolding fresh_executor_def by (simp add: executor0_def) (rule exI [of _ "[0, 0, 0, 0]"], simp)
qed (simp_all add: shared0_def)

lemma saturated0: "\<not> saturated (executor0 th)"
  by (simp add: saturated_def executor0_def)

lemma solo_reachable:
  assumes "reachable silo_init (nowrap_step zipf0) (S, executor0(1 := x))" "solo_ok n (S, x)"
  shows "reachable silo_init (nowrap_step zipf0) (fst (solo n (S, x)), executor0(1 := snd (solo n (S, x))))"
  using assms
proof (induction n arbitrary: S x)
  case (Suc n)
  obtain S' x' where w: "worker_step zipf0 1 0 S x = (S', x')" by fastforce
  have "silo_step zipf0 (S, executor0(1 := x)) (S', (executor0(1 := x))(1 := x'))"
    by (rule silo_step.worker [where th = 1 and clock = 0]) (use w in \<open>simp_all del: One_nat_def\<close>)
  then have "nowrap_step zipf0 (S, executor0(1 := x)) (S', executor0(1 := x'))"
    using Suc.prems(2) saturated0 by (auto simp: nowrap_step_def)
  from Suc.IH [OF reachable.move [OF Suc.prems(1) this]] Suc.prems(2) show ?case by (simp add: w del: One_nat_def)
qed simp

lemma nowrap_reachable: "reachable silo_init (nowrap_step zipf) W \<Longrightarrow> reachable silo_init (silo_step zipf) W"
  by (induction rule: reachable.induct) (auto simp: nowrap_step_def intro: reachable.intros)

text \<open>The state of worker 1 at the validation of its read, with the lock of key 0 held.\<close>

definition word1 :: tid_word where "word1 = set_latest True (set_epoch 1 0)"

definition reading :: "rng \<Rightarrow> executor" where
  "reading r = (executor0 1)\<lparr>steps := steps0, random := r, pc := Ops steps0\<rparr>"

definition validating :: "rng \<Rightarrow> nat \<Rightarrow> executor" where
  "validating r i = (executor0 1)\<lparr>steps := steps0, random := r, returnValue := [97, 0, 0, 0],
    readSet := [\<lparr>op_key = 0, recordPtr = 0, read_tid = word1, read_value = [97, 0, 0, 0]\<rparr>],
    writeSet := [\<lparr>op_key = 0, recordPtr = 0\<rparr>], maxWriteTid := word1, maxReadTid := (if i = 0 then 0 else set_lock True word1), pc := Validate i\<rparr>"

definition locked0 :: shared where
  "locked0 = set_tidWord 0 (set_lock True word1) shared0"

lemmas run_defs = worker_step_def shared0_def executor0_def steps0_def Step_def next_op_def begin_txn_def
  read_op_def read_spin_def read_copy_def searchReadSet_def searchWriteSet_def write_op_def init_tuple_def
  start_validation_def lock_next_def lock_load_def lock_try_def word1_def saturated_def next_txn_def check_quit_def

lemma run_read: "\<exists>r. solo (Suc (Suc (Suc 0))) (shared0, executor0 1) = (shared0, reading r) \<and> solo_ok (Suc (Suc (Suc 0))) (shared0, executor0 1)"
proof -
  obtain r where r: "makeSteps zipf0 10000 10 50 (seed_rng 32) = Some (steps0, r)" using makeSteps0 by blast
  let ?x1 = "(executor0 1)\<lparr>steps := steps0, random := r, pc := Retry\<rparr>"
  have 1: "worker_step zipf0 1 0 shared0 (executor0 1) = (shared0, ?x1)"
    using r by (simp add: worker_step_def next_txn_def shared0_def executor0_def)
  have 2: "worker_step zipf0 1 0 shared0 ?x1 = (shared0, ?x1\<lparr>pc := CheckQuit\<rparr>)"
    by (simp add: worker_step_def)
  have 3: "worker_step zipf0 1 0 shared0 (?x1\<lparr>pc := CheckQuit\<rparr>) = (shared0, reading r)"
    by (simp add: worker_step_def check_quit_def begin_txn_def reading_def shared0_def executor0_def)
  have "\<not> saturated ?x1" "\<not> saturated (?x1\<lparr>pc := CheckQuit\<rparr>)" by (simp_all add: saturated_def executor0_def)
  with 1 2 3 show ?thesis using saturated0 [of 1] by (simp del: One_nat_def) blast
qed

lemma max_0: "max 0 w = (w :: 64 word)"
  by (simp add: max_def)

lemma solo_add: "solo (m + n) Sx = solo n (solo m Sx)" "solo_ok (m + n) Sx = (solo_ok m Sx \<and> solo_ok n (solo m Sx))"
  by (induction m arbitrary: Sx) simp_all

definition executed :: "rng \<Rightarrow> executor" where
  "executed r = (executor0 1)\<lparr>steps := steps0, random := r, returnValue := [97, 0, 0, 0],
    readSet := [\<lparr>op_key = 0, recordPtr = 0, read_tid = word1, read_value = [97, 0, 0, 0]\<rparr>],
    writeSet := [\<lparr>op_key = 0, recordPtr = 0\<rparr>], pc := Ops []\<rparr>"

lemma run_ops: "solo 16 (shared0, reading r) = (shared0, executed r)"
  by (simp add: eval_nat_numeral run_defs reading_def executed_def)

lemma run_ops_ok: "solo_ok 16 (shared0, reading r)"
  by (simp add: eval_nat_numeral run_defs reading_def executed_def)

lemma run_lock: "solo 5 (shared0, executed r) = (locked0, validating r 0) \<and> solo_ok 5 (shared0, executed r)"
proof -
  let ?W = "worker_step zipf0 1 0"
  have sh: "tidWord (Table shared0 0) = word1" by (simp add: shared0_def init_tuple_def word1_def)
  have w1: "\<not> lock word1" "tid word1 = 0" by (simp_all add: word1_def)
  let ?l = "(executed r)\<lparr>maxWriteTid := word1\<rparr>"
  have 1: "?W shared0 (executed r) = (shared0, (executed r)\<lparr>pc := LockLoad 0\<rparr>)"
    by (simp add: worker_step_def next_op_def start_validation_def lock_next_def executed_def executor0_def)
  have 2: "?W shared0 ((executed r)\<lparr>pc := LockLoad 0\<rparr>) = (shared0, (executed r)\<lparr>pc := LockTry 0 word1\<rparr>)"
    by (simp add: worker_step_def lock_load_def executed_def executor0_def sh)
  have 3: "?W shared0 ((executed r)\<lparr>pc := LockTry 0 word1\<rparr>) = (locked0, ?l\<lparr>pc := ReadEpoch\<rparr>)"
    by (simp add: worker_step_def lock_try_def lock_next_def executed_def executor0_def sh w1 Let_def max_0 locked0_def)
  have 4: "?W locked0 (?l\<lparr>pc := ReadEpoch\<rparr>) = (locked0, ?l\<lparr>pc := StoreEpoch 0\<rparr>)"
    by (simp add: worker_step_def locked0_def set_tidWord_def shared0_def)
  have 5: "?W locked0 (?l\<lparr>pc := StoreEpoch 0\<rparr>) = (locked0, validating r 0)"
    by (simp add: worker_step_def locked0_def set_tidWord_def shared0_def validating_def executed_def executor0_def fun_eq_iff)
  have s: "\<not> saturated (?l\<lparr>pc := p\<rparr>)" "\<not> saturated ((executed r)\<lparr>pc := p\<rparr>)" "\<not> saturated (executed r)" for p
    by (simp_all add: saturated_def executed_def executor0_def max_0 w1)
  have five: "5 = Suc (Suc (Suc (Suc (Suc 0))))" by simp
  show ?thesis unfolding five solo.simps solo_ok.simps fst_conv snd_conv 1 2 3 4 5 using s by blast
qed

lemma validate_next: "validate locked0 (validating r 0) 0 = validating r 1"
  by (simp add: validate_def validation_fails_def searchWriteSet_def validating_def locked0_def word1_def executor0_def max_0)

lemma reach0: "reachable silo_init (silo_step zipf0) (shared0, executor0)"
  by (rule reachable.start) (rule silo_init0)

text \<open>The states reached, with the validation of the read ahead and behind.\<close>

lemma reach_validating:
  "\<exists>r. reachable silo_init (nowrap_step zipf0) (locked0, executor0(1 := validating r 0))
     \<and> reachable silo_init (nowrap_step zipf0) (locked0, executor0(1 := validating r 1))
     \<and> reachable silo_init (nowrap_step zipf0) (locked0, executor0(1 := (validating r 1)\<lparr>status := Committed, pc := ChooseTid\<rparr>))"
proof -
  obtain r where r: "solo (Suc (Suc (Suc 0))) (shared0, executor0 1) = (shared0, reading r)" "solo_ok (Suc (Suc (Suc 0))) (shared0, executor0 1)"
    using run_read by blast
  have n: "Suc (Suc (Suc 0)) + (16 + 5) = 24" by simp
  have all: "solo 24 (shared0, executor0 1) = (locked0, validating r 0) \<and> solo_ok 24 (shared0, executor0 1)"
    unfolding n [symmetric] solo_add r(1) run_ops using run_lock [of r] run_ops_ok [of r] r(2) by simp
  have W1: "worker_step zipf0 1 0 locked0 (validating r 0) = (locked0, validating r 1)"
    using validate_next [of r] by (simp add: worker_step_def validating_def [of r 0])
  have W2: "worker_step zipf0 1 0 locked0 (validating r 1) = (locked0, (validating r 1)\<lparr>status := Committed, pc := ChooseTid\<rparr>)"
    by (simp add: worker_step_def validating_def validate_def)
  have s: "\<not> saturated (validating r i)" for i
    by (simp add: saturated_def validating_def executor0_def word1_def max_def)
  have b: "solo (24 + Suc 0) (shared0, executor0 1) = (locked0, validating r 1)" "solo_ok (24 + Suc 0) (shared0, executor0 1)"
    unfolding solo_add using all W1 s by (simp_all del: One_nat_def)
  have c: "solo (24 + Suc (Suc 0)) (shared0, executor0 1) = (locked0, (validating r 1)\<lparr>status := Committed, pc := ChooseTid\<rparr>)"
    "solo_ok (24 + Suc (Suc 0)) (shared0, executor0 1)"
    unfolding solo_add using all W1 W2 s by (simp_all del: One_nat_def)
  have i: "reachable silo_init (nowrap_step zipf0) (shared0, executor0(1 := executor0 1))"
    using reachable.start [of silo_init, OF silo_init0] by simp
  show ?thesis using solo_reachable [OF i, of 24] solo_reachable [OF i b(2)] solo_reachable [OF i c(2)] all
    unfolding b c by auto
qed

text \<open>Worker 2 then starts the same transaction and finds key 0 locked.\<close>

lemma reach_spinning:
  "\<exists>r y ops. reachable silo_init (silo_step zipf0) (locked0, (executor0(1 := validating r 0))(2 := y)) \<and> pc y = Spin 0 (set_lock True word1) ops"
proof -
  obtain r where r: "reachable silo_init (silo_step zipf0) (locked0, executor0(1 := validating r 0))"
    using reach_validating nowrap_reachable by blast
  obtain q where q: "makeSteps zipf0 10000 10 50 (seed_rng 32) = Some (steps0, q)" using makeSteps0 by blast
  let ?X = "executor0(1 := validating r 0)"
  let ?y1 = "(executor0 2)\<lparr>steps := steps0, random := q, pc := Retry\<rparr>"
  let ?y2 = "?y1\<lparr>pc := CheckQuit\<rparr>"
  let ?y3 = "?y1\<lparr>pc := Ops steps0\<rparr>"
  have go: "reachable silo_init (silo_step zipf0) (locked0, ?X(2 := y')) "
    if "reachable silo_init (silo_step zipf0) (locked0, ?X(2 := y))" "worker_step zipf0 2 0 locked0 y = (locked0, y')" for y y'
    using reachable.move [OF that(1) silo_step.worker [where th = 2 and clock = 0 and S' = locked0 and x' = y']] that(2) by simp
  have "reachable silo_init (silo_step zipf0) (locked0, ?X(2 := executor0 2))" using r by (simp add: fun_upd_idem)
  moreover have "worker_step zipf0 2 0 locked0 (executor0 2) = (locked0, ?y1)"
    using q by (simp add: worker_step_def next_txn_def locked0_def set_tidWord_def shared0_def executor0_def)
  ultimately have "reachable silo_init (silo_step zipf0) (locked0, ?X(2 := ?y1))" by (rule go)
  moreover have "worker_step zipf0 2 0 locked0 ?y1 = (locked0, ?y2)" by (simp add: worker_step_def)
  ultimately have "reachable silo_init (silo_step zipf0) (locked0, ?X(2 := ?y2))" by (rule go)
  moreover have "worker_step zipf0 2 0 locked0 ?y2 = (locked0, ?y3)"
    by (simp add: worker_step_def check_quit_def begin_txn_def locked0_def set_tidWord_def shared0_def executor0_def)
  ultimately have 3: "reachable silo_init (silo_step zipf0) (locked0, ?X(2 := ?y3))" by (rule go)
  let ?y4 = "?y3\<lparr>pc := Spin 0 (set_lock True word1) (tl steps0)\<rparr>"
  have "worker_step zipf0 2 0 locked0 ?y3 = (locked0, ?y4)"
    by (simp add: worker_step_def next_op_def read_op_def searchReadSet_def searchWriteSet_def steps0_def Step_def locked0_def set_tidWord_def executor0_def)
  from go [OF 3 this] show ?thesis by (intro exI [of _ r] exI [of _ ?y4] exI [of _ "tl steps0"]) simp
qed

end
