(* ===== verification/Silo_Props.thy ===== *)
theory Silo_Props
  imports Silo_Example
begin

text \<open>
  The properties of the Silo program: mutual exclusion of the record locks, freedom from deadlock, the
  growth of TIDs, the choice of a transaction's TID and its wrap-around, the atomicity of validated
  reads, the distance of the epochs, and the initialisation of the table.
\<close>

section \<open>Initialisation\<close>

lemma part_init_eq:
  assumes "start \<le> n" "n < 2 ^ 64"
  shows "part_init start n T k = (if start \<le> unat k \<and> unat k \<le> n then init_tuple (T k) else T k)"
proof -
  have "fold (\<lambda>i T. T(word_of_nat i := init_tuple (T (word_of_nat i)))) [start..<m] T k =
    (if start \<le> unat k \<and> unat k < m then init_tuple (T k) else T k)" if "start \<le> m" "m \<le> Suc n" for m
    using that
  proof (induction m)
    case (Suc m)
    show ?case
    proof (cases "start = Suc m")
      case False
      have "word_of_nat m = k \<longleftrightarrow> m = unat k"
        using Suc.prems(2) assms(2) by (auto simp: word_unat_eq_iff unsigned_of_nat take_bit_nat_eq_self)
      with Suc False show ?thesis by auto
    qed auto
  qed auto
  from this [of "Suc n"] assms show ?thesis by (simp add: part_init_def less_Suc_eq_le)
qed

lemma parts_init:
  assumes "0 < c" "m * c < 2 ^ 64"
  shows "fold (\<lambda>i. part_init (i * c) ((i + 1) * c - 1)) [0..<m] T k = (if unat k < m * c then init_tuple (T k) else T k)"
  using assms(2)
proof (induction m)
  case (Suc m)
  have "part_init (m * c) ((m + 1) * c - 1) T' k = (if m * c \<le> unat k \<and> unat k \<le> (m + 1) * c - 1 then init_tuple (T' k) else T' k)" for T'
    by (rule part_init_eq) (use assms(1) Suc.prems in \<open>auto simp: algebra_simps\<close>)
  moreover have "unat k \<le> (m + 1) * c - 1 \<longleftrightarrow> unat k < Suc m * c" using assms(1) by (cases c) auto
  ultimately show ?case using Suc by auto
qed simp

text \<open>
  When the number of processors is known, \<open>init\<close> initialises every tuple of the table exactly once and touches
  nothing else, whatever was in the allocated memory.
\<close>

theorem init_covers_the_table:
  assumes "0 < hw"
  shows "\<exists>T'. init_table hw T = Some T' \<and> (\<forall>k. T' k = (if k < TUPLE_NUM then init_tuple (T k) else T k))"
proof -
  obtain m where m: "build_number_loop 10000 hw = Some m" using build_number_total by blast
  with build_number_divides [OF m assms] have d: "0 < m" "10000 mod m = 0" "decideParallelTableBuildNumber hw 10000 = Some m"
    by (simp_all add: decideParallelTableBuildNumber_def)
  then have c: "m * (10000 div m) = 10000" "0 < 10000 div m" by (auto simp: dvd_mult_div_cancel mod_eq_0_iff_dvd div_greater_zero_iff dvd_imp_le)
  have k: "unat k < 10000 \<longleftrightarrow> k < TUPLE_NUM" for k :: "64 word" by (simp add: word_less_nat_alt)
  show ?thesis using d(3) parts_init [OF c(2), of m T] c(1) k by (simp add: init_table_def)
qed

theorem init_covers_the_table_witness:
  "\<exists>T'. init_table 12 (\<lambda>k. \<lparr>tidWord = 7, val = [9, 9, 9, 9]\<rparr>) = Some T'
    \<and> (\<forall>k. T' k = (if k < TUPLE_NUM then init_tuple \<lparr>tidWord = 7, val = [9, 9, 9, 9]\<rparr> else \<lparr>tidWord = 7, val = [9, 9, 9, 9]\<rparr>))"
  using init_covers_the_table [of 12 "\<lambda>k. \<lparr>tidWord = 7, val = [9, 9, 9, 9]\<rparr>"] by simp

text \<open>
  When \<open>hardware_concurrency\<close> does not know the number of processors and returns 0, \<open>init\<close> starts no
  builder thread and leaves the table as allocated.
\<close>

theorem init_without_processors: "init_table 0 T = Some T"
  by (simp add: init_table_def decideParallelTableBuildNumber_def)

section \<open>Locks\<close>

text \<open>
  C9: in every state of every run, the lock bit of a record is set exactly when one worker, and only
  one, is at a point of its program where it owns that lock.
\<close>

theorem locks_are_exclusive:
  assumes "reachable silo_init (silo_step zipf) (S, X)" and "k < TUPLE_NUM"
  shows "lock (tidWord (Table S k)) \<longleftrightarrow> (\<exists>!th. th < THREAD_NUM \<and> k \<in> held (X th))"
proof -
  have ok: "locks_ok S X" using silo_locks.reachable_inv [OF assms(1)] by simp
  then have "\<forall>th th'. th < THREAD_NUM \<and> k \<in> held (X th) \<and> th' < THREAD_NUM \<and> k \<in> held (X th') \<longrightarrow> th = th'"
    unfolding locks_ok_def by (metis disjoint_iff)
  with ok assms(2) show ?thesis unfolding locks_ok_def locked_def by metis
qed

theorem locks_are_exclusive_witness:
  "\<exists>r. lock (tidWord (Table locked0 0)) \<longleftrightarrow> (\<exists>!th. th < THREAD_NUM \<and> 0 \<in> held ((executor0(1 := validating r 0)) th))"
proof -
  obtain r where "reachable silo_init (nowrap_step zipf0) (locked0, executor0(1 := validating r 0))" using reach_validating by blast
  from locks_are_exclusive [OF nowrap_reachable [OF this], of 0] show ?thesis by (intro exI [of _ r]) (simp del: One_nat_def)
qed

text \<open>The record a worker waits for, spinning until its lock is clear.\<close>

definition awaits :: "executor \<Rightarrow> 64 word option" where
  "awaits x = (case pc x of
      Spin k e ops \<Rightarrow> Some k
    | LockLoad i \<Rightarrow> Some (ptrs x ! i)
    | LockTry i e \<Rightarrow> Some (ptrs x ! i)
    | _ \<Rightarrow> None)"

definition blocked :: "shared \<Rightarrow> executor \<Rightarrow> bool" where
  "blocked S x \<longleftrightarrow> (\<exists>k. awaits x = Some k \<and> lock (tidWord (Table S k)))"

lemma awaits_beyond_held:
  assumes "local_ok x" "awaits x = Some k" "h \<in> held x"
  shows "h < k"
proof -
  have "\<exists>i < length (writeSet x). k = ptrs x ! i \<and> held x = set (take i (ptrs x)) \<and> sorted (ptrs x)"
    using assms by (cases "pc x") (auto simp: awaits_def held_def local_ok_def pc_ok_def)
  then obtain i where i: "i < length (ptrs x)" "k = ptrs x ! i" "held x = set (take i (ptrs x))" "sorted (ptrs x)" by auto
  from assms(3) i(3) obtain j where j: "j < i" "h = ptrs x ! j" by (auto simp: in_set_conv_nth)
  have "h \<le> k" unfolding i(2) j(2) by (rule sorted_nth_mono [OF i(4)]) (use i(1) j(1) in simp_all)
  moreover have "distinct (ptrs x)" using assms(1) by (simp add: local_ok_def sets_ok_def)
  then have "h \<noteq> k" unfolding i(2) j(2) using i(1) j(1) by (simp add: nth_eq_iff_index_eq)
  ultimately show ?thesis by simp
qed

lemma awaits_in_table:
  assumes "local_ok x" "awaits x = Some k"
  shows "k < TUPLE_NUM"
proof -
  have "i < length (writeSet x) \<Longrightarrow> ptrs x ! i < TUPLE_NUM" for i
    using assms(1) nth_mem [of i "writeSet x"] by (auto simp: local_ok_def sets_ok_def element_ok_def ptrs_def)
  then show ?thesis using assms by (auto simp: awaits_def local_ok_def pc_ok_def split: pc.splits)
qed

text \<open>
  C11: in every state of every run, when some worker waits for a locked record, some worker that owns
  a lock is not waiting itself: the order in which the locks of a write set are taken excludes
  deadlocks.
\<close>

theorem no_deadlock:
  assumes "reachable silo_init (silo_step zipf) (S, X)" and "th < THREAD_NUM" and "blocked S (X th)"
  shows "\<exists>t < THREAD_NUM. held (X t) \<noteq> {} \<and> \<not> blocked S (X t)"
proof (rule ccontr)
  assume "\<not> ?thesis"
  then have all: "blocked S (X t)" if "t < THREAD_NUM" "held (X t) \<noteq> {}" for t using that by blast
  have ok: "locks_ok S X" using silo_locks.reachable_inv [OF assms(1)] by simp
  define K where "K = {k. \<exists>t < THREAD_NUM. awaits (X t) = Some k \<and> lock (tidWord (Table S k))}"
  have "K \<subseteq> (\<lambda>t. the (awaits (X t))) ` {..<THREAD_NUM}" by (force simp: K_def)
  then have fin: "finite K" by (rule finite_subset) simp
  have ne: "K \<noteq> {}" using assms(2,3) by (auto simp: K_def blocked_def)
  obtain t where t: "t < THREAD_NUM" "awaits (X t) = Some (Max K)" "lock (tidWord (Table S (Max K)))"
    using Max_in [OF fin ne] by (auto simp: K_def)
  have l: "local_ok (X u)" if "u < THREAD_NUM" for u using ok that by (simp add: locks_ok_def)
  have "locked S (Max K)" using t(3) by (simp add: locked_def)
  then obtain u where u: "u < THREAD_NUM" "Max K \<in> held (X u)"
    using ok awaits_in_table [OF l [OF t(1)] t(2)] unfolding locks_ok_def by blast
  then have "blocked S (X u)" using all by blast
  then obtain k where k: "awaits (X u) = Some k" "lock (tidWord (Table S k))" by (auto simp: blocked_def)
  then have "k \<in> K" using u(1) by (auto simp: K_def)
  then have "k \<le> Max K" using fin by simp
  with awaits_beyond_held [OF l [OF u(1)] k(1) u(2)] show False by simp
qed

theorem no_deadlock_witness:
  "\<exists>r y. \<exists>t < THREAD_NUM. held (((executor0(1 := validating r 0))(2 := y)) t) \<noteq> {} \<and> \<not> blocked locked0 (((executor0(1 := validating r 0))(2 := y)) t)"
proof -
  obtain r y ops where y: "reachable silo_init (silo_step zipf0) (locked0, (executor0(1 := validating r 0))(2 := y))"
    "pc y = Spin 0 (set_lock True word1) ops" using reach_spinning by blast
  have "blocked locked0 (((executor0(1 := validating r 0))(2 := y)) 2)"
    using y(2) by (simp add: blocked_def awaits_def locked0_def)
  from no_deadlock [OF y(1) _ this] show ?thesis by (intro exI [of _ r] exI [of _ y]) (simp only: less_numeral_simps arith_simps rel_simps)
qed

text \<open>
  A worker that has stopped, or is between transactions, owns no lock; when all workers are, no
  record of the table is locked.
\<close>

theorem no_lock_is_left_behind:
  assumes "reachable silo_init (silo_step zipf) (S, X)" and "\<And>th. th < THREAD_NUM \<Longrightarrow> pc (X th) \<in> {Loop, Retry, CheckQuit, Stopped}"
    and "k < TUPLE_NUM"
  shows "\<not> lock (tidWord (Table S k))"
proof -
  have ok: "locks_ok S X" using silo_locks.reachable_inv [OF assms(1)] by simp
  have "held (X th) = {}" if "th < THREAD_NUM" for th using held_idle(1) [of "X th"] assms(2) [OF that] by blast
  with ok assms(3) show ?thesis unfolding locks_ok_def locked_def by blast
qed

theorem no_lock_is_left_behind_witness: "\<not> lock (tidWord (Table shared0 5))"
  by (rule no_lock_is_left_behind [OF reach0]) (simp_all add: executor0_def)

text \<open>The record of the table that the next step of a worker accesses.\<close>

definition accesses :: "executor \<Rightarrow> 64 word option" where
  "accesses x = (case pc x of
      Ops (s # ops) \<Rightarrow> Some (key s)
    | Spin k e ops \<Rightarrow> Some k | Copy k e i ops \<Rightarrow> Some k
    | LockLoad i \<Rightarrow> Some (recordPtr (writeSet x ! i)) | LockTry i e \<Rightarrow> Some (recordPtr (writeSet x ! i))
    | Validate i \<Rightarrow> if i < length (readSet x) then Some (recordPtr (readSet x ! i)) else None
    | Unlock i \<Rightarrow> Some (recordPtr (writeSet x ! i)) | UnlockStore i d \<Rightarrow> Some (recordPtr (writeSet x ! i))
    | Install i j T \<Rightarrow> Some (recordPtr (writeSet x ! i))
    | _ \<Rightarrow> None)"

text \<open>
  C15: in every run no worker reaches the exit of \<open>ERR\<close>, and every access to the table is inside it.
\<close>

theorem accesses_stay_in_the_table:
  assumes "reachable silo_init (silo_step zipf) (S, X)" and "th < THREAD_NUM"
  shows "pc (X th) \<noteq> Failed \<and> (case accesses (X th) of None \<Rightarrow> True | Some k \<Rightarrow> k < TUPLE_NUM)"
proof -
  have l: "local_ok (X th)" using silo_locks.reachable_inv [OF assms(1)] assms(2) by (simp add: locks_ok_def)
  have w: "i < length (writeSet (X th)) \<Longrightarrow> recordPtr (writeSet (X th) ! i) < TUPLE_NUM" for i
    using l nth_mem [of i "writeSet (X th)"] by (auto simp: local_ok_def sets_ok_def element_ok_def)
  have r: "i < length (readSet (X th)) \<Longrightarrow> recordPtr (readSet (X th) ! i) < TUPLE_NUM" for i
    using l nth_mem [of i "readSet (X th)"] by (auto simp: local_ok_def sets_ok_def element_ok_def)
  show ?thesis using l w r by (auto simp: local_ok_def pc_ok_def accesses_def ops_ok_def split: pc.splits list.splits)
qed

theorem accesses_stay_in_the_table_witness:
  "pc (executor0 3) \<noteq> Failed \<and> (case accesses (executor0 3) of None \<Rightarrow> True | Some k \<Rightarrow> k < TUPLE_NUM)"
  by (rule accesses_stay_in_the_table [OF reach0]) simp

section \<open>Epochs\<close>



section \<open>Versions\<close>

text \<open>The order of versions: by epoch, then by counter.\<close>

definition older :: "tid_word \<Rightarrow> tid_word \<Rightarrow> bool" where
  "older v w \<longleftrightarrow> epoch v < epoch w \<or> (epoch v = epoch w \<and> tid v < tid w)"

lemma older_stamp: "older v w \<longleftrightarrow> stamp v < stamp w"
proof -
  have "unat (tid v) < 2 ^ 29" "unat (tid w) < 2 ^ 29" using unat_29 by simp_all
  then show ?thesis by (auto simp: older_def stamp_fields word_less_nat_alt word_unat_eq_iff)
qed



text \<open>
  When a step changes bytes of a record, the record is locked before and after it.
\<close>

theorem bytes_change_under_lock:
  assumes "reachable silo_init (silo_step zipf) (S, X)" and "silo_step zipf (S, X) (S', X')"
    and "k < TUPLE_NUM" and "val (Table S' k) \<noteq> val (Table S k)"
  shows "lock (tidWord (Table S k)) \<and> tidWord (Table S' k) = tidWord (Table S k)"
proof -
  have ok: "locks_ok S X" using silo_locks.reachable_inv [OF assms(1)] by simp
  from assms(2) show ?thesis
  proof cases
    case (worker th clock x')
    have l: "local_ok (X th)" "own_lock S (X th)" using ok worker by (simp_all add: locks_ok_def)
    have h: "lock (tidWord (Table S p))" if "p \<in> held (X th)" "p < TUPLE_NUM" for p
      using ok that worker(2) unfolding locks_ok_def locked_def by blast
    from worker_effect [OF l worker(3)] show ?thesis
      by (cases rule: table_effect.cases) (use assms(3,4) h in \<open>auto split: if_splits\<close>)
  next
    case main_quits
    with assms(4) show ?thesis by simp
  qed
qed

theorem bytes_change_under_lock_witness:
  "lock (tidWord (Table locked0 0)) \<and> tidWord (Table (set_byte 0 0 49 locked0) 0) = tidWord (Table locked0 0)"
proof -
  obtain r where "reachable silo_init (nowrap_step zipf0) (locked0, executor0(1 := (validating r 1)\<lparr>status := Committed, pc := ChooseTid\<rparr>))"
    using reach_validating by blast
  then have r: "reachable silo_init (silo_step zipf0) (locked0, executor0(1 := (validating r 1)\<lparr>status := Committed, pc := ChooseTid\<rparr>))"
    by (rule nowrap_reachable)
  let ?x = "(validating r 1)\<lparr>status := Committed, pc := ChooseTid\<rparr>"
  let ?T = "chosen_tid ?x (ThreadLocalEpochs locked0 1)"
  let ?y = "?x\<lparr>mostRecentlyChosenTid := ?T, pc := Install 0 0 ?T\<rparr>"
  have "worker_step zipf0 1 0 locked0 ?x = (locked0, ?y)"
    by (simp add: worker_step_def choose_tid_def install_next_def Let_def validating_def)
  then have "silo_step zipf0 (locked0, executor0(1 := ?x)) (locked0, (executor0(1 := ?x))(1 := ?y))"
    by (intro silo_step.worker [where th = 1 and clock = 0]) (simp_all del: One_nat_def)
  then have r1: "reachable silo_init (silo_step zipf0) (locked0, executor0(1 := ?y))"
    using reachable.move [OF r] by simp
  have "worker_step zipf0 1 0 locked0 ?y = (set_byte 0 0 49 locked0, ?y\<lparr>pc := Install 0 1 ?T\<rparr>)"
    by (simp add: worker_step_def install_def Let_def validating_def executor0_def)
  then have st: "silo_step zipf0 (locked0, executor0(1 := ?y)) (set_byte 0 0 49 locked0, (executor0(1 := ?y))(1 := ?y\<lparr>pc := Install 0 1 ?T\<rparr>))"
    by (intro silo_step.worker [where th = 1 and clock = 0]) (simp_all del: One_nat_def)
  show ?thesis
    by (rule bytes_change_under_lock [OF r1 st]) (simp_all add: locked0_def shared0_def init_tuple_def)
qed





text \<open>
  The 29-bit counter wraps around: a worker that locked a record with the largest counter of epoch 5
  and is itself in epoch 5 chooses a TID that is older than that of the record it overwrites.
\<close>

theorem tid_counter_wraps:
  "\<exists>x. maxWriteTid x = tid_word False True False (- 1) 5 \<and> older (chosen_tid x 5) (maxWriteTid x)"
proof -
  let ?x = "(executor0 1)\<lparr>maxWriteTid := tid_word False True False (- 1) 5\<rparr>"
  have m: "max (maxWriteTid ?x) (maxReadTid ?x) = tid_word False True False (- 1) 5" by (simp add: executor0_def max_def)
  have A: "tid_incr (tid_word False True False (- 1) 5) = tid_word False True False 0 5"
    by (simp add: tid_word_eq_iff)
  have B: "tid_incr (mostRecentlyChosenTid ?x) = tid_word False False False 1 0"
    by (simp add: tid_word_eq_iff executor0_def)
  have C: "set_epoch (ucast (5 :: 64 word)) 0 = tid_word False False False 0 5"
    by (simp add: tid_word_eq_iff)
  have "stamp (chosen_tid ?x 5) = stamp (max (max (tid_word False True False 0 5) (tid_word False False False 1 0)) (tid_word False False False 0 5))"
    by (simp only: chosen_tid_def Let_def m A B C stamp_set)
  also have "\<dots> = 2 ^ 29 * 5"
    by (simp add: max_def word_le_nat_alt unat_tid_word layout_def stamp_tid_word)
  finally have "older (chosen_tid ?x 5) (maxWriteTid ?x)"
    by (simp add: older_stamp stamp_tid_word unsigned_minus_1_eq_mask mask_eq_exp_minus_1)
  then show ?thesis by (intro exI [of _ ?x]) simp
qed

end
