(* ===== verification/Silo_History.thy ===== *)
theory Silo_History
  imports Silo_Versions
begin

text \<open>
  Histories of the Silo program. A run records the transactions that pass their validation, with the bytes they read and
  the records they write; serial execution on an abstract memory; and lists of committed transactions ordered by the
  times at which they held all their locks, with what putting one more in does to their execution.
\<close>

section \<open>Runs with the transactions they commit\<close>

text \<open>
  A committed transaction: its number in the order of commits, the number of commits when it began, the records it read
  with their bytes, the records it writes, and the bytes it writes to each.
\<close>

record txn =
  t_id :: nat
  t_began :: nat
  t_reads :: "(64 word \<times> 8 word list) list"
  t_writes :: "64 word list"
  t_value :: "8 word list"

definition txn_of :: "nat \<Rightarrow> nat \<Rightarrow> executor \<Rightarrow> txn" where
  "txn_of i began x = \<lparr>t_id = i, t_began = began, t_reads = map (\<lambda>e. (recordPtr e, read_value e)) (readSet x),
     t_writes = map recordPtr (writeSet x), t_value = writeValue x\<rparr>"

text \<open>
  A worker begins a transaction (also when it tries one again) when it leaves \<open>CheckQuit\<close>, and commits it when
  \<open>validationPhase\<close> sets the status. The run keeps the commits, the number of commits when each worker began, and the world.
\<close>

inductive silo_run :: "zipf \<Rightarrow> world \<Rightarrow> txn list \<Rightarrow> (nat \<Rightarrow> nat) \<Rightarrow> world \<Rightarrow> bool" for zipf W0 where
  start: "silo_init W0 \<Longrightarrow> silo_run zipf W0 [] (\<lambda>th. 0) W0"
| worker: "silo_run zipf W0 h b (S, X) \<Longrightarrow> \<forall>t < THREAD_NUM. \<not> saturated (X t) \<Longrightarrow> th < THREAD_NUM \<Longrightarrow>
    worker_step zipf th clock S (X th) = (S', x') \<Longrightarrow>
    silo_run zipf W0 (h @ (if pc x' = ChooseTid then [txn_of (length h) (b th) (X th)] else []))
      (if pc (X th) = CheckQuit then b(th := length h) else b) (S', X(th := x'))"
| main_quits: "silo_run zipf W0 h b (S, X) \<Longrightarrow> silo_run zipf W0 h b (S\<lparr>quit := True\<rparr>, X)"

text \<open>The transactions one after the other, on a memory of records; \<open>None\<close> when one reads other bytes than it did.\<close>

type_synonym records = "64 word \<Rightarrow> 8 word list"

definition apply_txn :: "txn \<Rightarrow> records \<Rightarrow> records" where
  "apply_txn t M = (\<lambda>k. if k \<in> set (t_writes t) then t_value t else M k)"

fun execute :: "txn list \<Rightarrow> records \<Rightarrow> records option" where
  "execute [] M = Some M"
| "execute (t # ts) M = (if \<forall>(k, v) \<in> set (t_reads t). M k = v then execute ts (apply_txn t M) else None)"

text \<open>No transaction stands before one that had committed when it began.\<close>

definition respects_time :: "txn list \<Rightarrow> bool" where
  "respects_time ts \<longleftrightarrow> sorted_wrt (\<lambda>t u. \<not> t_id u < t_began t) ts"

section \<open>Serial execution\<close>

definition replay :: "records \<Rightarrow> txn list \<Rightarrow> records" where
  "replay M ts = fold apply_txn ts M"

lemma replay_Nil [simp]: "replay M [] = M"
  by (simp add: replay_def)

lemma replay_append: "replay M (ts @ us) = replay (replay M ts) us"
  by (simp add: replay_def)

lemma replay_Cons: "replay M (t # ts) = replay (apply_txn t M) ts"
  by (simp add: replay_def)

lemma execute_replay:
  assumes "\<And>as t bs k v. ts = as @ t # bs \<Longrightarrow> (k, v) \<in> set (t_reads t) \<Longrightarrow> replay M as k = v"
  shows "execute ts M = Some (replay M ts)"
  using assms
proof (induction ts arbitrary: M)
  case (Cons t ts)
  have "\<forall>(k, v) \<in> set (t_reads t). M k = v" using Cons.prems [of "[]" t ts] by auto
  moreover have "execute ts (apply_txn t M) = Some (replay (apply_txn t M) ts)"
    by (rule Cons.IH) (use Cons.prems [of "t # _"] in \<open>simp add: replay_Cons\<close>)
  ultimately show ?case by (simp add: replay_Cons)
qed simp

lemma replay_local: "M k = M' k \<Longrightarrow> replay M ts k = replay M' ts k"
proof (induction ts arbitrary: M M')
  case (Cons t ts)
  have "apply_txn t M k = apply_txn t M' k" using Cons.prems by (simp add: apply_txn_def)
  then show ?case unfolding replay_Cons by (rule Cons.IH)
qed simp

lemma replay_untouched: "\<forall>t \<in> set ts. k \<notin> set (t_writes t) \<Longrightarrow> replay M ts k = M k"
  by (induction ts arbitrary: M) (simp_all add: replay_Cons apply_txn_def)

text \<open>Where a transaction is put in does not matter to the records it does not write, nor to those nobody writes after it.\<close>

lemma replay_insert_other: "k \<notin> set (t_writes t) \<Longrightarrow> replay M (as @ t # bs) k = replay M (as @ bs) k"
  unfolding replay_append replay_Cons by (rule replay_local) (simp add: apply_txn_def)

lemma replay_insert_own: "k \<in> set (t_writes t) \<Longrightarrow> \<forall>u \<in> set bs. k \<notin> set (t_writes u) \<Longrightarrow> replay M (as @ t # bs) k = t_value t"
  by (simp add: replay_append replay_Cons replay_untouched apply_txn_def)

section \<open>The history\<close>

text \<open>A history has the committed transactions with their times, in ascending order; \<open>before f H\<close> are those before \<open>f\<close>.\<close>

type_synonym history = "(nat \<times> txn) list"

definition before :: "nat \<Rightarrow> history \<Rightarrow> txn list" where
  "before f H = map snd (filter (\<lambda>e. fst e < f) H)"

definition put :: "nat \<times> txn \<Rightarrow> history \<Rightarrow> history" where
  "put e H = filter (\<lambda>d. fst d < fst e) H @ e # filter (\<lambda>d. fst e < fst d) H"

lemma history_split:
  fixes H :: history
  shows "sorted_wrt (<) (map fst H) \<Longrightarrow> f \<notin> fst ` set H \<Longrightarrow> filter (\<lambda>d. fst d < f) H @ filter (\<lambda>d. f < fst d) H = H"
proof (induction H)
  case (Cons d H)
  show ?case
  proof (cases "fst d < f")
    case False
    then have f: "f < fst d" using Cons.prems(2) by auto
    then have "f < fst e" if "e \<in> set H" for e using Cons.prems(1) that by fastforce
    then have "filter (\<lambda>e. fst e < f) H = []" "filter (\<lambda>e. f < fst e) H = H" by (force simp: filter_empty_conv filter_id_conv)+
    then show ?thesis using False f by simp
  qed (use Cons in auto)
qed simp

lemma set_put: "f \<notin> fst ` set H \<Longrightarrow> set (put (f, t) H) = insert (f, t) (set H)"
  by (force simp: put_def)

lemma sorted_put:
  assumes "sorted_wrt (<) (map fst H)"
  shows "sorted_wrt (<) (map fst (put e H))"
proof -
  have "sorted_wrt (<) (map fst (filter P H))" for P using assms by (induction H) auto
  then show ?thesis by (fastforce simp: put_def sorted_wrt_append)
qed

lemma mset_put:
  assumes "sorted_wrt (<) (map fst H)" "f \<notin> fst ` set H"
  shows "mset (put (f, t) H) = add_mset (f, t) (mset H)"
proof -
  have "mset (filter (\<lambda>d. fst d < f) H) + mset (filter (\<lambda>d. f < fst d) H) = mset H"
    using history_split [OF assms] by (metis mset_append)
  then show ?thesis by (simp add: put_def)
qed

lemma before_put_le: "g \<le> f \<Longrightarrow> before g (put (f, t) H) = before g H"
  by (auto simp: before_def put_def filter_empty_conv intro!: arg_cong [of _ _ "map snd"] filter_cong)

lemma before_put_greater:
  assumes "f < g" "sorted_wrt (<) (map fst H)" "f \<notin> fst ` set H"
  obtains as bs where "before g (put (f, t) H) = as @ t # bs" "before g H = as @ bs" "set bs \<subseteq> snd ` {e \<in> set H. f < fst e}"
proof
  let ?A = "filter (\<lambda>d. fst d < f) H" and ?B = "filter (\<lambda>d. fst d < g) (filter (\<lambda>d. f < fst d) H)"
  have A: "filter (\<lambda>d. fst d < g) ?A = ?A" using assms(1) unfolding filter_id_conv by force
  show "before g (put (f, t) H) = map snd ?A @ t # map snd ?B" using assms(1) A by (simp add: before_def put_def)
  show "before g H = map snd ?A @ map snd ?B"
    using arg_cong [OF history_split [OF assms(2,3)], of "\<lambda>xs. map snd (filter (\<lambda>d. fst d < g) xs)"] A by (simp add: before_def)
  show "set (map snd ?B) \<subseteq> snd ` {e \<in> set H. f < fst e}" by auto
qed

lemma all_put:
  assumes "sorted_wrt (<) (map fst H)" "f \<notin> fst ` set H"
  obtains as bs where "map snd (put (f, t) H) = as @ t # bs" "map snd H = as @ bs" "set bs = snd ` {e \<in> set H. f < fst e}"
    "set as = snd ` {e \<in> set H. fst e < f}"
proof
  let ?A = "filter (\<lambda>d. fst d < f) H" and ?B = "filter (\<lambda>d. f < fst d) H"
  show "map snd (put (f, t) H) = map snd ?A @ t # map snd ?B" by (simp add: put_def)
  show "map snd H = map snd ?A @ map snd ?B" using history_split [OF assms] by (metis map_append)
qed auto

lemma history_at:
  assumes "sorted_wrt (<) (map fst H)" "map snd H = as @ t # bs"
  shows "\<exists>e \<in> set H. snd e = t \<and> before (fst e) H = as"
proof -
  obtain As e Bs where H: "H = As @ e # Bs" "map snd As = as" "snd e = t" using assms(2) by (auto simp: map_eq_append_conv map_eq_Cons_conv)
  have "filter (\<lambda>d. fst d < fst e) As = As" "filter (\<lambda>d. fst d < fst e) Bs = []"
    using assms(1) by (auto simp: H(1) sorted_wrt_append filter_id_conv filter_empty_conv)
  then have "before (fst e) H = as" by (simp add: before_def H)
  then show ?thesis using H by auto
qed

end
