(* ===== verification/Silo_Serial.thy ===== *)
theory Silo_Serial
  imports Silo_History
begin

text \<open>
  Serializability of the Silo program. A transaction is put into the history when it commits, at the time when it held all
  its locks; since that moment lies before its validation, transactions that commit earlier may come later in the history.
  The invariant says what a worker that is being validated may rely on: nothing behind its time touches what it has
  locked, and what it has validated is what the history up to its time leaves.
\<close>

section \<open>The phases of a transaction\<close>

text \<open>
  From the moment it holds all its locks a worker is fenced, until its validation is over; then its writes are pending
  until they are installed.
\<close>

definition fenced :: "executor \<Rightarrow> bool" where
  "fenced x = (case pc x of ReadEpoch \<Rightarrow> True | StoreEpoch e \<Rightarrow> True | Validate i \<Rightarrow> True | _ \<Rightarrow> False)"

definition validated :: "executor \<Rightarrow> read_element set" where
  "validated x = (case pc x of Validate i \<Rightarrow> set (take i (readSet x)) | _ \<Rightarrow> {})"

definition pending :: "executor \<Rightarrow> bool" where
  "pending x = (case pc x of ChooseTid \<Rightarrow> True | Install i j T \<Rightarrow> True | _ \<Rightarrow> False)"

inductive phase :: "shared \<Rightarrow> executor \<Rightarrow> shared \<Rightarrow> executor \<Rightarrow> bool" where
  quiet: "\<forall>k. val (Table S' k) = val (Table S k) \<Longrightarrow> \<not> pending x \<Longrightarrow> \<not> pending x' \<Longrightarrow>
    fenced x' \<longrightarrow> fenced x \<and> held x' = held x \<and> readSet x' = readSet x \<and> validated x' \<subseteq> validated x \<Longrightarrow> phase S x S' x'"
| fence: "\<forall>k. val (Table S' k) = val (Table S k) \<Longrightarrow> \<not> pending x \<Longrightarrow> \<not> fenced x \<Longrightarrow> pc x' = ReadEpoch \<Longrightarrow> phase S x S' x'"
| valid: "pc x = Validate i \<Longrightarrow> i < length (readSet x) \<Longrightarrow>
    \<not> validation_fails x (readSet x ! i) (tidWord (Table S (recordPtr (readSet x ! i)))) \<Longrightarrow>
    pc x' = Validate (Suc i) \<Longrightarrow> readSet x' = readSet x \<Longrightarrow> ptrs x' = ptrs x \<Longrightarrow> phase S x S x'"
| commit: "pc x = Validate i \<Longrightarrow> length (readSet x) \<le> i \<Longrightarrow> pc x' = ChooseTid \<Longrightarrow> ptrs x' = ptrs x \<Longrightarrow> writeValue x' = writeValue x \<Longrightarrow>
    phase S x S x'"
| choose: "pc x = ChooseTid \<Longrightarrow> held x' = held x \<Longrightarrow> pending x' \<longleftrightarrow> ptrs x \<noteq> [] \<Longrightarrow> \<not> fenced x' \<Longrightarrow> ptrs x' = ptrs x \<or> ptrs x = [] \<Longrightarrow> writeValue x' = writeValue x \<Longrightarrow>
    (\<And>i j T. pc x' = Install i j T \<Longrightarrow> j = 0) \<Longrightarrow> phase S x S x'"
| byte: "pc x = Install i j T \<Longrightarrow> j < VALUE_SIZE \<Longrightarrow> pc x' = Install i (Suc j) T \<Longrightarrow> ptrs x' = ptrs x \<Longrightarrow> writeValue x' = writeValue x \<Longrightarrow>
    phase S x (set_byte (ptrs x ! i) j (writeValue x ! j) S) x'"
| stamp: "pc x = Install i j T \<Longrightarrow> VALUE_SIZE \<le> j \<Longrightarrow> held x' = held x - {ptrs x ! i} \<Longrightarrow> pending x' \<or> held x' = {} \<Longrightarrow> \<not> fenced x' \<Longrightarrow>
    writeValue x' = writeValue x \<Longrightarrow> (\<And>i j T. pc x' = Install i j T \<Longrightarrow> j = 0) \<Longrightarrow> phase S x (set_tidWord (ptrs x ! i) T S) x'"

lemma phase_simps:
  "pc x = ReadEpoch \<Longrightarrow> fenced x" "pc x = StoreEpoch e \<Longrightarrow> fenced x" "pc x = Validate i \<Longrightarrow> fenced x" "fenced x \<Longrightarrow> held x = set (ptrs x)"
  "fenced x \<Longrightarrow> \<not> pending x" "pc x = ChooseTid \<Longrightarrow> pending x" "pc x = Install i j T \<Longrightarrow> pending x" "pc x = ChooseTid \<Longrightarrow> held x = set (ptrs x)"
  by (auto simp: fenced_def pending_def held_def split: pc.splits)

lemma phase_idle:
  assumes "\<And>k. val (Table S' k) = val (Table S k)" "\<not> pending x" "\<not> pending x'" "\<not> fenced x'"
  shows "phase S x S' x'"
  by (rule phase.quiet) (use assms in auto)

lemma fenced_unlock_next: "\<not> fenced (unlock_next x i)" "\<not> pending (unlock_next x i)"
  by (simp_all add: unlock_next_def fenced_def pending_def)

lemma worker_phase:
  assumes "local_ok x" "worker_step zipf th clock S x = (S', x')"
  shows "phase S x S' x'"
proof (cases "pc x")
  case (Ops ops)
  then have s: "S' = S" "x' = next_op S x ops" using assms(2) by (auto simp: worker_step_def)
  have "\<not> pending x" "\<not> fenced x" using Ops by (simp_all add: pending_def fenced_def)
  moreover have "\<not> pending x'" "\<not> fenced x' \<or> pc x' = ReadEpoch"
    by (auto simp: s next_op_def start_validation_def lock_next_def read_op_def pending_def fenced_def split: list.split operation.split)
  ultimately show ?thesis using s(1) phase.fence phase_idle by metis
next
  case (LockTry i e)
  then have s: "val (Table S' k) = val (Table S k)" "pc x' = ReadEpoch \<or> (\<exists>i. pc x' = LockLoad i) \<or> (\<exists>i e. pc x' = LockTry i e)" for k
    using assms(2) by (auto simp: worker_step_def lock_try_def lock_next_def Let_def split: if_splits)
  moreover have "\<not> pending x" "\<not> fenced x" using LockTry by (simp_all add: pending_def fenced_def)
  moreover have "\<not> pending x'" "pc x' = ReadEpoch \<or> \<not> fenced x'" using s(2) by (auto simp: pending_def fenced_def)
  ultimately show ?thesis using phase.fence phase_idle by metis
next
  case (Validate i)
  then have s: "S' = S" "x' = validate S x i" using assms(2) by (auto simp: worker_step_def)
  show ?thesis
  proof (cases "i < length (readSet x)")
    case i: True
    show ?thesis
    proof (cases "validation_fails x (readSet x ! i) (tidWord (Table S (recordPtr (readSet x ! i))))")
      case True
      then have "x' = unlock_next (x\<lparr>status := Aborted\<rparr>) 0" using i by (simp add: s validate_def)
      then show ?thesis using s(1) Validate by (intro phase_idle) (simp_all add: fenced_unlock_next pending_def [of x])
    next
      case False
      then show ?thesis unfolding s(1) using i Validate
        by (intro phase.valid [where i = i]) (simp_all add: s(2) validate_def Let_def ptrs_def)
    qed
  next
    case False
    then show ?thesis unfolding s(1) using Validate
      by (intro phase.commit [where i = i]) (simp_all add: s(2) validate_def ptrs_def)
  qed
next
  case ChooseTid
  let ?T = "chosen_tid x (ThreadLocalEpochs S th)"
  have s: "S' = S" "x' = install_next (x\<lparr>mostRecentlyChosenTid := ?T\<rparr>) 0 ?T"
    using assms(2) ChooseTid by (auto simp: worker_step_def choose_tid_def Let_def)
  show ?thesis unfolding s(1) using ChooseTid
    by (intro phase.choose) (auto simp: s(2) install_next_def held_def pending_def fenced_def ptrs_def split: if_splits)
next
  case (Install i j T)
  have i: "i < length (writeSet x)" and d: "distinct (ptrs x)" using assms(1) Install by (simp_all add: local_ok_def pc_ok_def sets_ok_def)
  show ?thesis
  proof (cases "j < VALUE_SIZE")
    case True
    then have s: "S' = set_byte (ptrs x ! i) j (writeValue x ! j) S" "x' = x\<lparr>pc := Install i (Suc j) T\<rparr>"
      using assms(2) Install by (simp_all add: worker_step_def install_def Let_def ptrs_nth [OF i])
    show ?thesis unfolding s(1) using Install True by (intro phase.byte [where T = T]) (simp_all add: s(2) ptrs_def)
  next
    case False
    then have s: "S' = set_tidWord (ptrs x ! i) T S" "x' = install_next x (Suc i) T"
      using assms(2) Install by (simp_all add: worker_step_def install_def Let_def ptrs_nth [OF i])
    have h: "held x' = held x - {ptrs x ! i}"
      using d i Install by (auto simp: s(2) held_install_next held_def [of x] set_drop_Suc)
    have p: "pending x' \<or> held x' = {}" "\<not> fenced x'" "writeValue x' = writeValue x" "\<And>i j T. pc x' = Install i j T \<Longrightarrow> j = 0"
      by (auto simp: s(2) install_next_def pending_def held_def fenced_def split: if_splits)
    show ?thesis unfolding s(1) by (rule phase.stamp [OF Install _ h p]) (use False in simp_all)
  qed
next
  case ReadEpoch
  then show ?thesis using assms(2) by (intro phase.quiet) (auto simp: worker_step_def fenced_def pending_def held_def ptrs_def validated_def)
next
  case (StoreEpoch e)
  then show ?thesis using assms(2) by (intro phase.quiet) (auto simp: worker_step_def fenced_def pending_def held_def ptrs_def validated_def)
next
  case (UnlockStore i d)
  then show ?thesis using assms(2) by (intro phase_idle) (auto simp: worker_step_def unlock_store_def fenced_unlock_next pending_def [of x])
next
  case Loop
  then have "S' = S" "x' = next_txn zipf S x" using assms(2) by (auto simp: worker_step_def)
  then show ?thesis using Loop pc_next_txn [of zipf S x] by (intro phase_idle) (auto simp: pending_def fenced_def)
qed (use assms(2) in \<open>auto simp: worker_step_def step_epoch_time_def begin_txn_def check_epoch_def add_epoch_def check_quit_def
      read_spin_def read_copy_def lock_load_def unlock_load_def Let_def pending_def fenced_def intro!: phase_idle split: if_splits\<close>)


section \<open>The invariant\<close>

text \<open>\<open>M\<close> is the table at the start, \<open>H\<close> the history, \<open>n\<close> the next time, \<open>P\<close> tells the records with a pending write.\<close>

definition touches :: "txn \<Rightarrow> 64 word set" where
  "touches t = fst ` set (t_reads t) \<union> set (t_writes t)"

definition history_ok :: "records \<Rightarrow> history \<Rightarrow> nat \<Rightarrow> nat \<Rightarrow> bool" where
  "history_ok M H n len \<longleftrightarrow> sorted_wrt (<) (map fst H) \<and> (\<forall>e \<in> set H. fst e < n)
    \<and> (\<forall>e \<in> set H. \<forall>(k, v) \<in> set (t_reads (snd e)). replay M (before (fst e) H) k = v)
    \<and> (\<forall>e \<in> set H. t_id (snd e) < len \<and> t_began (snd e) \<le> len) \<and> respects_time (map snd H)"

text \<open>
  A worker that was fenced at time \<open>g\<close>: the transactions after \<open>g\<close> have nothing to do with what it has locked; its validated
  reads are those of the history up to \<open>g\<close>; what it read and has not validated yet fails the validation if it was overwritten after \<open>g\<close>.
\<close>

definition fence_ok :: "records \<Rightarrow> shared \<Rightarrow> (64 word \<Rightarrow> bool) \<Rightarrow> history \<Rightarrow> nat \<Rightarrow> nat \<Rightarrow> nat \<Rightarrow> executor \<Rightarrow> bool" where
  "fence_ok M S P H n began g x \<longleftrightarrow> (fenced x \<longrightarrow> g < n \<and> g \<notin> fst ` set H
    \<and> (\<forall>e \<in> set H. g < fst e \<longrightarrow> touches (snd e) \<inter> held x = {})
    \<and> (\<forall>re \<in> validated x. replay M (before g H) (recordPtr re) = read_value re)
    \<and> (\<forall>re \<in> set (readSet x). \<forall>e \<in> set H. g < fst e \<and> recordPtr re \<in> set (t_writes (snd e)) \<longrightarrow>
        P (recordPtr re) \<or> stamp (read_tid re) < rec_stamp S (recordPtr re))
    \<and> (\<forall>e \<in> set H. t_id (snd e) < began \<longrightarrow> fst e < g))"

definition fences_ok :: "(nat \<Rightarrow> executor) \<Rightarrow> (nat \<Rightarrow> nat) \<Rightarrow> bool" where
  "fences_ok X f \<longleftrightarrow> (\<forall>t < THREAD_NUM. \<forall>u < THREAD_NUM. t \<noteq> u \<and> fenced (X t) \<and> fenced (X u) \<longrightarrow>
    f t \<noteq> f u \<and> (f t < f u \<longrightarrow> recordPtr ` validated (X u) \<inter> held (X t) = {}))"

definition pending_ok :: "records \<Rightarrow> shared \<Rightarrow> history \<Rightarrow> executor \<Rightarrow> bool" where
  "pending_ok M S H x \<longleftrightarrow> (pending x \<longrightarrow> (\<forall>k \<in> held x. replay M (map snd H) k = writeValue x)
    \<and> (\<forall>i j T. pc x = Install i j T \<longrightarrow> take j (val (Table S (ptrs x ! i))) = take j (writeValue x)))"

definition pending_key :: "(nat \<Rightarrow> executor) \<Rightarrow> 64 word \<Rightarrow> bool" where
  "pending_key X k \<longleftrightarrow> (\<exists>t < THREAD_NUM. pending (X t) \<and> k \<in> held (X t))"

definition serialized :: "records \<Rightarrow> shared \<Rightarrow> (nat \<Rightarrow> executor) \<Rightarrow> txn list \<Rightarrow> (nat \<Rightarrow> nat) \<Rightarrow> history \<Rightarrow> (nat \<Rightarrow> nat) \<Rightarrow> nat \<Rightarrow> bool" where
  "serialized M S X h b H f n \<longleftrightarrow> mset (map snd H) = mset h \<and> history_ok M H n (length h)
    \<and> (\<forall>t < THREAD_NUM. b t \<le> length h \<and> fence_ok M S (pending_key X) H n (b t) (f t) (X t) \<and> pending_ok M S H (X t))
    \<and> fences_ok X f
    \<and> (\<forall>k < TUPLE_NUM. \<not> pending_key X k \<longrightarrow> val (Table S k) = replay M (map snd H) k)"

lemma fence_ok_mono:
  assumes "fence_ok M S P H n began g x" "\<And>k. rec_stamp S k \<le> rec_stamp S' k" "n \<le> n'"
    "\<And>re. re \<in> set (readSet x) \<Longrightarrow> P (recordPtr re) \<Longrightarrow> P' (recordPtr re) \<or> stamp (read_tid re) < rec_stamp S' (recordPtr re)"
  shows "fence_ok M S' P' H n' began g x"
  using assms unfolding fence_ok_def by (meson less_le_trans)

lemma fence_ok_not: "\<not> fenced x \<Longrightarrow> fence_ok M S P H n began g x"
  by (simp add: fence_ok_def)

lemma pending_ok_not: "\<not> pending x \<Longrightarrow> pending_ok M S H x"
  by (simp add: pending_ok_def)

lemma pending_key_upd:
  "th < THREAD_NUM \<Longrightarrow> pending_key (X(th := x)) k \<longleftrightarrow> pending x \<and> k \<in> held x \<or> (\<exists>t < THREAD_NUM. t \<noteq> th \<and> pending (X t) \<and> k \<in> held (X t))"
  by (auto simp: pending_key_def)

lemma pending_key_same:
  assumes "th < THREAD_NUM" "\<And>k. pending x \<and> k \<in> held x \<longleftrightarrow> pending (X th) \<and> k \<in> held (X th)"
  shows "pending_key (X(th := x)) = pending_key X"
  using assms by (auto simp: fun_eq_iff pending_key_upd pending_key_upd [of th X "X th", simplified])

lemma fences_ok_upd:
  assumes "fences_ok X f" "fenced x \<Longrightarrow> fenced (X th) \<and> held x = held (X th) \<and> validated x \<subseteq> validated (X th)"
  shows "fences_ok (X(th := x)) f"
  using assms unfolding fences_ok_def by (simp add: fun_upd_apply) blast

lemma fences_ok_not: "fences_ok X f \<Longrightarrow> \<not> fenced x \<Longrightarrow> fences_ok (X(th := x)) f"
  by (rule fences_ok_upd) simp_all

lemma all_upd: "(\<And>t. t < THREAD_NUM \<Longrightarrow> t \<noteq> th \<Longrightarrow> P t (X t)) \<Longrightarrow> P th x \<Longrightarrow> \<forall>t < THREAD_NUM. P t ((X(th := x)) t)"
  by simp

section \<open>Steps that commit nothing\<close>

lemma quiet_serialized:
  assumes ser: "serialized M S X h b H f n" and th: "th < THREAD_NUM"
    and mono: "\<And>k. rec_stamp S k \<le> rec_stamp S' k" and v: "\<forall>k. val (Table S' k) = val (Table S k)"
    and np: "\<not> pending (X th)" "\<not> pending x'"
    and f: "fenced x' \<longrightarrow> fenced (X th) \<and> held x' = held (X th) \<and> readSet x' = readSet (X th) \<and> validated x' \<subseteq> validated (X th)"
    and b: "b' = b \<or> b' = b(th := length h) \<and> \<not> fenced x'"
  shows "serialized M S' (X(th := x')) h b' H f n"
proof -
  have P: "pending_key (X(th := x')) = pending_key X" by (rule pending_key_same [OF th]) (use np in simp)
  have 1: "b' t \<le> length h \<and> fence_ok M S' (pending_key X) H n (b' t) (f t) ((X(th := x')) t) \<and> pending_ok M S' H ((X(th := x')) t)"
    if t: "t < THREAD_NUM" for t
  proof -
    have o: "b t \<le> length h" "fence_ok M S (pending_key X) H n (b t) (f t) (X t)" "pending_ok M S H (X t)" using ser t by (simp_all add: serialized_def)
    have "pending_ok M S' H ((X(th := x')) t)" using o(3) np(2) v by (simp add: pending_ok_def)
    moreover have "fence_ok M S' (pending_key X) H n (b' t) (f t) ((X(th := x')) t)"
    proof (cases "t = th")
      case True
      then show ?thesis using o(2) f b by (cases "fenced x'") (auto simp: fence_ok_not intro!: fence_ok_mono [OF _ mono, of M _ H n _ _ _ n], auto simp: fence_ok_def)
    next
      case False
      then show ?thesis using b by (auto intro: fence_ok_mono [OF o(2) mono])
    qed
    ultimately show ?thesis using o(1) b by auto
  qed
  have "fences_ok (X(th := x')) f" by (rule fences_ok_upd) (use ser f in \<open>simp_all add: serialized_def\<close>)
  then show ?thesis using ser 1 v unfolding serialized_def P by simp
qed


lemma fence_serialized:
  assumes ser: "serialized M S X h b H f n" and th: "th < THREAD_NUM"
    and mono: "\<And>k. rec_stamp S k \<le> rec_stamp S' k" and v: "\<forall>k. val (Table S' k) = val (Table S k)"
    and np: "\<not> pending (X th)" "\<not> fenced (X th)" and x': "pc x' = ReadEpoch"
  shows "serialized M S' (X(th := x')) h b H (f(th := n)) (Suc n)"
proof -
  have nx': "\<not> pending x'" "validated x' = {}" using x' by (simp_all add: pending_def validated_def)
  have P: "pending_key (X(th := x')) = pending_key X" by (rule pending_key_same [OF th]) (use np nx' in simp)
  have H: "history_ok M H n (length h)" using ser by (simp add: serialized_def)
  then have lt: "fst e < n" if "e \<in> set H" for e using that by (simp add: history_ok_def)
  have 1: "fence_ok M S' (pending_key X) H (Suc n) (b t) ((f(th := n)) t) ((X(th := x')) t) \<and> pending_ok M S' H ((X(th := x')) t)"
    if t: "t < THREAD_NUM" for t
  proof -
    have o: "fence_ok M S (pending_key X) H n (b t) (f t) (X t)" "pending_ok M S H (X t)" using ser t by (simp_all add: serialized_def)
    have "pending_ok M S' H ((X(th := x')) t)" using o(2) nx' v by (simp add: pending_ok_def)
    moreover have "fence_ok M S' (pending_key X) H (Suc n) (b t) ((f(th := n)) t) ((X(th := x')) t)"
    proof (cases "t = th")
      case True
      then show ?thesis using nx'(2) by (auto simp: fence_ok_def dest!: lt)
    next
      case False
      then show ?thesis by (auto intro: fence_ok_mono [OF o(1) mono])
    qed
    ultimately show ?thesis by simp
  qed
  have before_n: "f t < n" if "t < THREAD_NUM" "fenced (X t)" for t using ser that by (auto simp: serialized_def fence_ok_def)
  have "fences_ok X f" using ser by (simp add: serialized_def)
  then have "fences_ok (X(th := x')) (f(th := n))"
    unfolding fences_ok_def using before_n nx'(2) by (auto simp: fun_upd_apply dest: less_not_sym)
  moreover have "history_ok M H (Suc n) (length h)" using H by (auto simp: history_ok_def less_Suc_eq)
  ultimately show ?thesis using ser 1 v unfolding serialized_def P by simp
qed

text \<open>What the locks give: a worker's locked records are nobody else's, and what it validates is locked by nobody else.\<close>

lemma held_apart: "locks_ok S X \<Longrightarrow> t < THREAD_NUM \<Longrightarrow> u < THREAD_NUM \<Longrightarrow> t \<noteq> u \<Longrightarrow> held (X t) \<inter> held (X u) = {}"
  by (simp add: locks_ok_def)

lemma held_Install:
  assumes "locks_ok S X" "t < THREAD_NUM" "pc (X t) = Install i j T"
  shows "ptrs (X t) ! i \<in> held (X t)"
proof -
  have "i < length (ptrs (X t))" using assms by (auto simp: locks_ok_def local_ok_def pc_ok_def)
  then show ?thesis using assms(3) nth_in_drop [of i "ptrs (X t)"] by (simp add: held_def)
qed

lemma held_locked: "locks_ok S X \<Longrightarrow> t < THREAD_NUM \<Longrightarrow> k \<in> held (X t) \<Longrightarrow> k < TUPLE_NUM \<and> lock (tidWord (Table S k))"
  using held_in_table [of "X t" k] unfolding locks_ok_def locked_def by blast

lemma validated_free:
  assumes lk: "locks_ok S X" and th: "th < THREAD_NUM" "fenced (X th)" and re: "re \<in> set (readSet (X th))"
    and v: "\<not> validation_fails (X th) re (tidWord (Table S (recordPtr re)))" and u: "u < THREAD_NUM" "u \<noteq> th"
  shows "recordPtr re \<notin> held (X u)"
proof
  let ?x = "X th" let ?k = "recordPtr re"
  assume h: "?k \<in> held (X u)"
  have l: "local_ok ?x" using lk th by (simp add: locks_ok_def)
  then have "element_ok re" using re by (simp add: local_ok_def sets_ok_def)
  then have k: "?k = op_key re" by (simp add: element_ok_def)
  have "searchWriteSet ?x (op_key re) \<noteq> None" using v held_locked [OF lk u(1) h] by (auto simp: validation_fails_def)
  then obtain w where "w \<in> set (writeSet ?x)" "op_key w = op_key re" by (auto simp: searchWriteSet_def dest!: find_SomeD)
  then have "?k \<in> held ?x" using l k phase_simps(4) [OF th(2)] by (force simp: local_ok_def sets_ok_def element_ok_def ptrs_def)
  then show False using held_apart [OF lk th(1) u(1)] u(2) h by blast
qed

lemma valid_serialized:
  assumes ser: "serialized M S X h b H f n" and ok: "versions_ok S X" and th: "th < THREAD_NUM"
    and x: "pc (X th) = Validate i" "i < length (readSet (X th))"
    and v: "\<not> validation_fails (X th) (readSet (X th) ! i) (tidWord (Table S (recordPtr (readSet (X th) ! i))))"
    and x': "pc x' = Validate (Suc i)" "readSet x' = readSet (X th)" "ptrs x' = ptrs (X th)"
  shows "serialized M S (X(th := x')) h b H f n"
proof -
  let ?re = "readSet (X th) ! i" and ?g = "f th"
  let ?k = "recordPtr ?re"
  have lk: "locks_ok S X" using ok by (simp add: versions_ok_def)
  have re: "?re \<in> set (readSet (X th))" using x(2) by simp
  have fn: "fenced (X th)" "fenced x'" "\<not> pending (X th)" "\<not> pending x'" "held x' = held (X th)"
    using x x' by (simp_all add: fenced_def pending_def held_def)
  have vd: "validated x' = insert ?re (validated (X th))" using x x' by (simp add: validated_def take_Suc_conv_app_nth)
  have P: "pending_key (X(th := x')) = pending_key X" by (rule pending_key_same [OF th]) (use fn in simp)
  have free: "?k \<notin> held (X u)" if "u < THREAD_NUM" "u \<noteq> th" for u by (rule validated_free [OF lk th fn(1) re v that])
  then have nP: "\<not> pending_key X ?k" using fn(3) by (auto simp: pending_key_def)
  have o: "fence_ok M S (pending_key X) H n (b th) ?g (X th)" "history_ok M H n (length h)" using ser th by (simp_all add: serialized_def)
  have kt: "?k < TUPLE_NUM" using lk th re by (auto simp: locks_ok_def local_ok_def sets_ok_def element_ok_def)
  have "val (Table S ?k) = read_value ?re" by (rule validated_current [OF ok th x(1) re v])
  then have now: "replay M (map snd H) ?k = read_value ?re" using ser nP kt by (simp add: serialized_def)
  have "\<not> stamp (read_tid ?re) < rec_stamp S ?k" using v by (auto simp: validation_fails_def rec_stamp_def dest: stamp_cong)
  then have un: "?k \<notin> set (t_writes (snd e))" if "e \<in> set H" "?g < fst e" for e
    using o(1) fn(1) re that nP unfolding fence_ok_def by blast
  have sp: "map snd H = before ?g H @ map snd (filter (\<lambda>d. ?g < fst d) H)"
    using history_split [of H ?g] o fn(1) by (simp add: fence_ok_def history_ok_def before_def flip: map_append)
  have "replay M (map snd H) ?k = replay M (before ?g H) ?k"
    unfolding sp replay_append by (rule replay_untouched) (use un in auto)
  then have "fence_ok M S (pending_key X) H n (b th) ?g x'" using o(1) now fn x'(2) vd unfolding fence_ok_def by simp
  moreover have "fences_ok (X(th := x')) f"
    using ser free fn vd unfolding serialized_def fences_ok_def by (simp add: fun_upd_apply)
  ultimately show ?thesis using ser fn(4) unfolding serialized_def P by (simp add: pending_ok_not)
qed


section \<open>The commit\<close>

lemma replay_put_other:
  assumes "sorted_wrt (<) (map fst H)" "g \<notin> fst ` set H" "k \<notin> set (t_writes T)"
  shows "replay M (map snd (put (g, T) H)) k = replay M (map snd H) k" "replay M (before f (put (g, T) H)) k = replay M (before f H) k"
proof -
  obtain as bs where "map snd (put (g, T) H) = as @ T # bs" "map snd H = as @ bs" by (rule all_put [OF assms(1,2), where t = T])
  then show "replay M (map snd (put (g, T) H)) k = replay M (map snd H) k" using assms(3) by (simp only: replay_insert_other not_False_eq_True)
  show "replay M (before f (put (g, T) H)) k = replay M (before f H) k"
  proof (cases "f \<le> g")
    case False
    then have "g < f" by simp
    then obtain as bs where "before f (put (g, T) H) = as @ T # bs" "before f H = as @ bs" by (rule before_put_greater [OF _ assms(1,2), where t = T])
    then show ?thesis using assms(3) by (simp only: replay_insert_other not_False_eq_True)
  qed (simp add: before_put_le)
qed

lemma replay_put_own:
  assumes "sorted_wrt (<) (map fst H)" "g \<notin> fst ` set H" "k \<in> set (t_writes T)" "\<forall>e \<in> set H. g < fst e \<longrightarrow> k \<notin> set (t_writes (snd e))"
  shows "replay M (map snd (put (g, T) H)) k = t_value T"
proof -
  obtain as bs where "map snd (put (g, T) H) = as @ T # bs" "set bs = snd ` {e \<in> set H. g < fst e}" by (rule all_put [OF assms(1,2), where t = T])
  moreover from this have "\<forall>u \<in> set bs. k \<notin> set (t_writes u)" using assms(4) by auto
  ultimately show ?thesis using assms(3) by (simp only: replay_insert_own)
qed

lemma respects_time_put:
  assumes "sorted_wrt (<) (map fst H)" "g \<notin> fst ` set H" "respects_time (map snd H)"
    "\<forall>e \<in> set H. t_began (snd e) \<le> t_id T" "\<forall>e \<in> set H. g < fst e \<longrightarrow> t_began T \<le> t_id (snd e)"
  shows "respects_time (map snd (put (g, T) H))"
proof -
  obtain as bs where p: "map snd (put (g, T) H) = as @ T # bs" "map snd H = as @ bs"
    and s: "set bs = snd ` {e \<in> set H. g < fst e}" "set as = snd ` {e \<in> set H. fst e < g}" by (rule all_put [OF assms(1,2), where t = T])
  have "\<forall>u \<in> set as. \<not> t_id T < t_began u" "\<forall>u \<in> set bs. \<not> t_id u < t_began T" using assms(4,5) by (auto simp: s not_less)
  then show ?thesis using assms(3) unfolding respects_time_def p by (auto simp: sorted_wrt_append)
qed

lemma history_ok_put:
  assumes H: "history_ok M H n len" and g: "g < n" "g \<notin> fst ` set H"
    and apart: "\<forall>e \<in> set H. g < fst e \<longrightarrow> touches (snd e) \<inter> set (t_writes T) = {}"
    and reads: "\<forall>(k, v) \<in> set (t_reads T). replay M (before g H) k = v"
    and time: "t_id T = len" "t_began T \<le> len" "\<forall>e \<in> set H. t_id (snd e) < t_began T \<longrightarrow> fst e < g"
  shows "history_ok M (put (g, T) H) n (Suc len)"
proof -
  have so: "sorted_wrt (<) (map fst H)" using H by (simp add: history_ok_def)
  have "replay M (before (fst e) (put (g, T) H)) k = v" if e: "e \<in> set (put (g, T) H)" "(k, v) \<in> set (t_reads (snd e))" for e k v
  proof (cases "e = (g, T)")
    case True
    then show ?thesis using reads e(2) by (auto simp: before_put_le)
  next
    case False
    then have m: "e \<in> set H" using e(1) by (simp add: set_put [OF g(2)])
    then have r: "replay M (before (fst e) H) k = v" using H e(2) by (auto simp: history_ok_def)
    show ?thesis
    proof (cases "fst e \<le> g")
      case True
      then show ?thesis using r by (simp add: before_put_le)
    next
      case False
      then have "touches (snd e) \<inter> set (t_writes T) = {}" using apart m by simp
      moreover have "k \<in> touches (snd e)" using e(2) by (force simp: touches_def)
      ultimately have "k \<notin> set (t_writes T)" by blast
      then show ?thesis using r replay_put_other(2) [OF so g(2)] by simp
    qed
  qed
  moreover have "respects_time (map snd (put (g, T) H))"
  proof (rule respects_time_put [OF so g(2)])
    show "\<forall>e \<in> set H. g < fst e \<longrightarrow> t_began T \<le> t_id (snd e)" using time(3) by (meson less_not_sym not_le)
  qed (use H time(1) in \<open>simp_all add: history_ok_def\<close>)
  moreover have "\<forall>e \<in> set (put (g, T) H). fst e < n \<and> t_id (snd e) < Suc len \<and> t_began (snd e) \<le> Suc len"
    using H g(1) time(1,2) unfolding set_put [OF g(2)] by (auto simp: history_ok_def less_Suc_eq le_Suc_eq)
  ultimately show ?thesis using sorted_put [OF so] by (auto simp: history_ok_def)
qed

lemma fence_ok_put:
  assumes y: "fence_ok M S P H n began f y" and so: "sorted_wrt (<) (map fst H)" and g: "g \<notin> fst ` set H" "fenced y \<Longrightarrow> f \<noteq> g"
    and later: "fenced y \<Longrightarrow> g < f \<Longrightarrow> recordPtr ` validated y \<inter> set (t_writes T) = {}"
    and earlier: "fenced y \<Longrightarrow> f < g \<Longrightarrow> touches T \<inter> held y = {}"
    and P: "\<And>k. P k \<or> k \<in> set (t_writes T) \<Longrightarrow> P' k" and time: "began \<le> t_id T"
  shows "fence_ok M S P' (put (g, T) H) n began f y"
proof (cases "fenced y")
  case True
  have "replay M (before f (put (g, T) H)) (recordPtr re) = read_value re" if re: "re \<in> validated y" for re
  proof (cases "f \<le> g")
    case False
    then have "recordPtr re \<notin> set (t_writes T)" using later [OF True] re by auto
    then show ?thesis using y True re replay_put_other(2) [OF so g(1)] by (simp add: fence_ok_def)
  qed (use y True re in \<open>simp add: before_put_le fence_ok_def\<close>)
  then show ?thesis using y True g(2) earlier P time unfolding fence_ok_def set_put [OF g(1)] by (auto 0 3)
qed (simp add: fence_ok_not)

lemma commit_serialized:
  assumes ser: "serialized M S X h b H f n" and lk: "locks_ok S X" and th: "th < THREAD_NUM"
    and x: "pc (X th) = Validate i" "length (readSet (X th)) \<le> i"
    and x': "pc x' = ChooseTid" "ptrs x' = ptrs (X th)" "writeValue x' = writeValue (X th)"
  defines "T \<equiv> txn_of (length h) (b th) (X th)"
  shows "serialized M S (X(th := x')) (h @ [T]) b (put (f th, T) H) f n"
proof -
  let ?g = "f th" and ?H = "put (f th, T) H"
  have fn: "fenced (X th)" "\<not> pending (X th)" "\<not> fenced x'" "pending x'" "held (X th) = set (ptrs (X th))" "held x' = held (X th)"
    using x x' by (simp_all add: fenced_def pending_def held_def)
  have T: "t_id T = length h" "t_began T = b th" "set (t_writes T) = held (X th)" "t_value T = writeValue (X th)"
    "fst ` set (t_reads T) = recordPtr ` validated (X th)" "\<forall>(k, v) \<in> set (t_reads T). \<exists>re \<in> validated (X th). k = recordPtr re \<and> v = read_value re"
    using x by (auto simp: T_def txn_of_def fn(5) ptrs_def validated_def image_image)
  have o: "fence_ok M S (pending_key X) H n (b th) ?g (X th)" "history_ok M H n (length h)" "b th \<le> length h" using ser th by (simp_all add: serialized_def)
  have so: "sorted_wrt (<) (map fst H)" using o(2) by (simp add: history_ok_def)
  have g: "?g < n" "?g \<notin> fst ` set H" "\<forall>e \<in> set H. ?g < fst e \<longrightarrow> touches (snd e) \<inter> set (t_writes T) = {}"
    "\<forall>e \<in> set H. t_id (snd e) < t_began T \<longrightarrow> fst e < ?g" using o(1) fn(1) by (simp_all add: fence_ok_def T)
  have P: "pending_key (X(th := x')) k \<longleftrightarrow> pending_key X k \<or> k \<in> set (t_writes T)" for k
    using fn by (auto simp: pending_key_upd [OF th] pending_key_upd [OF th, of X "X th", simplified] T(3))
  have hist: "history_ok M ?H n (length (h @ [T]))"
    using history_ok_put [OF o(2) g(1,2,3) _ T(1) _ g(4)] o(1,3) fn(1) T(2,6) by (fastforce simp: fence_ok_def)
  have pend: "pending_ok M S ?H ((X(th := x')) t)" if t: "t < THREAD_NUM" for t
  proof (cases "t = th")
    case True
    have "replay M (map snd ?H) k = writeValue (X th)" if "k \<in> held (X th)" for k
      using replay_put_own [OF so g(2), of k T M] that g(3) T(3,4) by (auto simp: touches_def)
    then show ?thesis using True fn x' by (simp add: pending_ok_def)
  next
    case False
    have "k \<notin> set (t_writes T)" if "k \<in> held (X t)" for k using held_apart [OF lk th t] False that T(3) by auto
    then show ?thesis using ser t False replay_put_other(1) [OF so g(2)] by (simp add: serialized_def pending_ok_def)
  qed
  have fence: "fence_ok M S (pending_key (X(th := x'))) ?H n (b t) (f t) ((X(th := x')) t)" if t: "t < THREAD_NUM" for t
  proof (cases "t = th")
    case False
    have y: "fence_ok M S (pending_key X) H n (b t) (f t) (X t)" "b t \<le> length h" and fs: "fences_ok X f" using ser t by (simp_all add: serialized_def)
    have "fence_ok M S (pending_key (X(th := x'))) ?H n (b t) (f t) (X t)"
    proof (rule fence_ok_put [OF y(1) so g(2)])
      assume ft: "fenced (X t)"
      show "f t \<noteq> ?g" using fs t th False ft fn(1) unfolding fences_ok_def by blast
      show "recordPtr ` validated (X t) \<inter> set (t_writes T) = {}" if "?g < f t"
        using fs t th False ft fn(1) that unfolding fences_ok_def T(3) by blast
      show "touches T \<inter> held (X t) = {}" if "f t < ?g"
      proof -
        have "recordPtr ` validated (X th) \<inter> held (X t) = {}" using fs t th False ft fn(1) that unfolding fences_ok_def by blast
        then show ?thesis using held_apart [OF lk th t] False by (auto simp: touches_def T(3,5))
      qed
    qed (use P T(1) y(2) in auto)
    then show ?thesis using False by simp
  qed (simp add: fence_ok_not fn(3))
  have tab: "val (Table S k) = replay M (map snd ?H) k" if "k < TUPLE_NUM" "\<not> pending_key (X(th := x')) k" for k
    using ser that P replay_put_other(1) [OF so g(2)] by (simp add: serialized_def)
  have "mset (map snd ?H) = mset (h @ [T])" using ser mset_put [OF so g(2), of T] by (simp add: serialized_def)
  moreover have "fences_ok (X(th := x')) f" by (rule fences_ok_not) (use ser fn(3) in \<open>simp_all add: serialized_def\<close>)
  moreover have "\<forall>t < THREAD_NUM. b t \<le> length (h @ [T])" using ser by (auto simp: serialized_def le_Suc_eq)
  ultimately show ?thesis using hist pend fence tab unfolding serialized_def by blast
qed

section \<open>The installation\<close>

lemma choose_serialized:
  assumes ser: "serialized M S X h b H f n" and th: "th < THREAD_NUM" and x: "pc (X th) = ChooseTid"
    and x': "held x' = held (X th)" "pending x' \<longleftrightarrow> ptrs (X th) \<noteq> []" "\<not> fenced x'" "writeValue x' = writeValue (X th)"
      "\<And>i j T. pc x' = Install i j T \<Longrightarrow> j = 0"
  shows "serialized M S (X(th := x')) h b H f n"
proof -
  have p: "pending (X th)" "held (X th) = set (ptrs (X th))" using x by (simp_all add: phase_simps)
  have P: "pending_key (X(th := x')) = pending_key X" by (rule pending_key_same [OF th]) (use p x' in auto)
  have "pending_ok M S H (X th)" using ser th by (simp add: serialized_def)
  then have "pending_ok M S H x'" using p(1) x' by (auto simp: pending_ok_def)
  moreover have "fences_ok (X(th := x')) f" by (rule fences_ok_not) (use ser x'(3) in \<open>simp_all add: serialized_def\<close>)
  ultimately show ?thesis using ser x'(3) unfolding serialized_def P by (simp add: fence_ok_not)
qed

lemma byte_serialized:
  assumes ser: "serialized M S X h b H f n" and lk: "locks_ok S X" and th: "th < THREAD_NUM"
    and x: "pc (X th) = Install i j T" "j < VALUE_SIZE"
    and x': "pc x' = Install i (Suc j) T" "ptrs x' = ptrs (X th)" "writeValue x' = writeValue (X th)"
  defines "p \<equiv> ptrs (X th) ! i"
  shows "serialized M (set_byte p j (writeValue (X th) ! j) S) (X(th := x')) h b H f n"
proof -
  let ?S = "set_byte p j (writeValue (X th) ! j) S"
  have h: "p \<in> held (X th)" using held_Install [OF lk th x(1)] by (simp add: p_def)
  have q: "pending (X th)" "pending x'" "\<not> fenced x'" "held x' = held (X th)"
    using x x' by (simp_all add: pending_def fenced_def held_def)
  have P: "pending_key (X(th := x')) = pending_key X" by (rule pending_key_same [OF th]) (use q in simp)
  have len: "length (val (Table S p)) = VALUE_SIZE" "length (writeValue (X th)) = VALUE_SIZE"
    using lk th held_locked [OF lk th h] by (simp_all add: locks_ok_def local_ok_def sets_ok_def)
  have "pending_ok M S H (X th)" using ser th by (simp add: serialized_def)
  then have o: "\<forall>k \<in> held (X th). replay M (map snd H) k = writeValue (X th)" "take j (val (Table S p)) = take j (writeValue (X th))"
    using q(1) x(1) by (simp_all add: pending_ok_def p_def)
  then have own: "pending_ok M ?S H x'" using x(2) x' q len by (simp add: pending_ok_def take_Suc_conv_app_nth flip: p_def)
  have other: "pending_ok M ?S H (X t)" if t: "t < THREAD_NUM" "t \<noteq> th" for t
  proof -
    have "ptrs (X t) ! i' \<noteq> p" if "pc (X t) = Install i' j' T'" for i' j' T'
      using held_Install [OF lk t(1) that] held_apart [OF lk t(1) th t(2)] h by auto
    then show ?thesis using ser t(1) by (auto simp: serialized_def pending_ok_def)
  qed
  have fe: "fence_ok M ?S (pending_key X) H n (b t) (f t) ((X(th := x')) t)" if t: "t < THREAD_NUM" for t
    using ser t q(3) by (simp add: serialized_def fence_ok_def)
  have "pending_key X p" using h q(1) th by (auto simp: pending_key_def)
  then have tab: "\<forall>k < TUPLE_NUM. \<not> pending_key X k \<longrightarrow> val (Table ?S k) = replay M (map snd H) k" using ser by (auto simp: serialized_def)
  have "fences_ok (X(th := x')) f" by (rule fences_ok_not) (use ser q(3) in \<open>simp_all add: serialized_def\<close>)
  then show ?thesis using ser own other fe tab unfolding serialized_def P by simp
qed

lemma stamp_serialized:
  assumes ser: "serialized M S X h b H f n" and ok: "versions_ok S X" and th: "th < THREAD_NUM"
    and x: "pc (X th) = Install i j T" "VALUE_SIZE \<le> j"
    and x': "held x' = held (X th) - {ptrs (X th) ! i}" "pending x' \<or> held x' = {}" "\<not> fenced x'" "writeValue x' = writeValue (X th)"
      "\<And>i j T. pc x' = Install i j T \<Longrightarrow> j = 0"
  defines "p \<equiv> ptrs (X th) ! i"
  shows "serialized M (set_tidWord p T S) (X(th := x')) h b H f n"
proof -
  let ?S = "set_tidWord p T S"
  have lk: "locks_ok S X" using ok by (simp add: versions_ok_def)
  have h: "p \<in> held (X th)" using held_Install [OF lk th x(1)] by (simp add: p_def)
  have q: "pending (X th)" using x by (simp add: pending_def)
  have alone: "p \<notin> held (X t)" if "t < THREAD_NUM" "t \<noteq> th" for t using held_apart [OF lk that(1) th that(2)] h by blast
  have P: "pending_key (X(th := x')) k \<longleftrightarrow> pending_key X k \<and> k \<noteq> p" for k
    using x'(1,2) q alone h by (auto simp: pending_key_upd [OF th] pending_key_upd [OF th, of X "X th", simplified] p_def)
  have st: "rec_stamp S p < stamp T" using ok th x(1) h by (auto simp: versions_ok_def own_stamps_def)
  have mono: "rec_stamp S k \<le> rec_stamp ?S k" for k using st by simp
  have seen: "stamp (read_tid re) \<le> rec_stamp S (recordPtr re)" if "t < THREAD_NUM" "re \<in> set (readSet (X t))" for t re
    using ok that by (auto simp: versions_ok_def own_reads_def promise_def)
  have fe: "fence_ok M ?S (pending_key (X(th := x'))) H n (b t) (f t) ((X(th := x')) t)" if t: "t < THREAD_NUM" for t
  proof (cases "t = th")
    case False
    have o: "fence_ok M S (pending_key X) H n (b t) (f t) (X t)" using ser t by (simp add: serialized_def)
    have "fence_ok M ?S (pending_key (X(th := x'))) H n (b t) (f t) (X t)"
      by (rule fence_ok_mono [OF o mono]) (use P seen [OF t] st in \<open>auto intro: le_less_trans\<close>)
    then show ?thesis using False by simp
  qed (simp add: fence_ok_not x'(3))
  have o: "\<forall>k \<in> held (X th). replay M (map snd H) k = writeValue (X th)" "take j (val (Table S p)) = take j (writeValue (X th))"
    using ser th q x(1) by (auto simp: serialized_def pending_ok_def p_def)
  have pe: "pending_ok M ?S H ((X(th := x')) t)" if t: "t < THREAD_NUM" for t
    using ser t o(1) x' by (auto simp: serialized_def pending_ok_def)
  have len: "length (val (Table S p)) = VALUE_SIZE" "length (writeValue (X th)) = VALUE_SIZE"
    using lk th held_locked [OF lk th h] by (simp_all add: locks_ok_def local_ok_def sets_ok_def)
  then have "val (Table S p) = replay M (map snd H) p" using o h x(2) by simp
  then have tab: "\<forall>k < TUPLE_NUM. \<not> pending_key (X(th := x')) k \<longrightarrow> val (Table ?S k) = replay M (map snd H) k"
    using ser P by (auto simp: serialized_def)
  have "fences_ok (X(th := x')) f" by (rule fences_ok_not) (use ser x'(3) in \<open>simp_all add: serialized_def\<close>)
  then show ?thesis using ser fe pe tab unfolding serialized_def by blast
qed

section \<open>All runs\<close>

lemma worker_serialized:
  assumes ser: "serialized M S X h b H f n" and ok: "versions_ok S X" and th: "th < THREAD_NUM"
    and step: "worker_step zipf th clock S (X th) = (S', x')"
  shows "\<exists>H f n. serialized M S' (X(th := x')) (h @ (if pc x' = ChooseTid then [txn_of (length h) (b th) (X th)] else []))
    (if pc (X th) = CheckQuit then b(th := length h) else b) H f n"
proof -
  have lk: "locks_ok S X" and l: "local_ok (X th)" and o: "own_lock S (X th)" "own_stamps S (X th)"
    using ok th by (simp_all add: versions_ok_def locks_ok_def)
  have mono: "rec_stamp S k \<le> rec_stamp S' k" for k by (rule effect_stamp [OF worker_effect [OF l o(1) step] o(2)])
  from worker_phase [OF l step] show ?thesis
  proof cases
    case quiet
    have "pc (X th) = CheckQuit \<Longrightarrow> \<not> fenced x'" using step by (auto simp: worker_step_def check_quit_def fenced_def split: if_splits)
    moreover have "pc x' \<noteq> ChooseTid" using quiet(3) by (auto simp: pending_def)
    ultimately show ?thesis using quiet_serialized [OF ser th mono quiet] by fastforce
  next
    case fence
    have "pc (X th) \<noteq> CheckQuit" using step fence(4) by (auto simp: worker_step_def check_quit_def split: if_splits)
    then show ?thesis using fence_serialized [OF ser th mono fence] fence(4) by auto
  next
    case (valid i)
    then show ?thesis using valid_serialized [OF ser ok th valid(2-7)] by auto
  next
    case (commit i)
    then show ?thesis using commit_serialized [OF ser lk th commit(2-6)] by auto
  next
    case choose
    have "pc x' \<noteq> ChooseTid" using step choose(2) by (auto simp: worker_step_def choose_tid_def install_next_def Let_def split: if_splits)
    moreover have "serialized M S (X(th := x')) h b H f n"
      by (rule choose_serialized [OF ser th choose(2-5,7)]) (rule choose(8))
    ultimately show ?thesis using choose(1,2) by auto
  next
    case (byte i j T)
    then show ?thesis using byte_serialized [OF ser lk th byte(2-6)] by auto
  next
    case (stamp i j T)
    have "pc x' \<noteq> ChooseTid" using step stamp(2) by (auto simp: worker_step_def install_def install_next_def Let_def split: if_splits)
    then show ?thesis using stamp_serialized [OF ser ok th stamp(2-7)] stamp by auto
  qed
qed

lemma serialized_init:
  assumes "silo_init (S, X)"
  shows "serialized (\<lambda>k. val (Table S k)) S X [] (\<lambda>th. 0) [] (\<lambda>th. 0) 0"
proof -
  have "\<not> fenced (X t)" "\<not> pending (X t)" if "t < THREAD_NUM" for t
    using assms that by (auto simp: silo_init_def fresh_executor_def fenced_def pending_def)
  then show ?thesis
    by (auto simp: serialized_def history_ok_def respects_time_def fences_ok_def fence_ok_not pending_ok_not pending_key_def)
qed

lemma serialized_quit: "serialized M (S\<lparr>quit := q\<rparr>) X h b H f n = serialized M S X h b H f n"
  by (simp add: serialized_def fence_ok_def pending_ok_def rec_stamp_def)

lemma run_serialized:
  assumes "silo_run zipf W0 h b W"
  shows "versions_ok (fst W) (snd W) \<and> (\<exists>H f n. serialized (\<lambda>k. val (Table (fst W0) k)) (fst W) (snd W) h b H f n)"
  using assms
proof (induction rule: silo_run.induct)
  case start
  then show ?case using versions_ok_init serialized_init [of "fst W0" "snd W0"] by fastforce
next
  case (worker h b S X th clock S' x')
  then obtain H f n where ok: "versions_ok S X" and ser: "serialized (\<lambda>k. val (Table (fst W0) k)) S X h b H f n" by auto
  have "versions_ok S' (X(th := x'))" by (rule versions_ok_worker [OF ok]) (use worker.hyps in auto)
  then show ?case using worker_serialized [OF ser ok worker.hyps(3,4)] unfolding fst_conv snd_conv by blast
next
  case (main_quits h b S X)
  then show ?case by (simp add: serialized_quit versions_ok_def quit_cong)
qed

text \<open>An unlocked record has no pending write.\<close>

lemma unlocked_not_pending: "locks_ok S X \<Longrightarrow> \<not> lock (tidWord (Table S k)) \<Longrightarrow> \<not> pending_key X k"
  using held_locked [of S X] by (auto simp: pending_key_def)

lemma run_serializable:
  assumes "silo_run zipf (S0, X0) h b (S, X)"
  shows "\<exists>ts M. mset ts = mset h \<and> respects_time ts \<and> execute ts (\<lambda>k. val (Table S0 k)) = Some M
    \<and> (\<forall>k < TUPLE_NUM. \<not> lock (tidWord (Table S k)) \<longrightarrow> val (Table S k) = M k)"
proof -
  let ?M = "\<lambda>k. val (Table S0 k)"
  obtain H f n where ok: "versions_ok S X" and s: "serialized ?M S X h b H f n" using run_serialized [OF assms] by auto
  have "execute (map snd H) ?M = Some (replay ?M (map snd H))"
  proof (rule execute_replay)
    fix as t bs k v assume a: "map snd H = as @ t # bs" "(k, v) \<in> set (t_reads t)"
    have "sorted_wrt (<) (map fst H)" using s by (simp add: serialized_def history_ok_def)
    from history_at [OF this a(1)] obtain e where "e \<in> set H" "snd e = t" "before (fst e) H = as" by blast
    then show "replay ?M as k = v" using s a(2) by (auto simp: serialized_def history_ok_def)
  qed
  moreover have "val (Table S k) = replay ?M (map snd H) k" if "k < TUPLE_NUM" "\<not> lock (tidWord (Table S k))" for k
    using s that unlocked_not_pending [OF _ that(2)] ok by (simp add: serialized_def versions_ok_def)
  ultimately show ?thesis using s by (intro exI [of _ "map snd H"]) (auto simp: serialized_def history_ok_def)
qed

end
