(* ===== verification/Silo_Serial_Props.thy ===== *)
theory Silo_Serial_Props
  imports Silo_Serial Silo_Example
begin






end
