(* ===== verification/PrimaryTree_Props.thy ===== *)
theory PrimaryTree_Props
  imports PrimaryTree
begin

text \<open>
  The primary tree as a map. Each operation of \<^verbatim>\<open>primary_tree.cpp\<close> equals its counterpart of
  \<^verbatim>\<open>main.c\<close> at order 4 (with automatic temporary arrays), so the refinement proved there carries over:
  the tree is a \<open>map_store\<close>, its constructor leaves the map it means to, and \<open>read\<close> and \<open>write\<close> work on
  every key of the map.
\<close>

section \<open>Equality with the operations of \<open>BPTree\<close>\<close>

definition lift :: "primary_tree \<Rightarrow> ('a \<times> (Key, kv_record) heap) option \<Rightarrow> ('a \<times> primary_tree) option" where
  "lift t r = map_option (\<lambda>(a, h). (a, with_heap t h)) r"

definition lift2 :: "primary_tree \<Rightarrow> ('a \<times> 'b \<times> (Key, kv_record) heap) option \<Rightarrow> ('a \<times> 'b \<times> primary_tree) option" where
  "lift2 t r = map_option (\<lambda>(a, b, h). (a, b, with_heap t h)) r"

lemma lift_simps:
  "lift t None = None" "lift t (Some (a, h)) = Some (a, with_heap t h)" "lift t (Option.bind x f) = Option.bind x (\<lambda>y. lift t (f y))"
  "lift t (if b then y else z) = (if b then lift t y else lift t z)"
  "lift2 t None = None" "lift2 t (Some (a, c, h)) = Some (a, c, with_heap t h)" "lift2 t (Option.bind x g) = Option.bind x (\<lambda>y. lift2 t (g y))"
  by (simp_all add: lift_def lift2_def split: Option.bind_split)

lemma bind_lift: "Option.bind (lift t r) f = Option.bind r (\<lambda>(a, h). f (a, with_heap t h))"
  "Option.bind (lift2 t s) g = Option.bind s (\<lambda>(a, b, h). g (a, b, with_heap t h))"
  by (cases r; auto simp: lift_def) (cases s; auto simp: lift2_def)

lemma lift_prod: "lift t (case p of (x, y) \<Rightarrow> f x y) = (case p of (x, y) \<Rightarrow> lift t (f x y))"
  "lift2 t (case p of (x, y) \<Rightarrow> g x y) = (case p of (x, y) \<Rightarrow> lift2 t (g x y))"
  "lift t (let z = e in f' z) = (let z = e in lift t (f' z))" "lift2 t (let z = e in g' z) = (let z = e in lift2 t (g' z))"
  by (simp_all split: prod.split add: Let_def)

lemma with_heap_simps [simp]:
  "pheap (with_heap t h) = h" "proot (with_heap t h) = proot t" "pqueue (with_heap t h) = pqueue t"
  "with_heap (with_heap t h) h' = with_heap t h'" "with_heap t (pheap t) = t"
  by (simp_all add: with_heap_def)

lemmas lifting = lift_simps bind_lift lift_prod

lemma findLeaf_eq: "findLeaf t key = find_leaf (pheap t) (proot t) key"
  by (simp add: findLeaf_def find_leaf_def)

lemma find_pt_eq: "find_pt t key = find_bpt (pheap t) (proot t) key"
  by (simp add: find_pt_def find_bpt_def findLeaf_eq)

lemma findRange_eq: "findRange t ks ke rk rp = find_range 4 (pheap t) (proot t) ks ke rk rp"
  by (simp add: findRange_def find_range_def findLeaf_eq)

lemma makeNode_eq: "makeNode t = lift t (make_node 4 (pheap t))"
  by (simp add: makeNode_def make_node_def lifting split_def)

lemma makeLeaf_eq: "makeLeaf t = lift t (make_leaf 4 (pheap t))"
  by (simp add: makeLeaf_def make_leaf_def makeNode_eq lifting split_def)

lemma getLeftIndex_eq: "getLeftIndex t p l = get_left_index (pheap t) p l"
  by (simp add: getLeftIndex_def get_left_index_def)

lemma insertIntoLeaf_eq: "insertIntoLeaf t leaf key ptr = lift t (insert_into_leaf (pheap t) leaf key ptr)"
  by (simp add: insertIntoLeaf_def insert_into_leaf_def lifting split_def)

lemma make_leaf_flag: "make_leaf ord h = Some (p, h') \<Longrightarrow> malloc_temps h' = malloc_temps h"
  by (auto simp: make_leaf_def make_node_def malloc_def put_def split: Option.bind_splits if_splits)

lemma make_node_flag: "make_node ord h = Some (p, h') \<Longrightarrow> malloc_temps h' = malloc_temps h"
  by (auto simp: make_node_def malloc_def put_def split: if_splits)

lemma set_parents_flag: "set_parents h ps q i n = Some h' \<Longrightarrow> malloc_temps h' = malloc_temps h"
  by (induction h ps q i n rule: set_parents.induct) (subst (asm) (2) set_parents.simps, auto simp: put_def split: Option.bind_splits if_splits)

lemma bind_cong2: "(\<And>a b. x = Some (a, b) \<Longrightarrow> f (a, b) = g (a, b)) \<Longrightarrow> Option.bind x f = Option.bind x g"
  by (cases x) auto

lemma splitLeaf_eq:
  assumes "\<not> malloc_temps (pheap t)"
  shows "splitLeaf t leaf key ptr = lift2 t (split_leaf 4 (pheap t) leaf key ptr)"
  unfolding splitLeaf_def split_leaf_def makeLeaf_eq lifting
  by (rule bind_cong2) (use assms in \<open>simp add: temp_arrays_def make_leaf_flag lifting split_def Let_def\<close>)

lemma insertIntoNode_eq: "insertIntoNode t p li key right = lift t (insert_into_node (pheap t) (proot t) p li key right)"
  by (simp add: insertIntoNode_def insert_into_node_def lifting split_def)

lemma splitNode_eq:
  assumes "\<not> malloc_temps (pheap t)"
  shows "splitNode t p li key right = lift2 t (split_node 4 (pheap t) p li key right)"
  using assms by (simp add: splitNode_def split_node_def makeNode_eq temp_arrays_def lifting split_def Let_def)

lemma split_node_flag: "split_node ord h p li key right = Some (k, q, h') \<Longrightarrow> malloc_temps h' = malloc_temps h"
  by (auto simp: split_node_def temp_arrays_def malloc_def put_def Let_def split_def
      dest!: set_parents_flag make_node_flag split: Option.bind_splits if_splits)

lemma insertIntoNewRoot_eq: "insertIntoNewRoot t left key right = lift t (insert_into_new_root 4 (pheap t) left key right)"
  by (simp add: insertIntoNewRoot_def insert_into_new_root_def makeNode_eq lifting split_def Let_def)

text \<open>The recursion up the tree, by induction on the calls of either side.\<close>

lemma insertIntoParent_sound:
  assumes "insertIntoParent t left key right = Some y" "\<not> malloc_temps (pheap t)"
  shows "lift t (insert_into_parent 4 (pheap t) (proot t) left key right) = Some y"
proof -
  have "\<not> malloc_temps (pheap t) \<longrightarrow> lift t (insert_into_parent 4 (pheap t) (proot t) left key right) = Some y"
  proof (rule insertIntoParent.raw_induct [OF _ assms(1)])
    fix f t left key right y
    assume IH: "\<And>t l k r y. f t l k r = Some y \<Longrightarrow> \<not> malloc_temps (pheap t) \<longrightarrow> lift t (insert_into_parent 4 (pheap t) (proot t) l k r) = Some y"
    assume body: "do {
       ln \<leftarrow> nodes (pheap t) left;
       if parent ln = NULL then insertIntoNewRoot t left key right
       else do {
         left_index \<leftarrow> getLeftIndex t (parent ln) left;
         pn \<leftarrow> nodes (pheap t) (parent ln);
         if num_keys pn < order - 1 then insertIntoNode t (parent ln) left_index key right
         else do {
           (k_prime, new_node, t) \<leftarrow> splitNode t (parent ln) left_index key right;
           f t (parent ln) k_prime new_node
         }
       }
     } = Some y"
    show "\<not> malloc_temps (pheap t) \<longrightarrow> lift t (insert_into_parent 4 (pheap t) (proot t) left key right) = Some y"
    proof
      assume fl: "\<not> malloc_temps (pheap t)"
      from body obtain ln where ln: "nodes (pheap t) left = Some ln" by (auto split: Option.bind_split_asm)
      show "lift t (insert_into_parent 4 (pheap t) (proot t) left key right) = Some y"
      proof (cases "parent ln = NULL")
        case True
        with body ln show ?thesis by (subst insert_into_parent.simps) (simp add: insertIntoNewRoot_eq)
      next
        case False
        with body ln obtain li pn where li: "get_left_index (pheap t) (parent ln) left = Some li" "nodes (pheap t) (parent ln) = Some pn"
          by (auto simp: getLeftIndex_eq split: Option.bind_split_asm)
        show ?thesis
        proof (cases "num_keys pn < order - 1")
          case True
          with body ln li False show ?thesis by (subst insert_into_parent.simps) (simp add: insertIntoNode_eq getLeftIndex_eq)
        next
          case c: False
          with body ln li False obtain kp nn h' where sp: "split_node 4 (pheap t) (parent ln) li key right = Some (kp, nn, h')"
            "f (with_heap t h') (parent ln) kp nn = Some y"
            by (auto simp: splitNode_eq [OF fl] getLeftIndex_eq lifting split: Option.bind_split_asm)
          from IH [OF sp(2)] split_node_flag [OF sp(1)] fl have "lift (with_heap t h') (insert_into_parent 4 h' (proot t) (parent ln) kp nn) = Some y" by simp
          then have "lift t (insert_into_parent 4 h' (proot t) (parent ln) kp nn) = Some y" by (simp add: lift_def)
          with c ln li False sp(1) show ?thesis by (subst insert_into_parent.simps) simp
        qed
      qed
    qed
  qed
  with assms(2) show ?thesis by blast
qed

lemma insertIntoParent_complete:
  assumes "insert_into_parent ord h root left key right = Some y" "ord = 4" "\<not> malloc_temps h" "h = pheap t" "root = proot t"
  shows "insertIntoParent t left key right = lift t (Some y)"
proof -
  have "ord = 4 \<longrightarrow> \<not> malloc_temps h \<longrightarrow> (\<forall>t. h = pheap t \<longrightarrow> root = proot t \<longrightarrow> insertIntoParent t left key right = lift t (Some y))"
  proof (rule insert_into_parent.raw_induct [OF _ assms(1)])
    fix f ord h root left key right y
    assume IH: "\<And>(ord::nat) h root l k r y. f ord h root l k r = Some y \<Longrightarrow>
      ord = 4 \<longrightarrow> \<not> malloc_temps h \<longrightarrow> (\<forall>t. h = pheap t \<longrightarrow> root = proot t \<longrightarrow> insertIntoParent t l k r = lift t (Some y))"
    assume body: "do {
       ln \<leftarrow> nodes h left;
       if parent ln = NULL then insert_into_new_root ord h left key right
       else do {
         li \<leftarrow> get_left_index h (parent ln) left;
         pn \<leftarrow> nodes h (parent ln);
         if num_keys pn < ord - 1 then insert_into_node h root (parent ln) li key right
         else do {
           (k_prime, new_node, h) \<leftarrow> split_node ord h (parent ln) li key right;
           f ord h root (parent ln) k_prime new_node
         }
       }
     } = Some y"
    show "ord = 4 \<longrightarrow> \<not> malloc_temps h \<longrightarrow> (\<forall>t. h = pheap t \<longrightarrow> root = proot t \<longrightarrow> insertIntoParent t left key right = lift t (Some y))"
    proof (intro impI allI)
      fix t :: primary_tree assume a: "ord = 4" "\<not> malloc_temps h" "h = pheap t" "root = proot t"
      from body obtain ln where ln: "nodes h left = Some ln" by (auto split: Option.bind_split_asm)
      show "insertIntoParent t left key right = lift t (Some y)"
      proof (cases "parent ln = NULL")
        case True
        with body ln a show ?thesis by (subst insertIntoParent.simps) (simp add: insertIntoNewRoot_eq)
      next
        case False
        with body ln obtain li pn where li: "get_left_index h (parent ln) left = Some li" "nodes h (parent ln) = Some pn"
          by (auto split: Option.bind_split_asm)
        show ?thesis
        proof (cases "num_keys pn < ord - 1")
          case True
          with body ln li False a show ?thesis by (subst insertIntoParent.simps) (simp add: insertIntoNode_eq getLeftIndex_eq)
        next
          case c: False
          with body ln li False obtain kp nn h' where sp: "split_node ord h (parent ln) li key right = Some (kp, nn, h')"
            "f ord h' root (parent ln) kp nn = Some y"
            by (auto split: Option.bind_split_asm)
          have "insertIntoParent (with_heap t h') (parent ln) kp nn = lift (with_heap t h') (Some y)"
            using IH [OF sp(2)] a split_node_flag [OF sp(1)] by simp
          then have "insertIntoParent (with_heap t h') (parent ln) kp nn = lift t (Some y)" by (simp add: lift_def)
          with c ln li False a sp(1) splitNode_eq [of t] show ?thesis
            by (subst insertIntoParent.simps) (simp add: getLeftIndex_eq lifting)
        qed
      qed
    qed
  qed
  with assms show ?thesis by blast
qed

lemma insertIntoParent_eq:
  assumes "\<not> malloc_temps (pheap t)"
  shows "insertIntoParent t left key right = lift t (insert_into_parent 4 (pheap t) (proot t) left key right)"
proof (cases "insert_into_parent 4 (pheap t) (proot t) left key right")
  case None
  then show ?thesis using insertIntoParent_sound [OF _ assms, of left key right]
    by (cases "insertIntoParent t left key right") (auto simp: lift_simps)
next
  case (Some y)
  then show ?thesis using insertIntoParent_complete [OF Some refl assms refl refl] by simp
qed

lemma split_leaf_flag: "split_leaf ord h leaf key p = Some (k, q, h') \<Longrightarrow> malloc_temps h' = malloc_temps h"
  by (auto simp: split_leaf_def temp_arrays_def malloc_def put_def Let_def split_def
      dest!: make_leaf_flag split: Option.bind_splits if_splits)

lemma lift_with_heap [simp]: "lift (with_heap t h) r = lift t r"
  by (simp add: lift_def)

lemma insertInfoLeafAfterSplitting_eq:
  assumes "\<not> malloc_temps (pheap t)"
  shows "insertInfoLeafAfterSplitting t leaf key ptr = lift t (insert_into_leaf_after_splitting 4 (pheap t) (proot t) leaf key ptr)"
proof -
  have "insertIntoParent (with_heap t h') leaf k q = lift t (insert_into_parent 4 h' (proot t) leaf k q)"
    if "split_leaf 4 (pheap t) leaf key ptr = Some (k, q, h')" for k q h'
    using insertIntoParent_eq [of "with_heap t h'"] split_leaf_flag [OF that] assms by simp
  then show ?thesis unfolding insertInfoLeafAfterSplitting_def insert_into_leaf_after_splitting_def splitLeaf_eq [OF assms] lifting
    by (cases "split_leaf 4 (pheap t) leaf key ptr") (auto simp: lift_simps)
qed

lemma startNewTree_eq: "startNewTree t key ptr = lift t (start_new_tree 4 (pheap t) key ptr)"
  by (simp add: startNewTree_def start_new_tree_def makeLeaf_eq lifting split_def)

text \<open>The part of \<open>insert\<close> after the record is made.\<close>

definition place_record :: "primary_tree \<Rightarrow> Key \<Rightarrow> addr \<Rightarrow> (addr \<times> primary_tree) option" where
  "place_record t key p =
     (if proot t = NULL then startNewTree t key p
      else do {
        leaf \<leftarrow> findLeaf t key;
        n \<leftarrow> nodes (pheap t) leaf;
        if num_keys n < order - 1
        then do { (_, t) \<leftarrow> insertIntoLeaf t leaf key p; Some (proot t, t) }
        else insertInfoLeafAfterSplitting t leaf key p
      })"

lemma place_record_eq:
  assumes "\<not> malloc_temps (pheap t)"
  shows "place_record t key p = lift t (insert_record 4 (pheap t) (proot t) key p)"
  using insertInfoLeafAfterSplitting_eq [OF assms]
  by (simp add: place_record_def insert_record_def startNewTree_eq findLeaf_eq insertIntoLeaf_eq lifting split_def cong: if_cong)

lemma makeRecord_eq: "makeRecord t v = lift t (make_record (pheap t) (Record v))"
  by (simp add: makeRecord_def make_record_def lifting split_def)

lemma make_record_flag: "make_record h r = Some (p, h') \<Longrightarrow> malloc_temps h' = malloc_temps h"
  by (auto simp: make_record_def malloc_def split: if_splits)

lemma insert_pt_eq:
  assumes "\<not> malloc_temps (pheap t)"
  shows "insert_pt t key v = lift t (insert_with 4 (pheap t) (proot t) key (Record v) (\<lambda>r. r\<lparr>kv_value := v\<rparr>))"
proof -
  have i: "insert_pt t key v = do {
     (record_ptr, _) \<leftarrow> find_pt t key;
     if record_ptr \<noteq> NULL
     then do {
       r \<leftarrow> recs (pheap t) record_ptr;
       Some (proot t, with_heap t ((pheap t)\<lparr>recs := (recs (pheap t))(record_ptr \<mapsto> r\<lparr>kv_value := v\<rparr>)\<rparr>))
     }
     else do { (p, t) \<leftarrow> makeRecord t v; place_record t key p }
   }" unfolding insert_pt_def place_record_def ..
  have "place_record (with_heap t h) key p = lift t (insert_record 4 h (proot t) key p)"
    if "make_record (pheap t) (Record v) = Some (p, h)" for p h
    using place_record_eq [of "with_heap t h"] make_record_flag [OF that] assms by simp
  then have "do { (p, t) \<leftarrow> makeRecord t v; place_record t key p } =
     lift t (do { (p, h) \<leftarrow> make_record (pheap t) (Record v); insert_record 4 h (proot t) key p })"
    by (cases "make_record (pheap t) (Record v)") (auto simp: makeRecord_eq lifting)
  then show ?thesis unfolding i by (simp add: insert_with_def find_pt_eq lifting split_def cong: if_cong)
qed


section \<open>The flag of the temporary arrays stays as it is\<close>

lemma insert_into_parent_flag:
  fixes h :: "('k, 'r) heap"
  assumes "insert_into_parent ord h root left key right = Some y"
  shows "malloc_temps (snd y) = malloc_temps h"
proof (rule insert_into_parent.raw_induct [OF _ assms])
  fix f :: "nat \<Rightarrow> ('k, 'r) heap \<Rightarrow> addr \<Rightarrow> addr \<Rightarrow> 'k \<Rightarrow> addr \<Rightarrow> (addr \<times> ('k, 'r) heap) option"
    and ord h root left key right y
  assume IH: "\<And>ord h root l k r y. f ord h root l k r = Some y \<Longrightarrow> malloc_temps (snd y) = malloc_temps h"
  assume body: "do {
     ln \<leftarrow> nodes h left;
     if parent ln = NULL then insert_into_new_root ord h left key right
     else do {
       li \<leftarrow> get_left_index h (parent ln) left;
       pn \<leftarrow> nodes h (parent ln);
       if num_keys pn < ord - 1 then insert_into_node h root (parent ln) li key right
       else do {
         (k_prime, new_node, h) \<leftarrow> split_node ord h (parent ln) li key right;
         f ord h root (parent ln) k_prime new_node
       }
     }
   } = Some y"
  have nr: "insert_into_new_root ord h left key right = Some y \<Longrightarrow> malloc_temps (snd y) = malloc_temps h"
    by (auto simp: insert_into_new_root_def put_def Let_def split_def dest!: make_node_flag split: Option.bind_splits)
  have nn: "insert_into_node h root p li key right = Some y \<Longrightarrow> malloc_temps (snd y) = malloc_temps h" for p li
    by (auto simp: insert_into_node_def put_def split_def split: Option.bind_splits)
  from body obtain ln where ln: "nodes h left = Some ln" by (auto split: Option.bind_split_asm)
  show "malloc_temps (snd y) = malloc_temps h"
  proof (cases "parent ln = NULL")
    case True
    with body ln nr show ?thesis by simp
  next
    case False
    with body ln obtain li pn where li: "get_left_index h (parent ln) left = Some li" "nodes h (parent ln) = Some pn"
      by (auto split: Option.bind_split_asm)
    show ?thesis
    proof (cases "num_keys pn < ord - 1")
      case True
      with body ln li False nn show ?thesis by simp
    next
      case c: False
      with body ln li False obtain kp q h' where sp: "split_node ord h (parent ln) li key right = Some (kp, q, h')"
        "f ord h' root (parent ln) kp q = Some y" by (auto split: Option.bind_split_asm)
      from IH [OF sp(2)] split_node_flag [OF sp(1)] show ?thesis by simp
    qed
  qed
qed

lemma insert_record_flag: "insert_record ord h root key p = Some y \<Longrightarrow> malloc_temps (snd y) = malloc_temps h"
proof -
  have st: "start_new_tree ord h key p = Some y \<Longrightarrow> malloc_temps (snd y) = malloc_temps h"
    by (auto simp: start_new_tree_def put_def split_def dest!: make_leaf_flag split: Option.bind_splits)
  have il: "insert_into_leaf h leaf key p = Some z \<Longrightarrow> malloc_temps (snd z) = malloc_temps h" for leaf z
    by (auto simp: insert_into_leaf_def put_def split_def split: Option.bind_splits)
  have sp: "insert_into_leaf_after_splitting ord h root leaf key p = Some y \<Longrightarrow> malloc_temps (snd y) = malloc_temps h" for leaf
    by (auto simp: insert_into_leaf_after_splitting_def dest!: insert_into_parent_flag dest: split_leaf_flag split: Option.bind_splits)
  assume "insert_record ord h root key p = Some y"
  then show ?thesis
    by (auto simp: insert_record_def dest!: st sp dest: il split: Option.bind_splits if_splits)
qed

lemma insert_with_flag: "insert_with ord h root key new upd = Some (root', h') \<Longrightarrow> malloc_temps h' = malloc_temps h"
  by (auto simp: insert_with_def dest!: insert_record_flag dest: make_record_flag split: Option.bind_splits if_splits)

section \<open>The tree holds a map\<close>

text \<open>The map of a primary tree has the records as values, and its abstract map their values.\<close>

definition pt_holds :: "primary_tree \<Rightarrow> (Key \<rightharpoonup> kv_record) \<Rightarrow> bool" where
  "pt_holds t m \<longleftrightarrow> is_map 4 (pheap t) (proot t) m \<and> \<not> malloc_temps (pheap t)"

primrec stored :: "kv_record option \<Rightarrow> int \<Rightarrow> kv_record" where
  "stored None v = Record v"
| "stored (Some r) v = r\<lparr>kv_value := v\<rparr>"

lemma insert_root_step:
  assumes "pt_holds t m"
  shows "\<exists>t'. insert_root t key v = Some t' \<and>
    pt_holds t' (m(key \<mapsto> stored (m key) v))"
proof -
  have im: "is_map 4 (pheap t) (proot t) m" and fl: "\<not> malloc_temps (pheap t)" using assms by (auto simp: pt_holds_def)
  obtain root h where s: "insert_with 4 (pheap t) (proot t) key (Record v) (\<lambda>r. r\<lparr>kv_value := v\<rparr>) = Some (root, h)"
    "is_map 4 h root (m(key \<mapsto> stored (m key) v))"
  proof (cases "m key")
    case None
    from insert_with_absent [OF im None, of "Record v"] that None show ?thesis by auto
  next
    case (Some r)
    from insert_with_present [OF im Some, of "Record v" "\<lambda>r. r\<lparr>kv_value := v\<rparr>"] that Some show ?thesis by auto
  qed
  then show ?thesis using insert_pt_eq [OF fl, of key v] insert_with_flag [OF s(1)] fl
    by (simp add: insert_root_def lift_simps pt_holds_def with_heap_def)
qed

lemma find_pt_map:
  assumes "pt_holds t m"
  shows "\<exists>p leaf. find_pt t key = Some (p, leaf) \<and> (p = NULL \<longleftrightarrow> m key = None) \<and> (p \<noteq> NULL \<longrightarrow> recs (pheap t) p = m key)"
  using assms find_bpt_map [of 4 "pheap t" "proot t" m key] by (simp add: find_pt_eq pt_holds_def)

lemma pt_holds_new: "heap_ok h \<Longrightarrow> nodes h = Map.empty \<Longrightarrow> recs h = Map.empty \<Longrightarrow> \<not> malloc_temps h \<Longrightarrow> pt_holds (new_tree h) Map.empty"
  by (simp add: pt_holds_def new_tree_def is_map_def)

text \<open>As a \<open>map_store\<close> of the values.\<close>

definition pt_values :: "primary_tree \<Rightarrow> (Key \<rightharpoonup> int) \<Rightarrow> bool" where
  "pt_values t m \<longleftrightarrow> (\<exists>mr. pt_holds t mr \<and> m = map_option kv_value \<circ> mr)"

definition pt_lookup :: "primary_tree \<Rightarrow> Key \<Rightarrow> int option option" where
  "pt_lookup t key = do {
     a \<leftarrow> findAndPrint t key;
     Some (case a of Found _ _ v \<Rightarrow> Some v | _ \<Rightarrow> None)
   }"

interpretation pt: map_store pt_values pt_lookup insert_root
proof unfold_locales
  fix t m k v assume "pt_values t m"
  then obtain mr where mr: "pt_holds t mr" "m = map_option kv_value \<circ> mr" by (auto simp: pt_values_def)
  show "pt_lookup t k = Some (m k)"
    using find_pt_map [OF mr(1), of k] by (cases "mr k") (auto simp: pt_lookup_def findAndPrint_def mr(2))
  have "(map_option kv_value \<circ> mr)(k \<mapsto> v) = map_option kv_value \<circ> mr(k \<mapsto> stored (mr k) v)"
    by (cases "mr k") (auto simp: fun_eq_iff Record_def)
  then show "\<exists>t'. insert_root t k v = Some t' \<and> pt_values t' (m(k \<mapsto> v))"
    using insert_root_step [OF mr(1), of k v] unfolding pt_values_def mr(2) by metis
qed

text \<open>\<open>write\<close> changes the record of a key that is there.\<close>

lemma write_pt_insert:
  assumes "pt_holds t m" "m key \<noteq> None"
  shows "write_pt t key v = insert_root t key v"
proof -
  obtain p leaf r where p: "find_pt t key = Some (p, leaf)" "p \<noteq> NULL" "recs (pheap t) p = Some r"
    using find_pt_map [OF assms(1), of key] assms(2) by auto
  then show ?thesis by (simp add: write_pt_def insert_root_def insert_pt_def with_heap_def)
qed

lemma distinct_tl_keys: "distinct (map fst (kv # kvs)) \<Longrightarrow> distinct (map fst kvs)"
  by simp

lemma PrimaryTree_holds:
  assumes "pt_holds (new_tree h) Map.empty"
  shows "\<exists>t. PrimaryTree h = Some t \<and>
    pt_holds t (\<lambda>k. if 1 \<le> k \<and> k \<le> 8 then Some (Record (uint k)) else None)"
proof -
  let ?add = "\<lambda>m kv. m(fst kv \<mapsto> Record (snd kv))"
  have all: "\<exists>t'. store_all insert_root kvs t = Some t' \<and> pt_holds t' (foldl ?add m kvs)"
    if "pt_holds t m" "distinct (map fst kvs)" "\<forall>k \<in> set (map fst kvs). m k = None" for t m kvs
    using that
  proof (induction kvs arbitrary: t m)
    case (Cons kv kvs)
    have "stored (m (fst kv)) (snd kv) = Record (snd kv)" using Cons.prems(3) by simp
    then obtain t1 where t1: "insert_root t (fst kv) (snd kv) = Some t1" "pt_holds t1 (?add m kv)"
      using insert_root_step [OF Cons.prems(1), of "fst kv" "snd kv"] by auto
    have "\<forall>k \<in> set (map fst kvs). ?add m kv k = None" using Cons.prems(2,3) by (auto intro: rev_image_eqI)
    then have "\<exists>t'. store_all insert_root kvs t1 = Some t' \<and> pt_holds t' (foldl ?add (?add m kv) kvs)"
      by (rule Cons.IH [OF t1(2) distinct_tl_keys [OF Cons.prems(2)]])
    moreover from t1(1) have "store_all insert_root (kv # kvs) t = store_all insert_root kvs t1" by (cases kv) simp
    ultimately show ?case by (simp only: foldl_Cons)
  qed simp
  have le8: "1 \<le> k \<and> k \<le> 8 \<longleftrightarrow> k \<in> {1, 2, 3, 4, 5, 6, 7, 8}" for k :: Key
    by (simp add: word_le_nat_alt word_unat_eq_iff) arith
  have "foldl ?add Map.empty [(1, 1), (2, 2), (3, 3), (4, 4), (5, 5), (6, 6), (7, 7), (8, 8)] =
    [1 \<mapsto> Record 1, 2 \<mapsto> Record 2, 3 \<mapsto> Record 3, 4 \<mapsto> Record 4, 5 \<mapsto> Record 5, 6 \<mapsto> Record 6, 7 \<mapsto> Record 7, 8 \<mapsto> Record 8]"
    by simp
  also have "\<dots> = (\<lambda>k :: Key. if 1 \<le> k \<and> k \<le> 8 then Some (Record (uint k)) else None)"
    unfolding le8 by (rule ext) (simp split: if_split)
  finally have "foldl ?add Map.empty [(1, 1), (2, 2), (3, 3), (4, 4), (5, 5), (6, 6), (7, 7), (8, 8)] =
    (\<lambda>k :: Key. if 1 \<le> k \<and> k \<le> 8 then Some (Record (uint k)) else None)" .
  with all [OF assms, of "[(1, 1), (2, 2), (3, 3), (4, 4), (5, 5), (6, 6), (7, 7), (8, 8)]"] show ?thesis by (simp add: PrimaryTree_def)
qed

section \<open>Properties\<close>

definition cxx_heap :: "('k, 'r) heap" where
  "cxx_heap = empty_heap\<lparr>malloc_temps := False\<rparr>"

lemma cxx_holds: "pt_holds (new_tree cxx_heap) Map.empty"
  by (rule pt_holds_new) (simp_all add: heap_ok_def cxx_heap_def empty_heap_def)



text \<open>
  The constructor returns on every empty heap, and in the tree it leaves each key from 1 to 8 has a record
  whose value is the key and whose TID word is the initial one, and no other key has a record.
\<close>

theorem constructor_builds_the_identity_map:
  assumes "pt_holds (new_tree h) Map.empty"
  shows "\<exists>t. PrimaryTree h = Some t \<and>
    pt_holds t (\<lambda>k. if 1 \<le> k \<and> k \<le> 8 then Some (Record (uint k)) else None)"
  using assms by (rule PrimaryTree_holds)

theorem constructor_builds_the_identity_map_witness:
  "\<exists>t. PrimaryTree cxx_heap = Some t \<and>
    pt_holds t (\<lambda>k. if 1 \<le> k \<and> k \<le> 8 then Some (Record (uint k)) else None)"
  using constructor_builds_the_identity_map [OF cxx_holds] .

text \<open>
  C32: \<open>write\<close> and \<open>read\<close> on a tree that holds the map \<open>m\<close>: for a key of \<open>m\<close>, \<open>write\<close> changes the value of its record,
  keeps its TID word and every other entry, and \<open>read\<close> then returns a pointer to the changed record; for any other key
  both stop at the assertion.
\<close>

theorem write_then_read:
  assumes "pt_holds t m"
  shows "case m key of
      None \<Rightarrow> write_pt t key v = None \<and> read_pt t key = None
    | Some r \<Rightarrow> (\<exists>t' p. write_pt t key v = Some t' \<and> pt_holds t' (m(key \<mapsto> r\<lparr>kv_value := v\<rparr>)) \<and>
        read_pt t' key = Some p \<and> recs (pheap t') p = Some (r\<lparr>kv_value := v\<rparr>))"
proof (cases "m key")
  case None
  then show ?thesis using find_pt_map [OF assms, of key] by (auto simp: write_pt_def read_pt_def)
next
  case (Some r)
  obtain t' where t': "write_pt t key v = Some t'" "pt_holds t' (m(key \<mapsto> r\<lparr>kv_value := v\<rparr>))"
    using insert_root_step [OF assms, of key v] write_pt_insert [OF assms, of key v] Some by auto
  moreover have "\<exists>p. read_pt t' key = Some p \<and> recs (pheap t') p = Some (r\<lparr>kv_value := v\<rparr>)"
    using find_pt_map [OF t'(2), of key] by (auto simp: read_pt_def)
  ultimately show ?thesis using Some by auto
qed

theorem write_then_read_witness:
  "\<exists>t t' p. PrimaryTree cxx_heap = Some t \<and> write_pt t 3 30 = Some t' \<and> read_pt t' 3 = Some p \<and>
     recs (pheap t') p = Some (Record 30) \<and> read_pt t 9 = None"
proof -
  obtain t where t: "PrimaryTree cxx_heap = Some t" "pt_holds t (\<lambda>k. if 1 \<le> k \<and> k \<le> 8 then Some (Record (uint k)) else None)"
    using PrimaryTree_holds [OF cxx_holds] by blast
  from t(1) write_then_read [OF t(2), of 3 30] write_then_read [OF t(2), of 9 0] show ?thesis
    by (auto simp: Record_def)
qed

text \<open>
  \<open>findRange\<close>, \<open>printLeaves\<close> and \<open>pathToRoot\<close> of the object are the functions of \<open>main.c\<close> at order 4 on its root and
  heap: what is proved of those holds for these.
\<close>

lemma primary_tree_scans:
  "findRange t key_start key_end rk rp = find_range 4 (pheap t) (proot t) key_start key_end rk rp"
  "printLeaves t = print_leaves 4 (pheap t) (proot t)"
  "pathToRoot t child = path_to_root (pheap t) (proot t) child"
  by (simp_all add: findRange_eq printLeaves_def print_leaves_def pathToRoot_def path_to_root_def)

end
