(* ===== verification/KVSilo.thy ===== *)
theory KVSilo
  imports PrimaryTree Runs "HOL-Library.Product_Lexorder"
begin


text \<open>
  The key-value store, \<^verbatim>\<open>src/kvsilo/\<close>: workers take queries from their queues and run them as optimistic
  transactions on the records of the primary tree, a leader advances the epoch, a logger waits.

  As in the Silo program a state is the shared memory with the local state of every thread, one step is at most one
  access to a shared word with the local code around it, and a run interleaves the steps arbitrarily. The nodes of
  the tree do not change after its constructor, so a search in it is one step with the code around it. A query is
  client code: a tree of its calls of \<open>read\<close> and \<open>write\<close>, which may depend on the values read. The queue of a worker is
  \<^verbatim>\<open>moodycamel::ConcurrentQueue\<close>, a library that is not in the repository: it holds the queries put into it, and
  \<open>try_dequeue\<close> takes any one of them or reports none, as its environment chooses.
\<close>

section \<open>Data\<close>

datatype query = Return | ReadQ Key "int \<Rightarrow> query" | WriteQ Key int query

type_synonym Epoch = "32 word"

record SiloEnv =
  E :: Epoch
  workerE :: "Epoch list"
  start_flag :: bool
  stop_flag :: bool

record Result =
  n_aborts :: "64 word"
  n_commits :: "64 word"

definition addAbort :: "Result \<Rightarrow> Result" where "addAbort r = r\<lparr>n_aborts := n_aborts r + 1\<rparr>"
definition addCommit :: "Result \<Rightarrow> Result" where "addCommit r = r\<lparr>n_commits := n_commits r + 1\<rparr>"
definition collect :: "Result \<Rightarrow> Result \<Rightarrow> Result" where
  "collect r other = r\<lparr>n_aborts := n_aborts r + n_aborts other, n_commits := n_commits r + n_commits other\<rparr>"

text \<open>
  Program counters of a worker, by function: \<open>run\<close> from \<open>WaitStart\<close> to \<open>StoreWorkerE\<close>, the query with \<open>read\<close>
  (\<open>ReadTid\<close>, \<open>ReadValue\<close>, \<open>ReadAgain\<close>, with the record and what to do with the value), \<open>lockWSet\<close>, \<open>commit\<close> with the
  epoch it has read, \<open>unlockWSet\<close>, and the installation of element \<open>i\<close>. \<open>Crashed\<close> is a failed assertion or an access
  through a null pointer.
\<close>

datatype wpc =
    WaitStart | CheckStop | TryDequeue | CheckStopInner
  | LoadE query | StoreWorkerE Epoch query
  | Run query
  | ReadTid addr "int \<Rightarrow> query" | ReadValue addr tid_word "int \<Rightarrow> query" | ReadAgain addr tid_word int "int \<Rightarrow> query"
  | LoadLock nat | TryLock nat tid_word
  | LoadEpoch
  | ValidateRead Epoch nat
  | LoadUnlock nat | StoreUnlock nat tid_word
  | InstallValue nat tid_word | InstallTid nat tid_word
  | Finished | Crashed

record Worker =
  RSet :: "(addr \<times> tid_word) list"
  WSet :: "(addr \<times> int) list"
  maxWrite :: tid_word
  maxRead :: tid_word
  recentTid :: tid_word
  result :: Result
  waitingQueries :: "query list"
  wpc :: wpc

text \<open>The memory the workers share.\<close>

record memory =
  tree :: primary_tree
  env :: SiloEnv

definition record_at :: "memory \<Rightarrow> addr \<Rightarrow> kv_record option" where
  "record_at M p = recs (pheap (tree M)) p"

definition store_record :: "memory \<Rightarrow> addr \<Rightarrow> kv_record \<Rightarrow> memory" where
  "store_record M p r = M\<lparr>tree := with_heap (tree M) ((pheap (tree M))\<lparr>recs := (recs (pheap (tree M)))(p \<mapsto> r)\<rparr>)\<rparr>"

text \<open>An access through a pointer: the program ends when it does not point to a record.\<close>

definition deref :: "memory \<Rightarrow> Worker \<Rightarrow> addr \<Rightarrow> (kv_record \<Rightarrow> memory \<times> Worker) \<Rightarrow> memory \<times> Worker" where
  "deref M x p f = (case record_at M p of None \<Rightarrow> (M, x\<lparr>wpc := Crashed\<rparr>) | Some r \<Rightarrow> f r)"

section \<open>\<^verbatim>\<open>Transaction\<close>\<close>

definition Transaction :: "Worker \<Rightarrow> Worker" where
  "Transaction x = x\<lparr>RSet := [], WSet := [], maxWrite := TidWord0, maxRead := TidWord0, recentTid := TidWord0\<rparr>"

text \<open>\<open>read\<close>\<close>

definition read_find :: "memory \<Rightarrow> Worker \<Rightarrow> Key \<Rightarrow> (int \<Rightarrow> query) \<Rightarrow> Worker" where
  "read_find M x k c =
    (case find_pt (tree M) k of None \<Rightarrow> x\<lparr>wpc := Crashed\<rparr> | Some (r, _) \<Rightarrow> x\<lparr>wpc := ReadTid r c\<rparr>)"

definition read_tid_word :: "memory \<Rightarrow> Worker \<Rightarrow> addr \<Rightarrow> (int \<Rightarrow> query) \<Rightarrow> memory \<times> Worker" where
  "read_tid_word M x r c = deref M x r (\<lambda>rec.
     (M, if lock (kv_tid rec) then x\<lparr>wpc := ReadTid r c\<rparr>
         else if \<not> latest (kv_tid rec) then x\<lparr>wpc := Crashed\<rparr>
         else x\<lparr>wpc := ReadValue r (kv_tid rec) c\<rparr>))"

definition read_data :: "memory \<Rightarrow> Worker \<Rightarrow> addr \<Rightarrow> tid_word \<Rightarrow> (int \<Rightarrow> query) \<Rightarrow> memory \<times> Worker" where
  "read_data M x r seen c = deref M x r (\<lambda>rec. (M, x\<lparr>wpc := ReadAgain r seen (kv_value rec) c\<rparr>))"

definition read_again :: "memory \<Rightarrow> Worker \<Rightarrow> addr \<Rightarrow> tid_word \<Rightarrow> int \<Rightarrow> (int \<Rightarrow> query) \<Rightarrow> memory \<times> Worker" where
  "read_again M x r seen data c = deref M x r (\<lambda>rec.
     (M, if seen = kv_tid rec then x\<lparr>RSet := RSet x @ [(r, kv_tid rec)], wpc := Run (c data)\<rparr>
         else x\<lparr>wpc := ReadTid r c\<rparr>))"

text \<open>\<open>write\<close>\<close>

definition write_kv :: "memory \<Rightarrow> Worker \<Rightarrow> Key \<Rightarrow> int \<Rightarrow> query \<Rightarrow> Worker" where
  "write_kv M x k v q =
    (case find_pt (tree M) k of None \<Rightarrow> x\<lparr>wpc := Crashed\<rparr> | Some (r, _) \<Rightarrow> x\<lparr>WSet := WSet x @ [(r, v)], wpc := Run q\<rparr>)"

definition searchWSet :: "Worker \<Rightarrow> addr \<Rightarrow> addr" where
  "searchWSet x p = (case List.find (\<lambda>w. fst w = p) (WSet x) of None \<Rightarrow> NULL | Some w \<Rightarrow> fst w)"

text \<open>\<open>lockWSet\<close>, from element \<open>i\<close> on\<close>

definition lockWSet_from :: "Worker \<Rightarrow> nat \<Rightarrow> Worker" where
  "lockWSet_from x i = x\<lparr>wpc := (if i < length (WSet x) then LoadLock i else LoadEpoch)\<rparr>"

definition lockWSet_load :: "memory \<Rightarrow> Worker \<Rightarrow> nat \<Rightarrow> memory \<times> Worker" where
  "lockWSet_load M x i = deref M x (fst (WSet x ! i)) (\<lambda>rec. (M, x\<lparr>wpc := TryLock i (kv_tid rec)\<rparr>))"

definition lockWSet_try :: "memory \<Rightarrow> Worker \<Rightarrow> nat \<Rightarrow> tid_word \<Rightarrow> memory \<times> Worker" where
  "lockWSet_try M x i expected = deref M x (fst (WSet x ! i)) (\<lambda>rec.
     if lock expected then (M, x\<lparr>wpc := TryLock i (kv_tid rec)\<rparr>)
     else if kv_tid rec = expected
     then (store_record M (fst (WSet x ! i)) (rec\<lparr>kv_tid := set_lock True expected\<rparr>),
           lockWSet_from (x\<lparr>maxWrite := max (maxWrite x) expected\<rparr>) (Suc i))
     else (M, x\<lparr>wpc := TryLock i (kv_tid rec)\<rparr>))"

text \<open>\<open>unlockWSet\<close>, from element \<open>i\<close> on, and the rest of \<open>commit\<close> after a failed validation\<close>

definition unlockWSet_from :: "Worker \<Rightarrow> nat \<Rightarrow> Worker" where
  "unlockWSet_from x i =
    (if i < length (WSet x) then x\<lparr>wpc := LoadUnlock i\<rparr> else x\<lparr>result := addAbort (result x), wpc := CheckStop\<rparr>)"

definition unlockWSet_load :: "memory \<Rightarrow> Worker \<Rightarrow> nat \<Rightarrow> memory \<times> Worker" where
  "unlockWSet_load M x i = deref M x (fst (WSet x ! i)) (\<lambda>rec. (M, x\<lparr>wpc := StoreUnlock i (set_lock False (kv_tid rec))\<rparr>))"

definition unlockWSet_store :: "memory \<Rightarrow> Worker \<Rightarrow> nat \<Rightarrow> tid_word \<Rightarrow> memory \<times> Worker" where
  "unlockWSet_store M x i desired = deref M x (fst (WSet x ! i)) (\<lambda>rec.
     (store_record M (fst (WSet x ! i)) (rec\<lparr>kv_tid := desired\<rparr>), unlockWSet_from x (Suc i)))"

text \<open>\<open>commit\<close>: the sort, the validation, the choice of a TID and the installation\<close>

definition start_commit :: "Worker \<Rightarrow> Worker" where
  "start_commit x = lockWSet_from (x\<lparr>WSet := sort (WSet x)\<rparr>) 0"

definition commit_tid :: "Worker \<Rightarrow> Epoch \<Rightarrow> tid_word" where
  "commit_tid x e =
    (let tidA = tid_incr (max (maxWrite x) (maxRead x));
         tidB = tid_incr (recentTid x);
         tidC = set_epoch e TidWord0;
         maxTid = max (max tidA tidB) tidC
     in set_latest True (set_lock False maxTid))"

definition install_from :: "Worker \<Rightarrow> nat \<Rightarrow> tid_word \<Rightarrow> Worker" where
  "install_from x i T =
    (if i < length (WSet x) then x\<lparr>wpc := InstallValue i T\<rparr>
     else x\<lparr>WSet := [], RSet := [], result := addCommit (result x), wpc := CheckStop\<rparr>)"

definition stale :: "Worker \<Rightarrow> addr \<Rightarrow> tid_word \<Rightarrow> tid_word \<Rightarrow> bool" where
  "stale x p read_tid record_tid \<longleftrightarrow>
    tid read_tid \<noteq> tid record_tid \<or> \<not> latest record_tid \<or> (lock record_tid \<and> searchWSet x p = NULL)"

definition validate_read :: "memory \<Rightarrow> Worker \<Rightarrow> Epoch \<Rightarrow> nat \<Rightarrow> memory \<times> Worker" where
  "validate_read M x e i =
    (if i < length (RSet x) then
       case RSet x ! i of (p, read_tid) \<Rightarrow> deref M x p (\<lambda>rec.
         (M, if stale x p read_tid (kv_tid rec) then unlockWSet_from x 0
             else x\<lparr>maxRead := max (maxRead x) (kv_tid rec), wpc := ValidateRead e (Suc i)\<rparr>))
     else (M, let T = commit_tid x e in install_from (x\<lparr>recentTid := T\<rparr>) 0 T))"

definition install_value :: "memory \<Rightarrow> Worker \<Rightarrow> nat \<Rightarrow> tid_word \<Rightarrow> memory \<times> Worker" where
  "install_value M x i T = deref M x (fst (WSet x ! i)) (\<lambda>rec.
     (store_record M (fst (WSet x ! i)) (rec\<lparr>kv_value := snd (WSet x ! i)\<rparr>), x\<lparr>wpc := InstallTid i T\<rparr>))"

definition install_tid :: "memory \<Rightarrow> Worker \<Rightarrow> nat \<Rightarrow> tid_word \<Rightarrow> memory \<times> Worker" where
  "install_tid M x i T = deref M x (fst (WSet x ! i)) (\<lambda>rec.
     (store_record M (fst (WSet x ! i)) (rec\<lparr>kv_tid := T\<rparr>), install_from x (Suc i) T))"

section \<open>\<^verbatim>\<open>Worker\<close>\<close>

definition run_query :: "memory \<Rightarrow> Worker \<Rightarrow> query \<Rightarrow> Worker" where
  "run_query M x q =
    (case q of Return \<Rightarrow> start_commit x | ReadQ k c \<Rightarrow> read_find M x k c | WriteQ k v q' \<Rightarrow> write_kv M x k v q')"

text \<open>\<open>try_dequeue\<close> with the choice of the queue: the query it gives, or none.\<close>

definition try_dequeue :: "Worker \<Rightarrow> nat option \<Rightarrow> Worker" where
  "try_dequeue x choice =
    (case choice of
      Some j \<Rightarrow> if j < length (waitingQueries x)
        then x\<lparr>waitingQueries := take j (waitingQueries x) @ drop (Suc j) (waitingQueries x), wpc := LoadE (waitingQueries x ! j)\<rparr>
        else x\<lparr>wpc := CheckStopInner\<rparr>
    | None \<Rightarrow> x\<lparr>wpc := CheckStopInner\<rparr>)"

definition addQueryToQueue :: "Worker \<Rightarrow> query \<Rightarrow> Worker" where
  "addQueryToQueue x q = x\<lparr>waitingQueries := waitingQueries x @ [q]\<rparr>"

definition run_step :: "nat \<Rightarrow> nat option \<Rightarrow> memory \<Rightarrow> Worker \<Rightarrow> memory \<times> Worker" where
  "run_step workerId choice M x =
    (case wpc x of
      WaitStart \<Rightarrow> (M, if start_flag (env M) then x\<lparr>wpc := CheckStop\<rparr> else x)
    | CheckStop \<Rightarrow> (M, if stop_flag (env M) then x\<lparr>wpc := Finished\<rparr> else x\<lparr>wpc := TryDequeue\<rparr>)
    | TryDequeue \<Rightarrow> (M, try_dequeue x choice)
    | CheckStopInner \<Rightarrow> (M, if stop_flag (env M) then x\<lparr>wpc := Finished\<rparr> else x\<lparr>wpc := TryDequeue\<rparr>)
    | LoadE q \<Rightarrow> (M, x\<lparr>wpc := StoreWorkerE (E (env M)) q\<rparr>)
    | StoreWorkerE e q \<Rightarrow> (M\<lparr>env := (env M)\<lparr>workerE := (workerE (env M))[workerId := e]\<rparr>\<rparr>, (Transaction x)\<lparr>wpc := Run q\<rparr>)
    | Run q \<Rightarrow> (M, run_query M x q)
    | ReadTid r c \<Rightarrow> read_tid_word M x r c
    | ReadValue r seen c \<Rightarrow> read_data M x r seen c
    | ReadAgain r seen data c \<Rightarrow> read_again M x r seen data c
    | LoadLock i \<Rightarrow> lockWSet_load M x i
    | TryLock i e \<Rightarrow> lockWSet_try M x i e
    | LoadEpoch \<Rightarrow> (M, x\<lparr>wpc := ValidateRead (E (env M)) 0\<rparr>)
    | ValidateRead e i \<Rightarrow> validate_read M x e i
    | LoadUnlock i \<Rightarrow> unlockWSet_load M x i
    | StoreUnlock i d \<Rightarrow> unlockWSet_store M x i d
    | InstallValue i T \<Rightarrow> install_value M x i T
    | InstallTid i T \<Rightarrow> install_tid M x i T
    | Finished \<Rightarrow> (M, x)
    | Crashed \<Rightarrow> (M, x))"

section \<open>\<^verbatim>\<open>Logger\<close>\<close>

datatype logger_pc = LogWaitStart | LogWaitStop | LogFinished

definition logger_step :: "memory \<Rightarrow> logger_pc \<Rightarrow> logger_pc" where
  "logger_step M l =
    (case l of
      LogWaitStart \<Rightarrow> if start_flag (env M) then LogWaitStop else LogWaitStart
    | LogWaitStop \<Rightarrow> if stop_flag (env M) then LogFinished else LogWaitStop
    | LogFinished \<Rightarrow> LogFinished)"

section \<open>\<^verbatim>\<open>Database\<close>\<close>

text \<open>
  \<open>leaderWork\<close>, with the time of the last change of the epoch and the time read last, in milliseconds. The
  \<open>continue\<close> in the inner loop continues that loop.
\<close>

datatype leader_pc = LeadStop | LeadTime | LeadLoad int | LeadScan int Epoch nat | LeadAdd int | LeadFinished

record leader =
  start_time :: int
  lpc :: leader_pc

definition leader_step :: "int \<Rightarrow> memory \<Rightarrow> leader \<Rightarrow> memory \<times> leader" where
  "leader_step now M l =
    (case lpc l of
      LeadStop \<Rightarrow> (M, l\<lparr>lpc := (if stop_flag (env M) then LeadFinished else LeadTime)\<rparr>)
    | LeadTime \<Rightarrow> (M, l\<lparr>lpc := (if now - start_time l < 40 then LeadStop else LeadLoad now)\<rparr>)
    | LeadLoad check \<Rightarrow> (M, l\<lparr>lpc := LeadScan check (E (env M)) 0\<rparr>)
    | LeadScan check e i \<Rightarrow>
        (M, if i < length (workerE (env M))
            then if workerE (env M) ! i \<noteq> e then l\<lparr>lpc := LeadScan check e (Suc i)\<rparr> else l\<lparr>lpc := LeadScan check e (Suc i)\<rparr>
            else l\<lparr>lpc := LeadAdd check\<rparr>)
    | LeadAdd check \<Rightarrow> (M\<lparr>env := (env M)\<lparr>E := E (env M) + 1\<rparr>\<rparr>, l\<lparr>start_time := check, lpc := LeadStop\<rparr>)
    | LeadFinished \<Rightarrow> (M, l))"

record database =
  mem :: memory
  workers :: "Worker list"
  the_logger :: logger_pc
  the_leader :: leader

text \<open>\<open>executeTransaction\<close>, with the number that the random generator gives; \<open>None\<close> is the division by zero.\<close>

definition executeTransaction :: "32 word \<Rightarrow> query \<Rightarrow> database \<Rightarrow> database option" where
  "executeTransaction random q D =
    (if workers D = [] then None
     else let i = unat random mod length (workers D) in
       Some (D\<lparr>workers := (workers D)[i := addQueryToQueue (workers D ! i) q]\<rparr>))"

text \<open>\<open>terminate\<close>: the flag, and the counts collected when all threads have ended.\<close>

definition set_stop :: "database \<Rightarrow> database" where
  "set_stop D = D\<lparr>mem := (mem D)\<lparr>env := (env (mem D))\<lparr>stop_flag := True\<rparr>\<rparr>\<rparr>"

definition all_joined :: "database \<Rightarrow> bool" where
  "all_joined D \<longleftrightarrow> lpc (the_leader D) = LeadFinished \<and> (\<forall>x \<in> set (workers D). wpc x = Finished) \<and> the_logger D = LogFinished"

definition total_result :: "database \<Rightarrow> Result" where
  "total_result D = foldl collect \<lparr>n_aborts = 0, n_commits = 0\<rparr> (map result (workers D))"

text \<open>
  The constructor, for \<open>n\<close> hardware threads: \<open>SiloEnv\<close> leaves its epoch \<open>e\<close> as the memory has it, the tree is built,
  and the threads wait. The state is the one in which \<open>start\<close> has been set.
\<close>

definition new_worker :: Worker where
  "new_worker = \<lparr>RSet = [], WSet = [], maxWrite = TidWord0, maxRead = TidWord0, recentTid = TidWord0,
     result = \<lparr>n_aborts = 0, n_commits = 0\<rparr>, waitingQueries = [], wpc = WaitStart\<rparr>"

definition Database :: "(Key, kv_record) heap \<Rightarrow> Epoch \<Rightarrow> nat \<Rightarrow> int \<Rightarrow> database option" where
  "Database h e n now = map_option (\<lambda>t.
     \<lparr>mem = \<lparr>tree = t, env = \<lparr>E = e, workerE = replicate n 0, start_flag = True, stop_flag = False\<rparr>\<rparr>,
      workers = replicate n new_worker, the_logger = LogWaitStart, the_leader = \<lparr>start_time = now, lpc = LeadStop\<rparr>\<rparr>) (PrimaryTree h)"

section \<open>Runs\<close>

datatype event = Work nat "nat option" | Lead int | Log | Submit "32 word" query | Stop

definition exec_event :: "event \<Rightarrow> database \<Rightarrow> database" where
  "exec_event ev D =
    (case ev of
      Work th choice \<Rightarrow> if th < length (workers D)
        then case run_step th choice (mem D) (workers D ! th) of
          (M, x) \<Rightarrow> D\<lparr>mem := M, workers := (workers D)[th := x]\<rparr>
        else D
    | Lead now \<Rightarrow> (case leader_step now (mem D) (the_leader D) of (M, l) \<Rightarrow> D\<lparr>mem := M, the_leader := l\<rparr>)
    | Log \<Rightarrow> D\<lparr>the_logger := logger_step (mem D) (the_logger D)\<rparr>
    | Submit r q \<Rightarrow> (case executeTransaction r q D of None \<Rightarrow> D | Some D' \<Rightarrow> D')
    | Stop \<Rightarrow> set_stop D)"

definition exec_events :: "event list \<Rightarrow> database \<Rightarrow> database" where
  "exec_events evs D = fold exec_event evs D"

inductive kv_step :: "database \<Rightarrow> database \<Rightarrow> bool" where
  "kv_step D (exec_event ev D)"

inductive_cases kv_stepE: "kv_step D D'"

definition kv_init :: "database \<Rightarrow> bool" where
  "kv_init D \<longleftrightarrow> (\<exists>h e n now. is_map 4 h NULL Map.empty \<and> \<not> malloc_temps h \<and> Database h e n now = Some D)"

end
