(* ===== verification/KVSilo_Locks.thy ===== *)
theory KVSilo_Locks
  imports KVSilo PrimaryTree_Props
begin


text \<open>
  The locks of the key-value store. A worker's program counter says which records it has locked; in every
  reachable state these are exactly the records whose lock bit is set, no record is locked by two workers, and a
  value or a TID changes only under the lock of its record.
\<close>

section \<open>The local state of a worker\<close>

definition wptrs :: "Worker \<Rightarrow> addr list" where
  "wptrs x = map fst (WSet x)"

definition kv_held :: "Worker \<Rightarrow> addr set" where
  "kv_held x = (case wpc x of
      LoadLock i \<Rightarrow> set (take i (wptrs x)) | TryLock i e \<Rightarrow> set (take i (wptrs x))
    | LoadEpoch \<Rightarrow> set (wptrs x) | ValidateRead e i \<Rightarrow> set (wptrs x)
    | LoadUnlock i \<Rightarrow> set (drop i (wptrs x)) | StoreUnlock i d \<Rightarrow> set (drop i (wptrs x))
    | InstallValue i T \<Rightarrow> set (drop i (wptrs x)) | InstallTid i T \<Rightarrow> set (drop i (wptrs x))
    | _ \<Rightarrow> {})"

definition worker_ok :: "Worker \<Rightarrow> bool" where
  "worker_ok x \<longleftrightarrow> (case wpc x of
      LoadLock i \<Rightarrow> i < length (WSet x) \<and> distinct (take i (wptrs x)) \<and> sorted (wptrs x)
    | TryLock i e \<Rightarrow> i < length (WSet x) \<and> distinct (take i (wptrs x)) \<and> sorted (wptrs x)
    | LoadEpoch \<Rightarrow> distinct (wptrs x)
    | ValidateRead e i \<Rightarrow> distinct (wptrs x) \<and> i \<le> length (RSet x)
    | LoadUnlock i \<Rightarrow> i < length (WSet x) \<and> distinct (wptrs x)
    | StoreUnlock i d \<Rightarrow> i < length (WSet x) \<and> distinct (wptrs x)
    | InstallValue i T \<Rightarrow> i < length (WSet x) \<and> distinct (wptrs x) \<and> \<not> lock T \<and> latest T
    | InstallTid i T \<Rightarrow> i < length (WSet x) \<and> distinct (wptrs x) \<and> \<not> lock T \<and> latest T
    | _ \<Rightarrow> True)"

definition kv_locked :: "memory \<Rightarrow> addr \<Rightarrow> bool" where
  "kv_locked M p \<longleftrightarrow> (\<exists>r. record_at M p = Some r \<and> lock (kv_tid r))"

text \<open>The word about to be stored by \<open>unlockWSet\<close> is that of the record, unlocked.\<close>

definition own_word :: "memory \<Rightarrow> Worker \<Rightarrow> bool" where
  "own_word M x \<longleftrightarrow> (case wpc x of StoreUnlock i d \<Rightarrow> map_option (set_lock False \<circ> kv_tid) (record_at M (wptrs x ! i)) = Some d | _ \<Rightarrow> True)"

lemma record_at_store [simp]: "record_at (store_record M p r) q = (if q = p then Some r else record_at M q)"
  by (simp add: record_at_def store_record_def with_heap_def)

lemma env_store [simp]: "env (store_record M p r) = env M"
  by (simp add: store_record_def)

lemma record_at_env [simp]: "record_at (M\<lparr>env := ev\<rparr>) p = record_at M p"
  by (simp add: record_at_def)

text \<open>Its pointers: what it has found in the tree, read and locked.\<close>

definition ptr_ok :: "memory \<Rightarrow> Worker \<Rightarrow> bool" where
  "ptr_ok M x \<longleftrightarrow> (\<forall>p \<in> set (wptrs x). p = NULL \<or> record_at M p \<noteq> None) \<and>
    (\<forall>e \<in> set (RSet x). record_at M (fst e) \<noteq> None) \<and> (\<forall>p \<in> kv_held x. record_at M p \<noteq> None)"

definition index_ok :: "memory \<Rightarrow> bool" where
  "index_ok M \<longleftrightarrow> record_at M NULL = None \<and>
    (\<forall>k. \<exists>p leaf. find_pt (tree M) k = Some (p, leaf) \<and> (p = NULL \<or> record_at M p \<noteq> None))"

section \<open>The effect of a step on the records\<close>

inductive record_effect :: "memory \<Rightarrow> Worker \<Rightarrow> memory \<Rightarrow> Worker \<Rightarrow> bool" where
  keep: "tree M' = tree M \<Longrightarrow> kv_held x' = kv_held x \<Longrightarrow> record_effect M x M' x'"
| acquire: "record_at M p = Some r \<Longrightarrow> \<not> lock (kv_tid r) \<Longrightarrow> M' = store_record M p (r\<lparr>kv_tid := set_lock True (kv_tid r)\<rparr>) \<Longrightarrow>
    kv_held x' = insert p (kv_held x) \<Longrightarrow> record_effect M x M' x'"
| release: "p \<in> kv_held x \<Longrightarrow> record_at M p = Some r \<Longrightarrow> M' = store_record M p (r\<lparr>kv_tid := set_lock False (kv_tid r)\<rparr>) \<Longrightarrow>
    kv_held x' = kv_held x - {p} \<Longrightarrow> record_effect M x M' x'"
| overwrite: "p \<in> kv_held x \<Longrightarrow> record_at M p = Some r \<Longrightarrow> M' = store_record M p (r\<lparr>kv_value := v\<rparr>) \<Longrightarrow>
    kv_held x' = kv_held x \<Longrightarrow> record_effect M x M' x'"
| install: "p \<in> kv_held x \<Longrightarrow> record_at M p = Some r \<Longrightarrow> M' = store_record M p (r\<lparr>kv_tid := T\<rparr>) \<Longrightarrow> \<not> lock T \<Longrightarrow> latest T \<Longrightarrow>
    kv_held x' = kv_held x - {p} \<Longrightarrow> record_effect M x M' x'"

inductive_cases record_effectE: "record_effect M x M' x'"

lemma length_wptrs [simp]: "length (wptrs x) = length (WSet x)"
  by (simp add: wptrs_def)

lemma wptrs_nth: "i < length (WSet x) \<Longrightarrow> fst (WSet x ! i) = wptrs x ! i"
  by (simp add: wptrs_def)

text \<open>A step that stores nothing, up to the new program counter.\<close>

lemma deref_cases:
  obtains "record_at M p = None" "deref M x p f = (M, x\<lparr>wpc := Crashed\<rparr>)"
  | r where "record_at M p = Some r" "deref M x p f = f r"
  by (cases "record_at M p") (auto simp: deref_def)


lemma held_from:
  "kv_held (lockWSet_from x i) = (if i < length (WSet x) then set (take i (wptrs x)) else set (wptrs x))"
  "kv_held (unlockWSet_from x i) = set (drop i (wptrs x))" "kv_held (install_from x i T) = set (drop i (wptrs x))"
  by (auto simp: lockWSet_from_def unlockWSet_from_def install_from_def kv_held_def wptrs_def)

lemma held_lock_succ: "i < length (WSet x) \<Longrightarrow> kv_held (lockWSet_from x (Suc i)) = insert (wptrs x ! i) (set (take i (wptrs x)))"
  by (cases "Suc i < length (WSet x)") (auto simp: held_from set_take_Suc [symmetric])

lemma held_start_commit [simp]: "kv_held (start_commit x) = {}"
  by (auto simp: start_commit_def lockWSet_from_def kv_held_def wptrs_def)

lemma held_run_query [simp]: "kv_held (run_query M x q) = {}"
  by (cases q) (simp_all add: run_query_def, simp_all add: read_find_def write_kv_def kv_held_def split: option.split)

lemma held_maxRead [simp]: "wptrs (x\<lparr>maxRead := w\<rparr>) = wptrs x" "wptrs (x\<lparr>recentTid := w\<rparr>) = wptrs x" "wptrs (x\<lparr>maxWrite := w\<rparr>) = wptrs x"
  "wptrs (x\<lparr>wpc := pc\<rparr>) = wptrs x" "wptrs (x\<lparr>result := res\<rparr>) = wptrs x" "wptrs (x\<lparr>waitingQueries := qs\<rparr>) = wptrs x"
  by (simp_all add: wptrs_def)

lemma validate_held: "wpc x = ValidateRead e i \<Longrightarrow> kv_held x = set (wptrs x)"
  by (simp add: kv_held_def)

text \<open>Only the first record to be locked can be the null pointer.\<close>

lemma null_first:
  assumes "ptr_ok M x" "index_ok M" "i < length (WSet x)" "sorted (wptrs x)" "set (take i (wptrs x)) \<subseteq> kv_held x"
    and None: "record_at M (wptrs x ! i) = None"
  shows "i = 0"
proof (rule ccontr)
  assume "i \<noteq> 0"
  have "wptrs x ! i = NULL" using None assms(1,3) by (metis length_wptrs nth_mem ptr_ok_def)
  moreover have "wptrs x ! 0 \<le> wptrs x ! i" using assms(3,4) by (intro sorted_nth_mono) auto
  ultimately have "NULL \<in> set (take i (wptrs x))" using \<open>i \<noteq> 0\<close> assms(3)
    by (auto simp: in_set_conv_nth intro!: exI [of _ 0])
  then have "NULL \<in> kv_held x" using assms(5) by blast
  then show False using assms(1,2) by (auto simp: ptr_ok_def index_ok_def)
qed

lemma run_effect:
  assumes "worker_ok x" "ptr_ok M x" "own_word M x" "index_ok M" "run_step th ch M x = (M', x')"
  shows "record_effect M x M' x'"
proof -
  have quiet: "record_effect M x M' x'" if "kv_held x = {}" "tree M' = tree M" "kv_held x' = {}"
    using that by (simp add: record_effect.keep)
  have crash: "kv_held (x\<lparr>wpc := Crashed\<rparr>) = {}" by (simp add: kv_held_def)
  show ?thesis
  proof (cases "wpc x")
    case (Run q)
    then show ?thesis using assms(5) by (intro quiet) (auto simp: run_step_def kv_held_def [of x])
  next
    case (ReadTid r c)
    then show ?thesis using assms(5)
      by (intro quiet) (auto simp: run_step_def read_tid_word_def deref_def kv_held_def split: option.splits if_splits)
  next
    case (ReadValue r t c)
    then show ?thesis using assms(5)
      by (intro quiet) (auto simp: run_step_def read_data_def deref_def kv_held_def split: option.splits)
  next
    case (ReadAgain r t v c)
    then show ?thesis using assms(5)
      by (intro quiet) (auto simp: run_step_def read_again_def deref_def kv_held_def split: option.splits if_splits)
  next
    case (LoadLock i)
    show ?thesis
    proof (cases "record_at M (wptrs x ! i)")
      case None
      have i: "i < length (WSet x)" "sorted (wptrs x)" using assms(1) LoadLock by (simp_all add: worker_ok_def)
      have "i = 0" by (rule null_first [OF assms(2,4) i _ None]) (simp add: kv_held_def LoadLock)
      then show ?thesis using assms(5) LoadLock None i
        by (intro quiet) (auto simp: run_step_def lockWSet_load_def deref_def kv_held_def wptrs_nth)
    next
      case (Some r)
      have i: "i < length (WSet x)" using assms(1) LoadLock by (simp add: worker_ok_def)
      show ?thesis using assms(5) LoadLock Some i
        by (intro record_effect.keep) (auto simp: run_step_def lockWSet_load_def deref_def kv_held_def wptrs_nth)
    qed
  next
    case (TryLock i e)
    have i: "i < length (WSet x)" using assms(1) TryLock by (simp add: worker_ok_def)
    show ?thesis
    proof (cases "record_at M (wptrs x ! i)")
      case None
      have "sorted (wptrs x)" using assms(1) TryLock by (simp add: worker_ok_def)
      then have "i = 0" by (rule null_first [OF assms(2,4) i _ _ None]) (simp add: kv_held_def TryLock)
      then show ?thesis using assms(5) TryLock None i
        by (intro quiet) (auto simp: run_step_def lockWSet_try_def deref_def kv_held_def wptrs_nth)
    next
      case (Some r)
      show ?thesis
      proof (cases "\<not> lock e \<and> kv_tid r = e")
        case True
        then have "M' = store_record M (wptrs x ! i) (r\<lparr>kv_tid := set_lock True (kv_tid r)\<rparr>)"
          "x' = lockWSet_from (x\<lparr>maxWrite := max (maxWrite x) e\<rparr>) (Suc i)"
          using assms(5) TryLock Some i by (auto simp: run_step_def lockWSet_try_def deref_def wptrs_nth)
        moreover have "kv_held x' = insert (wptrs x ! i) (kv_held x)"
          using held_lock_succ [of i "x\<lparr>maxWrite := max (maxWrite x) e\<rparr>"] i TryLock calculation(2) by (simp add: kv_held_def)
        ultimately show ?thesis using True Some by (intro record_effect.acquire) auto
      next
        case False
        then show ?thesis using assms(5) TryLock Some i
          by (intro record_effect.keep) (auto simp: run_step_def lockWSet_try_def deref_def kv_held_def wptrs_nth split: if_splits)
      qed
    qed
  next
    case (ValidateRead e i)
    show ?thesis
    proof (cases "i < length (RSet x)")
      case True
      obtain p t where pt: "RSet x ! i = (p, t)" by fastforce
      then have "(p, t) \<in> set (RSet x)" using True by (metis nth_mem)
      then obtain r where r: "record_at M p = Some r" using assms(2) by (fastforce simp: ptr_ok_def)
      show ?thesis using assms(5) ValidateRead True pt r
        by (intro record_effect.keep) (auto simp: run_step_def validate_read_def deref_def held_from validate_held split: if_splits)
    next
      case False
      then show ?thesis using assms(5) ValidateRead
        by (intro record_effect.keep) (auto simp: run_step_def validate_read_def held_from validate_held [of x] Let_def)
    qed
  next
    case (LoadUnlock i)
    then have i: "i < length (WSet x)" using assms(1) by (simp add: worker_ok_def)
    then have "wptrs x ! i \<in> kv_held x" using LoadUnlock by (simp add: kv_held_def nth_in_drop)
    then obtain r where "record_at M (wptrs x ! i) = Some r" using assms(2) by (auto simp: ptr_ok_def)
    then show ?thesis using assms(5) LoadUnlock i
      by (intro record_effect.keep) (auto simp: run_step_def unlockWSet_load_def deref_def kv_held_def wptrs_nth)
  next
    case (StoreUnlock i d)
    then have i: "i < length (WSet x)" "distinct (wptrs x)" using assms(1) by (simp_all add: worker_ok_def)
    then have h: "wptrs x ! i \<in> kv_held x" using StoreUnlock by (simp add: kv_held_def nth_in_drop)
    then obtain r where r: "record_at M (wptrs x ! i) = Some r" using assms(2) by (auto simp: ptr_ok_def)
    then have "d = set_lock False (kv_tid r)" using assms(3) StoreUnlock by (simp add: own_word_def)
    then show ?thesis using assms(5) StoreUnlock i r
      by (intro record_effect.release [OF h r])
        (auto simp: run_step_def unlockWSet_store_def deref_def held_from wptrs_nth kv_held_def [of x] set_drop_Suc)
  next
    case (InstallValue i T)
    then have i: "i < length (WSet x)" using assms(1) by (simp add: worker_ok_def)
    then have h: "wptrs x ! i \<in> kv_held x" using InstallValue by (simp add: kv_held_def nth_in_drop)
    then obtain r where r: "record_at M (wptrs x ! i) = Some r" using assms(2) by (auto simp: ptr_ok_def)
    then show ?thesis using assms(5) InstallValue i
      by (intro record_effect.overwrite [OF h r, of _ "snd (WSet x ! i)"])
        (auto simp: run_step_def install_value_def deref_def wptrs_nth kv_held_def)
  next
    case (InstallTid i T)
    then have i: "i < length (WSet x)" "distinct (wptrs x)" "\<not> lock T" "latest T" using assms(1) by (simp_all add: worker_ok_def)
    then have h: "wptrs x ! i \<in> kv_held x" using InstallTid by (simp add: kv_held_def nth_in_drop)
    then obtain r where r: "record_at M (wptrs x ! i) = Some r" using assms(2) by (auto simp: ptr_ok_def)
    then show ?thesis using assms(5) InstallTid i
      by (intro record_effect.install [OF h r _ i(3,4)])
        (auto simp: run_step_def install_tid_def deref_def held_from wptrs_nth kv_held_def [of x] set_drop_Suc)
  qed (use assms(5) in \<open>auto simp: run_step_def try_dequeue_def Transaction_def kv_held_def intro!: record_effect.keep split: option.splits if_splits\<close>)
qed


section \<open>The index does not depend on the records\<close>

lemma find_leaf_loop_nodes:
  fixes h h' :: "('a :: linorder, 'b) heap"
  assumes "find_leaf_loop h key c = Some y" "nodes h' = nodes h"
  shows "find_leaf_loop h' key c = Some y"
proof -
  have "nodes h' = nodes h \<longrightarrow> find_leaf_loop h' key c = Some y"
  proof (rule find_leaf_loop.raw_induct [OF _ assms(1)])
    fix f and h :: "('a, 'b) heap" and key :: 'a and c y
    assume IH: "\<And>(h :: ('a, 'b) heap) (key :: 'a) c y. f h key c = Some y \<Longrightarrow> nodes h' = nodes h \<longrightarrow> find_leaf_loop h' key c = Some y"
    assume body: "do {
       n \<leftarrow> nodes h c;
       if is_leaf n then Some c
       else do {
         i \<leftarrow> scan_ge (keys n) (num_keys n) key 0;
         c' \<leftarrow> rd (pointers n) i;
         f h key c'
       }
     } = Some y"
    show "nodes h' = nodes h \<longrightarrow> find_leaf_loop h' key c = Some y"
    proof
      assume n: "nodes h' = nodes h"
      show "find_leaf_loop h' key c = Some y"
        using body IH n by (subst find_leaf_loop.simps) (auto split: Option.bind_split_asm if_splits)
    qed
  qed
  with assms(2) show ?thesis by blast
qed


lemma find_leaf_loop_cong:
  fixes h h' :: "('a :: linorder, 'b) heap"
  shows "nodes h' = nodes h \<Longrightarrow> find_leaf_loop h' key c = find_leaf_loop h key c"
  using find_leaf_loop_nodes [of h key c _ h'] find_leaf_loop_nodes [of h' key c _ h]
  by (cases "find_leaf_loop h key c"; cases "find_leaf_loop h' key c") auto

lemma find_pt_store [simp]: "find_pt (tree (store_record M p r)) k = find_pt (tree M) k"
proof -
  have "find_leaf_loop (pheap (tree M)\<lparr>recs := f\<rparr>) k c = find_leaf_loop (pheap (tree M)) k c" for f c
    by (rule find_leaf_loop_cong) simp
  then show ?thesis by (simp add: find_pt_def findLeaf_def store_record_def with_heap_def)
qed

lemma effect_index:
  assumes "record_effect M x M' x'"
  shows "find_pt (tree M') k = find_pt (tree M) k" "record_at M' p = None \<longleftrightarrow> record_at M p = None"
  using assms by (cases rule: record_effect.cases; auto simp: record_at_def [of M'] record_at_def [of M])+

section \<open>Every step keeps the local state well formed\<close>

lemma sorted_wptrs_sort: "sorted (map fst (sort ws))" for ws :: "(addr \<times> int) list"
proof -
  have "sorted (map fst ys)" if "sorted ys" for ys :: "(addr \<times> int) list"
    using that by (induction ys) (auto simp: less_eq_prod_def less_prod_def)
  then show ?thesis by simp
qed

lemma worker_ok_step:
  assumes "worker_ok x" "index_ok M" "\<forall>p \<in> kv_held x. kv_locked M p" "run_step th ch M x = (M', x')"
  shows "worker_ok x'"
proof (cases "wpc x")
  case (Run q)
  have "worker_ok (start_commit x)"
    using sorted_wptrs_sort [of "WSet x"] by (simp add: start_commit_def lockWSet_from_def worker_ok_def wptrs_def)
  moreover have "worker_ok (read_find M x k c)" "worker_ok (write_kv M x k v q')" for k v c q'
    by (simp_all add: read_find_def write_kv_def worker_ok_def split: option.split)
  ultimately have "worker_ok (run_query M x q)" by (simp add: run_query_def split: query.split)
  then show ?thesis using assms(4) Run by (auto simp: run_step_def)
next
  case (TryLock i e)
  have i: "i < length (WSet x)" "distinct (take i (wptrs x))" "sorted (wptrs x)" using assms(1) TryLock by (simp_all add: worker_ok_def)
  show ?thesis
  proof (cases "record_at M (wptrs x ! i)")
    case None
    then show ?thesis using assms(4) TryLock i by (auto simp: run_step_def lockWSet_try_def deref_def wptrs_nth worker_ok_def)
  next
    case (Some r)
    show ?thesis
    proof (cases "\<not> lock e \<and> kv_tid r = e")
      case True
      then have x': "x' = lockWSet_from (x\<lparr>maxWrite := max (maxWrite x) e\<rparr>) (Suc i)"
        using assms(4) TryLock Some i by (auto simp: run_step_def lockWSet_try_def deref_def wptrs_nth)
      have "wptrs x ! i \<notin> kv_held x" using assms(3) Some True by (auto simp: kv_locked_def)
      then have "distinct (take (Suc i) (wptrs x))" using i TryLock by (simp add: kv_held_def take_Suc_conv_app_nth)
      moreover have "take (Suc i) (wptrs x) = wptrs x" if "\<not> Suc i < length (WSet x)" using that by simp
      ultimately show ?thesis using i(3) unfolding x' by (auto simp: lockWSet_from_def worker_ok_def)
    next
      case False
      then show ?thesis using assms(4) TryLock Some i
        by (auto simp: run_step_def lockWSet_try_def deref_def wptrs_nth worker_ok_def split: if_splits)
    qed
  qed
next
  case (ValidateRead e i)
  then have "distinct (wptrs x)" using assms(1) by (simp add: worker_ok_def)
  moreover have "lock (commit_tid x e) = False" "latest (commit_tid x e)" by (simp_all add: commit_tid_def Let_def)
  ultimately show ?thesis using assms(4) ValidateRead
    by (auto simp: run_step_def validate_read_def deref_def Let_def worker_ok_def unlockWSet_from_def install_from_def
        split: if_splits prod.splits option.splits)
qed (use assms(1,4) in \<open>auto simp: run_step_def read_tid_word_def read_data_def read_again_def lockWSet_load_def
      unlockWSet_load_def unlockWSet_store_def unlockWSet_from_def install_value_def install_tid_def install_from_def
      try_dequeue_def Transaction_def deref_def worker_ok_def split: option.splits if_splits\<close>)

lemma ptr_ok_step:
  assumes "worker_ok x" "ptr_ok M x" "own_word M x" "index_ok M" "run_step th ch M x = (M', x')"
  shows "ptr_ok M' x'"
proof -
  note e = run_effect [OF assms]
  have held': "\<forall>p \<in> kv_held x'. record_at M p \<noteq> None"
    using e assms(2) by (cases rule: record_effect.cases) (auto simp: ptr_ok_def)
  have "(\<forall>p \<in> set (wptrs x'). p = NULL \<or> record_at M p \<noteq> None) \<and> (\<forall>e \<in> set (RSet x'). record_at M (fst e) \<noteq> None)"
  proof (cases "wpc x")
    case (Run q)
    then have x': "x' = run_query M x q" using assms(5) by (auto simp: run_step_def)
    show ?thesis
    proof (cases q)
      case Return
      then show ?thesis using x' assms(2) by (simp add: run_query_def start_commit_def lockWSet_from_def wptrs_def ptr_ok_def)
    next
      case (ReadQ k c)
      then show ?thesis using x' assms(2) by (simp add: run_query_def read_find_def wptrs_def ptr_ok_def split: option.splits)
    next
      case (WriteQ k v q')
      obtain p leaf where "find_pt (tree M) k = Some (p, leaf)" "p = NULL \<or> record_at M p \<noteq> None"
        using assms(4) unfolding index_ok_def by metis
      then show ?thesis using WriteQ x' assms(2) by (auto simp: run_query_def write_kv_def wptrs_def ptr_ok_def)
    qed
  qed (use assms(2,5) in \<open>auto simp: run_step_def read_tid_word_def read_data_def read_again_def lockWSet_load_def
      unlockWSet_load_def unlockWSet_store_def unlockWSet_from_def install_value_def install_tid_def install_from_def
      lockWSet_try_def lockWSet_from_def validate_read_def Let_def
      try_dequeue_def Transaction_def deref_def wptrs_def ptr_ok_def split: option.splits if_splits prod.splits\<close>)
  with held' show ?thesis unfolding ptr_ok_def using effect_index(2) [OF e] by blast
qed

lemma own_word_step:
  assumes "worker_ok x" "run_step th ch M x = (M', x')"
  shows "own_word M' x'"
proof -
  have other: "own_word M' y" if "\<And>i d. wpc y \<noteq> StoreUnlock i d" for y
    using that by (simp add: own_word_def split: wpc.splits)
  show ?thesis
  proof (cases "wpc x")
    case (LoadUnlock i)
    with assms show ?thesis
      by (auto simp: run_step_def unlockWSet_load_def deref_def own_word_def worker_ok_def wptrs_nth split: option.splits)
  next
    case (Run q)
    then show ?thesis using assms(2)
      by (intro other) (auto simp: run_step_def run_query_def start_commit_def lockWSet_from_def read_find_def write_kv_def split: query.splits option.splits if_splits)
  qed (use assms(2) in \<open>auto intro!: other simp: run_step_def read_tid_word_def read_data_def read_again_def lockWSet_load_def
      unlockWSet_store_def unlockWSet_from_def install_value_def install_tid_def install_from_def
      lockWSet_try_def lockWSet_from_def validate_read_def Let_def try_dequeue_def Transaction_def deref_def split: option.splits if_splits prod.splits\<close>)
qed


section \<open>The invariant of the store\<close>

definition kv_ok :: "database \<Rightarrow> bool" where
  "kv_ok D \<longleftrightarrow> index_ok (mem D) \<and>
    (\<forall>x \<in> set (workers D). worker_ok x \<and> ptr_ok (mem D) x \<and> own_word (mem D) x) \<and>
    (\<forall>a < length (workers D). \<forall>b < length (workers D). a \<noteq> b \<longrightarrow> kv_held (workers D ! a) \<inter> kv_held (workers D ! b) = {}) \<and>
    (\<forall>p. kv_locked (mem D) p \<longleftrightarrow> (\<exists>x \<in> set (workers D). p \<in> kv_held x)) \<and>
    (\<forall>p r. record_at (mem D) p = Some r \<longrightarrow> latest (kv_tid r))"

lemma record_at_tree: "tree M' = tree M \<Longrightarrow> record_at M' = record_at M"
  by (simp add: fun_eq_iff record_at_def)

lemma effect_locked:
  assumes "record_effect M x M' x'" and h: "\<forall>p \<in> kv_held x. kv_locked M p"
  shows "kv_locked M' p \<longleftrightarrow> (if p \<in> kv_held x' - kv_held x then True else if p \<in> kv_held x - kv_held x' then False else kv_locked M p)"
  using assms(1)
proof (cases rule: record_effect.cases)
  case keep
  then show ?thesis by (simp add: kv_locked_def record_at_def)
next
  case (acquire q r)
  then have "q \<notin> kv_held x" using h by (auto simp: kv_locked_def)
  with acquire show ?thesis by (auto simp: kv_locked_def)
next
  case (release q r)
  then show ?thesis by (auto simp: kv_locked_def)
next
  case (overwrite q r v)
  then show ?thesis by (auto simp: kv_locked_def)
next
  case (install q r T)
  then show ?thesis by (auto simp: kv_locked_def)
qed

lemma effect_takes_unlocked: "record_effect M x M' x' \<Longrightarrow> p \<in> kv_held x' \<Longrightarrow> p \<in> kv_held x \<or> \<not> kv_locked M p"
  by (cases rule: record_effect.cases) (auto simp: kv_locked_def)

lemma record_effect_others:
  assumes "record_effect M x M' x'" "p \<notin> kv_held x" "kv_locked M p"
  shows "record_at M' p = record_at M p"
  using assms(1)
proof (cases rule: record_effect.cases)
  case keep
  then show ?thesis using record_at_tree [of M' M] by simp
qed (use assms(2,3) in \<open>auto simp: kv_locked_def\<close>)

lemma effect_latest:
  assumes "record_effect M x M' x'" "\<forall>p r. record_at M p = Some r \<longrightarrow> latest (kv_tid r)" "record_at M' p = Some r"
  shows "latest (kv_tid r)"
  using assms(1)
proof (cases rule: record_effect.cases)
  case keep
  then show ?thesis using assms(2,3) record_at_tree [of M' M] by simp
qed (use assms(2,3) in \<open>auto split: if_splits\<close>)

lemma kv_ok_worker:
  assumes ok: "kv_ok D" and th: "th < length (workers D)" and step: "run_step th ch (mem D) (workers D ! th) = (M', x')"
  shows "kv_ok (D\<lparr>mem := M', workers := (workers D)[th := x']\<rparr>)"
proof -
  let ?M = "mem D" and ?ws = "workers D" and ?x = "workers D ! th" and ?ws' = "(workers D)[th := x']"
  have "?x \<in> set ?ws" using th by simp
  then have x: "worker_ok ?x" "ptr_ok ?M ?x" "own_word ?M ?x" "\<forall>p \<in> kv_held ?x. kv_locked ?M p" and idx: "index_ok ?M"
    using ok by (auto simp: kv_ok_def)
  note e = run_effect [OF x(1-3) idx step]
  have excl: "kv_held (?ws ! t) \<inter> kv_held ?x = {}" if "t < length ?ws" "t \<noteq> th" for t
    using ok th that by (simp add: kv_ok_def)
  have lk: "kv_locked ?M p" if "t < length ?ws" "p \<in> kv_held (?ws ! t)" for t p
    using ok that nth_mem [OF that(1)] by (auto simp: kv_ok_def)
  have excl': "kv_held (?ws ! t) \<inter> kv_held x' = {}" if "t < length ?ws" "t \<noteq> th" for t
    using excl [OF that] lk [OF that(1)] effect_takes_unlocked [OF e] by blast
  have "index_ok M'" using idx effect_index [OF e] by (simp add: index_ok_def)
  moreover have "worker_ok y \<and> ptr_ok M' y \<and> own_word M' y" if y: "y \<in> set ?ws'" for y
  proof -
    obtain t where t: "t < length ?ws" "y = ?ws' ! t" using y by (auto simp: in_set_conv_nth)
    show ?thesis
    proof (cases "t = th")
      case True
      then show ?thesis using t worker_ok_step [OF x(1) idx x(4) step] ptr_ok_step [OF x(1-3) idx step] own_word_step [OF x(1) step]
        by simp
    next
      case False
      then have y': "y = ?ws ! t" using t by simp
      then have o: "worker_ok y" "ptr_ok ?M y" "own_word ?M y" using ok t(1) by (simp_all add: kv_ok_def)
      have keep: "record_at M' p = record_at ?M p" if "p \<in> kv_held y" for p
        using record_effect_others [OF e] excl [OF t(1) False] lk [OF t(1)] that y' by blast
      have "own_word M' y"
      proof (cases "wpc y")
        case (StoreUnlock i d)
        then have "wptrs y ! i \<in> kv_held y" using o(1) by (simp add: kv_held_def worker_ok_def nth_in_drop)
        then show ?thesis using o(3) keep StoreUnlock by (simp add: own_word_def)
      qed (simp_all add: own_word_def)
      then show ?thesis using o(1,2) effect_index(2) [OF e] by (auto simp: ptr_ok_def)
    qed
  qed
  moreover have "kv_held (?ws' ! a) \<inter> kv_held (?ws' ! b) = {}" if "a < length ?ws" "b < length ?ws" "a \<noteq> b" for a b
  proof (cases "a = th \<or> b = th")
    case True
    then show ?thesis using excl' [of a] excl' [of b] that by (auto simp: nth_list_update)
  next
    case False
    then show ?thesis using ok that by (simp add: kv_ok_def)
  qed
  moreover have "kv_locked M' p \<longleftrightarrow> (\<exists>y \<in> set ?ws'. p \<in> kv_held y)" for p
  proof -
    have ex: "(\<exists>y \<in> set ?ws'. p \<in> kv_held y) \<longleftrightarrow> p \<in> kv_held x' \<or> (\<exists>t < length ?ws. t \<noteq> th \<and> p \<in> kv_held (?ws ! t))"
      using th by (auto simp: in_set_conv_nth Bex_def nth_list_update)
    have ex0: "kv_locked ?M p \<longleftrightarrow> p \<in> kv_held ?x \<or> (\<exists>t < length ?ws. t \<noteq> th \<and> p \<in> kv_held (?ws ! t))"
      using ok th unfolding kv_ok_def by (metis in_set_conv_nth)
    show ?thesis unfolding ex effect_locked [OF e x(4)] using ex0 excl excl' by (auto split: if_split)
  qed
  moreover have "latest (kv_tid r)" if "record_at M' p = Some r" for p r
    using effect_latest [OF e _ that] ok by (auto simp: kv_ok_def)
  ultimately show ?thesis by (simp add: kv_ok_def)
qed


lemma kv_ok_cong:
  assumes "kv_ok D" "tree (mem D') = tree (mem D)" "length (workers D') = length (workers D)"
    "\<And>i. i < length (workers D) \<Longrightarrow> \<exists>qs. workers D' ! i = (workers D ! i)\<lparr>waitingQueries := qs\<rparr>"
  shows "kv_ok D'"
proof -
  have h: "kv_held (x\<lparr>waitingQueries := qs\<rparr>) = kv_held x" "worker_ok (x\<lparr>waitingQueries := qs\<rparr>) = worker_ok x" for x qs
    by (simp_all add: kv_held_def worker_ok_def cong: wpc.case_cong)
  have p: "ptr_ok M (x\<lparr>waitingQueries := qs\<rparr>) = ptr_ok M x" "own_word M (x\<lparr>waitingQueries := qs\<rparr>) = own_word M x" for M x qs
    by (simp_all add: ptr_ok_def own_word_def h split: wpc.split)
  have r: "record_at (mem D') = record_at (mem D)" using assms(2) by (rule record_at_tree)
  then have m: "ptr_ok (mem D') = ptr_ok (mem D)" "own_word (mem D') = own_word (mem D)" "kv_locked (mem D') = kv_locked (mem D)"
    by (simp_all add: fun_eq_iff ptr_ok_def own_word_def kv_locked_def cong: wpc.case_cong)
  have i: "index_ok (mem D') = index_ok (mem D)" using assms(2) r by (simp add: index_ok_def)
  have ex: "(\<exists>x \<in> set (workers D'). P x) \<longleftrightarrow> (\<exists>x \<in> set (workers D). P x)" "(\<forall>x \<in> set (workers D'). P x) \<longleftrightarrow> (\<forall>x \<in> set (workers D). P x)"
    if P: "\<And>x qs. P (x\<lparr>waitingQueries := qs\<rparr>) = P x" for P
  proof -
    have "P (workers D' ! i) = P (workers D ! i)" if "i < length (workers D)" for i using assms(4) [OF that] P by force
    then show "(\<exists>x \<in> set (workers D'). P x) \<longleftrightarrow> (\<exists>x \<in> set (workers D). P x)" "(\<forall>x \<in> set (workers D'). P x) \<longleftrightarrow> (\<forall>x \<in> set (workers D). P x)"
      using assms(3) by (auto simp: Bex_def Ball_def in_set_conv_nth)
  qed
  have hh: "kv_held (workers D' ! i) = kv_held (workers D ! i)" if "i < length (workers D)" for i using assms(4) [OF that] h by force
  show ?thesis unfolding kv_ok_def m i r
    using assms(1) ex(2) [of "\<lambda>x. worker_ok x \<and> ptr_ok (mem D) x \<and> own_word (mem D) x"] ex(1) [of "\<lambda>x. _ \<in> kv_held x"] hh
    by (simp add: kv_ok_def h p assms(3))
qed

lemma same_queue: "\<exists>qs. (x :: Worker) = x\<lparr>waitingQueries := qs\<rparr>"
  by (rule exI [of _ "waitingQueries x"]) simp

lemma leader_step_tree: "leader_step now M l = (M', l') \<Longrightarrow> tree M' = tree M"
  by (auto simp: leader_step_def split: leader_pc.splits)

lemma kv_ok_event: "kv_ok D \<Longrightarrow> kv_ok (exec_event ev D)"
proof (cases ev)
  case (Work th ch)
  moreover assume "kv_ok D"
  ultimately show ?thesis by (auto simp: exec_event_def split: prod.split intro: kv_ok_worker)
next
  case (Lead now)
  assume ok: "kv_ok D"
  obtain M' l' where l: "leader_step now (mem D) (the_leader D) = (M', l')" by fastforce
  have "kv_ok (D\<lparr>mem := M', the_leader := l'\<rparr>)"
  proof (rule kv_ok_cong [OF ok])
    show "tree (mem (D\<lparr>mem := M', the_leader := l'\<rparr>)) = tree (mem D)" using leader_step_tree [OF l] by simp
    show "\<exists>qs. workers (D\<lparr>mem := M', the_leader := l'\<rparr>) ! i = (workers D ! i)\<lparr>waitingQueries := qs\<rparr>" for i
      using same_queue by simp
  qed simp
  then show ?thesis by (simp add: exec_event_def Lead l)
next
  case Log
  assume ok: "kv_ok D"
  show ?thesis by (rule kv_ok_cong [OF ok]) (simp_all add: exec_event_def Log same_queue)
next
  case (Submit r q)
  assume ok: "kv_ok D"
  show ?thesis
  proof (cases "workers D = []")
    case False
    let ?i = "unat r mod length (workers D)"
    have "kv_ok (D\<lparr>workers := (workers D)[?i := addQueryToQueue (workers D ! ?i) q]\<rparr>)"
      using ok
    proof (rule kv_ok_cong)
      fix j assume "j < length (workers D)"
      then show "\<exists>qs. workers (D\<lparr>workers := (workers D)[?i := addQueryToQueue (workers D ! ?i) q]\<rparr>) ! j = (workers D ! j)\<lparr>waitingQueries := qs\<rparr>"
        by (cases "j = ?i") (auto simp: addQueryToQueue_def intro: exI [of _ "waitingQueries (workers D ! j)"])
    qed simp_all
    with False Submit show ?thesis by (simp add: exec_event_def executeTransaction_def Let_def)
  qed (use ok Submit in \<open>simp add: exec_event_def executeTransaction_def\<close>)
next
  case Stop
  assume ok: "kv_ok D"
  show ?thesis by (rule kv_ok_cong [OF ok]) (simp_all add: exec_event_def Stop set_stop_def same_queue)
qed

section \<open>The initial state\<close>

lemma map_index:
  assumes "is_map ord h root m"
  shows "recs h p = Some r \<Longrightarrow> \<exists>k leaf. find_bpt h root k = Some (p, leaf) \<and> m k = Some r"
    "find_bpt h root k = Some (p, l) \<Longrightarrow> find_bpt h root k' = Some (p, l') \<Longrightarrow> p \<noteq> NULL \<Longrightarrow> k = k'"
proof -
  have "root \<noteq> NULL \<Longrightarrow> \<exists>t d. holds_tree ord h root t d \<and> m = bpt_map h t \<and> heap_ok h" using assms by (auto simp: is_map_def)
  then obtain t d where t: "root \<noteq> NULL \<Longrightarrow> holds_tree ord h root t d" "root \<noteq> NULL \<Longrightarrow> m = bpt_map h t \<and> heap_ok h" by metis
  have find: "\<exists>leaf. find_bpt h root k = Some (case map_of (ents (flat t)) k of None \<Rightarrow> NULL | Some p \<Rightarrow> p, leaf)" if "root \<noteq> NULL" for k
    using find_bpt_tree [OF t(1) [OF that], of k] t(2) [OF that] by (auto split: option.split)
  {
    assume r: "recs h p = Some r"
    then have n: "root \<noteq> NULL" using assms by (auto simp: is_map_def split: if_splits)
    from r t(1) [OF n] have "p \<in> snd ` set (ents (flat t))" by (auto simp: holds_tree_def)
    then obtain k where k: "(k, p) \<in> set (ents (flat t))" by auto
    have "sorted_wrt (<) (map fst (ents (flat t)))" using t(1) [OF n] by (intro ordered_ents) (simp add: holds_tree_def)
    then have "map_of (ents (flat t)) k = Some p" using k by (simp add: strict_sorted_iff)
    then show "\<exists>k leaf. find_bpt h root k = Some (p, leaf) \<and> m k = Some r"
      using find [OF n, of k] t(2) [OF n] r by (auto simp: bpt_map_def)
  }
  assume a: "find_bpt h root k = Some (p, l)" "find_bpt h root k' = Some (p, l')" "p \<noteq> NULL"
  then have n: "root \<noteq> NULL" by (auto simp: find_bpt_def split: if_splits)
  have "map_of (ents (flat t)) k = Some p" "map_of (ents (flat t)) k' = Some p"
    using find [OF n, of k] find [OF n, of k'] a by (auto split: option.splits)
  moreover have "distinct (map snd (ents (flat t)))" using t(1) [OF n] by (simp add: holds_tree_def)
  ultimately show "k = k'" by (auto dest: map_of_inj_snd)
qed

lemma kv_ok_init:
  assumes "kv_init D"
  shows "kv_ok D"
proof -
  obtain h e n now t where h: "is_map 4 h NULL Map.empty" "\<not> malloc_temps h" "PrimaryTree h = Some t" and
    D: "D = \<lparr>mem = \<lparr>tree = t, env = \<lparr>E = e, workerE = replicate n 0, start_flag = True, stop_flag = False\<rparr>\<rparr>,
      workers = replicate n new_worker, the_logger = LogWaitStart, the_leader = \<lparr>start_time = now, lpc = LeadStop\<rparr>\<rparr>"
    using assms by (auto simp: kv_init_def Database_def)
  let ?m = "\<lambda>k :: Key. if 1 \<le> k \<and> k \<le> 8 then Some (Record (uint k)) else None"
  have "pt_holds (new_tree h) Map.empty" using h by (simp add: pt_holds_def new_tree_def)
  from PrimaryTree_holds [OF this] h(3) have t: "pt_holds t ?m" by simp
  have "record_at (mem D) NULL = None"
    using t heap_ok_NULL(2) [of "pheap t"] by (simp add: D record_at_def pt_holds_def is_map_def)
  moreover have "\<exists>p leaf. find_pt (tree (mem D)) k = Some (p, leaf) \<and> (p = NULL \<or> record_at (mem D) p \<noteq> None)" for k
    using find_pt_map [OF t, of k] by (fastforce simp: D record_at_def split: if_splits)
  moreover have r: "kv_tid r = TidWord0" if "record_at (mem D) p = Some r" for p r
    using map_index(1) [of 4 "pheap t" "proot t" ?m p r] t that by (auto simp: D record_at_def pt_holds_def Record_def split: if_splits)
  moreover have "\<not> lock TidWord0" "latest TidWord0" by (simp_all add: TidWord0_def)
  moreover have "kv_held new_worker = {}" "worker_ok new_worker" "ptr_ok M new_worker" "own_word M new_worker" for M
    by (simp_all add: new_worker_def kv_held_def worker_ok_def ptr_ok_def own_word_def wptrs_def)
  ultimately show ?thesis by (auto simp: kv_ok_def D index_ok_def kv_locked_def)
qed

interpretation kv_locks: invariant_of kv_init kv_step kv_ok
  by unfold_locales (auto intro: kv_ok_init kv_ok_event elim: kv_stepE)

end
