(* ===== verification/KVSilo_Solo.thy ===== *)
theory KVSilo_Solo
  imports KVSilo_Locks
begin


text \<open>
  One worker of the key-value store running by itself: the phases of a transaction, from the first call of its
  query to its commit, when no record it uses is locked by another worker.
\<close>

section \<open>Steps of one worker\<close>

definition goes :: "nat \<Rightarrow> memory \<times> Worker \<Rightarrow> memory \<times> Worker \<Rightarrow> bool" where
  "goes th = (\<lambda>a b. b = run_step th None (fst a) (snd a))\<^sup>*\<^sup>*"

lemma goes_refl [simp]: "goes th a a"
  by (simp add: goes_def)

lemma goes_trans: "goes th a b \<Longrightarrow> goes th b c \<Longrightarrow> goes th a c"
  unfolding goes_def by (rule rtranclp_trans)

lemma goes_step: "run_step th None M x = b \<Longrightarrow> goes th b c \<Longrightarrow> goes th (M, x) c"
  unfolding goes_def by (rule converse_rtranclp_into_rtranclp) auto

lemma exec_events_append: "exec_events (as @ bs) D = exec_events bs (exec_events as D)"
  by (simp add: exec_events_def)

lemma goes_exec:
  assumes "goes th (mem D, workers D ! th) (M', x')" "th < length (workers D)"
  shows "\<exists>n. exec_events (replicate n (Work th None)) D = D\<lparr>mem := M', workers := (workers D)[th := x']\<rparr>"
proof -
  have "\<exists>n. exec_events (replicate n (Work th None)) D = D\<lparr>mem := fst b, workers := (workers D)[th := snd b]\<rparr>"
    if "goes th (mem D, workers D ! th) b" for b
    using that unfolding goes_def
  proof (induction rule: rtranclp_induct)
    case base
    then show ?case by (intro exI [of _ 0]) (simp add: exec_events_def)
  next
    case (step b c)
    then obtain n where n: "exec_events (replicate n (Work th None)) D = D\<lparr>mem := fst b, workers := (workers D)[th := snd b]\<rparr>" by blast
    have "exec_events (replicate n (Work th None) @ [Work th None]) D = D\<lparr>mem := fst c, workers := (workers D)[th := snd c]\<rparr>"
      unfolding exec_events_append n using step.hyps(2) assms(2) by (simp add: exec_events_def exec_event_def split: prod.split)
    then show ?case by (metis replicate_append_same replicate_Suc)
  qed
  from this [OF assms(1)] show ?thesis by simp
qed

section \<open>The query\<close>

text \<open>What a query reads and writes when every key \<open>k\<close> has the value \<open>m k\<close> all along.\<close>

primrec query_reads :: "query \<Rightarrow> (Key \<Rightarrow> int) \<Rightarrow> Key list" where
  "query_reads Return = (\<lambda>m. [])"
| "query_reads (ReadQ k c) = (\<lambda>m. k # query_reads (c (m k)) m)"
| "query_reads (WriteQ k v q) = query_reads q"

primrec query_writes :: "query \<Rightarrow> (Key \<Rightarrow> int) \<Rightarrow> (Key \<times> int) list" where
  "query_writes Return = (\<lambda>m. [])"
| "query_writes (ReadQ k c) = (\<lambda>m. query_writes (c (m k)) m)"
| "query_writes (WriteQ k v q) = (\<lambda>m. (k, v) # query_writes q m)"

text \<open>A record that can be read at once.\<close>

definition readable :: "memory \<Rightarrow> addr \<Rightarrow> kv_record \<Rightarrow> bool" where
  "readable M p r \<longleftrightarrow> record_at M p = Some r \<and> \<not> lock (kv_tid r) \<and> latest (kv_tid r)"

lemma goes_read:
  assumes "find_pt (tree M) k = Some (p, leaf)" "readable M p r"
  shows "goes th (M, x\<lparr>wpc := Run (ReadQ k c)\<rparr>) (M, x\<lparr>RSet := RSet x @ [(p, kv_tid r)], wpc := Run (c (kv_value r))\<rparr>)"
proof -
  let ?y = "x\<lparr>RSet := RSet x @ [(p, kv_tid r)], wpc := Run (c (kv_value r))\<rparr>"
  have "goes th (M, x\<lparr>wpc := ReadAgain p (kv_tid r) (kv_value r) c\<rparr>) (M, ?y)"
    by (rule goes_step [OF _ goes_refl]) (use assms(2) in \<open>simp add: run_step_def read_again_def deref_def readable_def\<close>)
  then have "goes th (M, x\<lparr>wpc := ReadValue p (kv_tid r) c\<rparr>) (M, ?y)"
    by (rule goes_step [rotated]) (use assms(2) in \<open>simp add: run_step_def read_data_def deref_def readable_def\<close>)
  then have "goes th (M, x\<lparr>wpc := ReadTid p c\<rparr>) (M, ?y)"
    by (rule goes_step [rotated]) (use assms(2) in \<open>simp add: run_step_def read_tid_word_def deref_def readable_def\<close>)
  then show ?thesis
    by (rule goes_step [rotated]) (simp add: run_step_def run_query_def read_find_def assms(1))
qed

lemma goes_write:
  assumes "find_pt (tree M) k = Some (p, leaf)"
  shows "goes th (M, x\<lparr>wpc := Run (WriteQ k v q)\<rparr>) (M, x\<lparr>WSet := WSet x @ [(p, v)], wpc := Run q\<rparr>)"
  by (rule goes_step [OF _ goes_refl]) (simp add: run_step_def run_query_def write_kv_def assms)

lemma goes_query:
  assumes "\<forall>k \<in> set (query_reads q m). \<exists>leaf. find_pt (tree M) k = Some (P k, leaf) \<and> readable M (P k) (R k) \<and> kv_value (R k) = m k"
    and "\<forall>w \<in> set (query_writes q m). \<exists>leaf. find_pt (tree M) (fst w) = Some (P (fst w), leaf)"
  shows "goes th (M, x\<lparr>wpc := Run q\<rparr>)
    (M, x\<lparr>RSet := RSet x @ map (\<lambda>k. (P k, kv_tid (R k))) (query_reads q m),
          WSet := WSet x @ map (\<lambda>w. (P (fst w), snd w)) (query_writes q m), wpc := Run Return\<rparr>)"
  using assms
proof (induction q arbitrary: x)
  case (ReadQ k c)
  let ?y = "x\<lparr>RSet := RSet x @ [(P k, kv_tid (R k))]\<rparr>"
  obtain leaf where f: "find_pt (tree M) k = Some (P k, leaf)" "readable M (P k) (R k)" "kv_value (R k) = m k"
    using ReadQ.prems(1) by auto
  from goes_trans [OF goes_read [OF f(1,2), where x = x and c = c and th = th, unfolded f(3)] ReadQ.IH [of "c (m k)" ?y, simplified]] ReadQ.prems f(3) show ?case by simp
next
  case (WriteQ k v q)
  let ?y = "x\<lparr>WSet := WSet x @ [(P k, v)]\<rparr>"
  obtain leaf where f: "find_pt (tree M) k = Some (P k, leaf)" using WriteQ.prems(2) by auto
  from goes_trans [OF goes_write [OF f] WriteQ.IH [of ?y, simplified]] WriteQ.prems show ?case by simp
qed simp

section \<open>The locks\<close>

text \<open>Memories that differ in the records only; the index is that of the first.\<close>

definition same_index :: "memory \<Rightarrow> memory \<Rightarrow> bool" where
  "same_index M M' \<longleftrightarrow> (\<forall>k. find_pt (tree M') k = find_pt (tree M) k) \<and> env M' = env M"

lemma same_index_refl [simp]: "same_index M M"
  by (simp add: same_index_def)

lemma same_index_store [simp]: "same_index M (store_record M' p r) = same_index M M'"
  by (simp add: same_index_def)

lemma same_index_trans: "same_index M M' \<Longrightarrow> same_index M' M'' \<Longrightarrow> same_index M M''"
  by (simp add: same_index_def)

definition lock_record :: "kv_record \<Rightarrow> kv_record" where
  "lock_record r = r\<lparr>kv_tid := set_lock True (kv_tid r)\<rparr>"

definition tid_at :: "memory \<Rightarrow> addr \<Rightarrow> tid_word" where
  "tid_at M p = kv_tid (the (record_at M p))"

lemma foldl_max_cong: "(\<And>p. p \<in> set ps \<Longrightarrow> f p = g p) \<Longrightarrow> foldl max a (map f ps) = foldl max a (map g ps)"
  by (metis map_eq_conv)

lemma goes_lock:
  assumes "distinct (wptrs x)" "i \<le> length (WSet x)" "\<forall>p \<in> set (drop i (wptrs x)). \<exists>r. record_at M p = Some r \<and> \<not> lock (kv_tid r)"
  shows "\<exists>M'. goes th (M, lockWSet_from x i) (M', x\<lparr>maxWrite := foldl max (maxWrite x) (map (tid_at M) (drop i (wptrs x))), wpc := LoadEpoch\<rparr>)
    \<and> same_index M M' \<and> (\<forall>p. record_at M' p = (if p \<in> set (drop i (wptrs x)) then map_option lock_record (record_at M p) else record_at M p))"
  using assms
proof (induction "length (WSet x) - i" arbitrary: x i M)
  case 0
  then show ?case by (intro exI [of _ M]) (simp add: lockWSet_from_def)
next
  case (Suc n)
  let ?p = "wptrs x ! i"
  have i: "i < length (WSet x)" using Suc.hyps(2) by simp
  have dr: "drop i (wptrs x) = ?p # drop (Suc i) (wptrs x)" using i by (simp add: Cons_nth_drop_Suc)
  obtain r where r: "record_at M ?p = Some r" "\<not> lock (kv_tid r)" using Suc.prems(3) dr by auto
  let ?M = "store_record M ?p (lock_record r)" and ?y = "x\<lparr>maxWrite := max (maxWrite x) (kv_tid r)\<rparr>"
  have nin: "?p \<notin> set (drop (Suc i) (wptrs x))" using Suc.prems(1) dr by (metis distinct.simps(2) distinct_drop)
  have "\<exists>M'. goes th (?M, lockWSet_from ?y (Suc i)) (M', ?y\<lparr>maxWrite := foldl max (maxWrite ?y) (map (tid_at ?M) (drop (Suc i) (wptrs ?y))), wpc := LoadEpoch\<rparr>)
    \<and> same_index ?M M' \<and> (\<forall>p. record_at M' p = (if p \<in> set (drop (Suc i) (wptrs ?y)) then map_option lock_record (record_at ?M p) else record_at ?M p))"
  proof (rule Suc.hyps(1))
    show "n = length (WSet ?y) - Suc i" using Suc.hyps(2) by simp
    show "\<forall>p \<in> set (drop (Suc i) (wptrs ?y)). \<exists>r. record_at ?M p = Some r \<and> \<not> lock (kv_tid r)"
      using Suc.prems(3) nin dr by auto
  qed (use Suc.prems(1) i in simp_all)
  then obtain M' where M': "goes th (?M, lockWSet_from ?y (Suc i)) (M', ?y\<lparr>maxWrite := foldl max (maxWrite ?y) (map (tid_at ?M) (drop (Suc i) (wptrs x))), wpc := LoadEpoch\<rparr>)"
    "same_index ?M M'" "\<forall>p. record_at M' p = (if p \<in> set (drop (Suc i) (wptrs x)) then map_option lock_record (record_at ?M p) else record_at ?M p)"
    by auto
  have "foldl max (maxWrite ?y) (map (tid_at ?M) (drop (Suc i) (wptrs x))) = foldl max (maxWrite x) (map (tid_at M) (drop i (wptrs x)))"
    unfolding dr using nin r(1) by (auto simp: tid_at_def intro!: foldl_max_cong)
  note max = this [simplified]
  have 1: "run_step th None M (x\<lparr>wpc := TryLock i (kv_tid r)\<rparr>) = (?M, lockWSet_from ?y (Suc i))"
    using r i by (simp add: run_step_def lockWSet_try_def deref_def wptrs_nth lock_record_def lockWSet_from_def)
  have 2: "run_step th None M (lockWSet_from x i) = (M, x\<lparr>wpc := TryLock i (kv_tid r)\<rparr>)"
    using r i by (simp add: run_step_def lockWSet_load_def deref_def wptrs_nth lockWSet_from_def)
  have "goes th (M, lockWSet_from x i) (M', x\<lparr>maxWrite := foldl max (maxWrite x) (map (tid_at M) (drop i (wptrs x))), wpc := LoadEpoch\<rparr>)"
    by (rule goes_step [OF 2 goes_step [OF 1]]) (use M'(1) max in simp)
  moreover have "same_index M M'" using M'(2) by (rule same_index_trans [rotated]) simp
  moreover have "record_at M' p = (if p \<in> set (drop i (wptrs x)) then map_option lock_record (record_at M p) else record_at M p)" for p
    using M'(3) nin r(1) by (simp add: dr)
  ultimately show ?case by blast
qed

section \<open>The validation\<close>

lemma find_first: "p \<in> fst ` set ws \<Longrightarrow> \<exists>v. List.find (\<lambda>w. fst w = p) ws = Some (p, v)"
  by (induction ws) auto

lemma goes_validate:
  assumes "i \<le> length (RSet x)"
    "\<forall>e \<in> set (drop i (RSet x)). fst e \<noteq> NULL \<and> (\<exists>r. record_at M (fst e) = Some r \<and> tid (snd e) = tid (kv_tid r) \<and> latest (kv_tid r) \<and>
       (lock (kv_tid r) \<longrightarrow> fst e \<in> set (wptrs x)))"
  shows "goes th (M, x\<lparr>wpc := ValidateRead e i\<rparr>)
    (M, x\<lparr>maxRead := foldl max (maxRead x) (map (tid_at M \<circ> fst) (drop i (RSet x))), wpc := ValidateRead e (length (RSet x))\<rparr>)"
  using assms
proof (induction "length (RSet x) - i" arbitrary: x i)
  case (Suc n)
  have i: "i < length (RSet x)" using Suc.hyps(2) by simp
  obtain p t where pt: "RSet x ! i = (p, t)" by fastforce
  have dr: "drop i (RSet x) = (p, t) # drop (Suc i) (RSet x)" using i pt by (metis Cons_nth_drop_Suc)
  then obtain r where r: "p \<noteq> NULL" "record_at M p = Some r" "tid t = tid (kv_tid r)" "latest (kv_tid r)" "lock (kv_tid r) \<longrightarrow> p \<in> set (wptrs x)"
    using Suc.prems(2) by auto
  have "lock (kv_tid r) \<longrightarrow> searchWSet x p \<noteq> NULL"
  proof
    assume "lock (kv_tid r)"
    then have "p \<in> fst ` set (WSet x)" using r(5) by (simp add: wptrs_def)
    from find_first [OF this] show "searchWSet x p \<noteq> NULL" using r(1) by (auto simp: searchWSet_def)
  qed
  then have "\<not> stale (x\<lparr>wpc := ValidateRead e i\<rparr>) p t (kv_tid r)" using r by (auto simp: stale_def searchWSet_def)
  then have 1: "run_step th None M (x\<lparr>wpc := ValidateRead e i\<rparr>) = (M, x\<lparr>maxRead := max (maxRead x) (kv_tid r), wpc := ValidateRead e (Suc i)\<rparr>)"
    using i pt r(2) by (simp add: run_step_def validate_read_def deref_def)
  have "goes th (M, (x\<lparr>maxRead := max (maxRead x) (kv_tid r)\<rparr>)\<lparr>wpc := ValidateRead e (Suc i)\<rparr>)
    (M, x\<lparr>maxRead := foldl max (max (maxRead x) (kv_tid r)) (map (tid_at M \<circ> fst) (drop (Suc i) (RSet x))), wpc := ValidateRead e (length (RSet x))\<rparr>)"
    using Suc.hyps(1) [of "x\<lparr>maxRead := max (maxRead x) (kv_tid r)\<rparr>" "Suc i"] Suc.hyps(2) Suc.prems dr i by (simp add: wptrs_def)
  then show ?case by (intro goes_step [OF 1]) (simp add: dr tid_at_def r(2))
qed simp

section \<open>The installation\<close>

lemma goes_install:
  assumes "distinct (wptrs x)" "i \<le> length (WSet x)" "\<forall>p \<in> set (drop i (wptrs x)). record_at M p \<noteq> None"
  shows "\<exists>M'. goes th (M, install_from x i T) (M', x\<lparr>WSet := [], RSet := [], result := addCommit (result x), wpc := CheckStop\<rparr>)
    \<and> same_index M M' \<and> (\<forall>p. record_at M' p = (case map_of (drop i (WSet x)) p of None \<Rightarrow> record_at M p | Some v \<Rightarrow> Some \<lparr>kv_tid = T, kv_value = v\<rparr>))"
  using assms
proof (induction "length (WSet x) - i" arbitrary: i M)
  case 0
  then show ?case by (intro exI [of _ M]) (simp add: install_from_def)
next
  case (Suc n)
  let ?p = "wptrs x ! i" and ?v = "snd (WSet x ! i)"
  have i: "i < length (WSet x)" using Suc.hyps(2) by simp
  have dr: "drop i (wptrs x) = ?p # drop (Suc i) (wptrs x)" using i by (simp add: Cons_nth_drop_Suc)
  have dW: "drop i (WSet x) = (?p, ?v) # drop (Suc i) (WSet x)" using i by (simp add: Cons_nth_drop_Suc wptrs_nth [symmetric])
  obtain r where r: "record_at M ?p = Some r" using Suc.prems(3) dr by auto
  let ?M = "store_record M ?p (r\<lparr>kv_value := ?v\<rparr>)" and ?M2 = "store_record (store_record M ?p (r\<lparr>kv_value := ?v\<rparr>)) ?p \<lparr>kv_tid = T, kv_value = ?v\<rparr>"
  have nin: "?p \<notin> set (drop (Suc i) (wptrs x))" using Suc.prems(1) dr by (metis distinct.simps(2) distinct_drop)
  have "\<exists>M'. goes th (?M2, install_from x (Suc i) T) (M', x\<lparr>WSet := [], RSet := [], result := addCommit (result x), wpc := CheckStop\<rparr>)
    \<and> same_index ?M2 M' \<and> (\<forall>p. record_at M' p = (case map_of (drop (Suc i) (WSet x)) p of None \<Rightarrow> record_at ?M2 p | Some v \<Rightarrow> Some \<lparr>kv_tid = T, kv_value = v\<rparr>))"
  proof (rule Suc.hyps(1))
    show "n = length (WSet x) - Suc i" using Suc.hyps(2) by simp
    show "\<forall>p \<in> set (drop (Suc i) (wptrs x)). record_at ?M2 p \<noteq> None" using Suc.prems(3) nin dr by auto
  qed (use Suc.prems(1) i in simp_all)
  then obtain M' where M': "goes th (?M2, install_from x (Suc i) T) (M', x\<lparr>WSet := [], RSet := [], result := addCommit (result x), wpc := CheckStop\<rparr>)"
    "same_index ?M2 M'" "\<forall>p. record_at M' p = (case map_of (drop (Suc i) (WSet x)) p of None \<Rightarrow> record_at ?M2 p | Some v \<Rightarrow> Some \<lparr>kv_tid = T, kv_value = v\<rparr>)"
    by blast
  have 1: "run_step th None ?M (x\<lparr>wpc := InstallTid i T\<rparr>) = (?M2, install_from x (Suc i) T)"
    using i by (cases r) (simp add: run_step_def install_tid_def deref_def wptrs_nth install_from_def)
  have 2: "run_step th None M (install_from x i T) = (?M, x\<lparr>wpc := InstallTid i T\<rparr>)"
    using i r by (simp add: run_step_def install_value_def deref_def wptrs_nth install_from_def)
  have "map_of (drop (Suc i) (WSet x)) ?p = None"
    using nin by (simp add: map_of_eq_None_iff wptrs_def drop_map)
  then have "record_at M' p = (case map_of (drop i (WSet x)) p of None \<Rightarrow> record_at M p | Some v \<Rightarrow> Some \<lparr>kv_tid = T, kv_value = v\<rparr>)" for p
    using M'(3) by (simp add: dW split: option.split)
  moreover have "same_index M M'" using M'(2) by (rule same_index_trans [rotated]) simp
  ultimately show ?case using goes_step [OF 2 goes_step [OF 1 M'(1)]] by blast
qed


section \<open>The commit\<close>

lemma map_of_sort:
  fixes ws :: "('a :: linorder \<times> 'b :: linorder) list"
  assumes "distinct (map fst ws)"
  shows "map_of (sort ws) = map_of ws"
proof -
  have "mset (map fst (sort ws)) = mset (map fst ws)" by simp
  then have d: "distinct (map fst (sort ws))" using assms by (metis mset_eq_imp_distinct_iff)
  have "map_of (sort ws) k = Some v \<longleftrightarrow> map_of ws k = Some v" for k v
    using map_of_eq_Some_iff [OF d] map_of_eq_Some_iff [OF assms] by simp
  then show ?thesis by (metis ext option.exhaust)
qed

definition tid_seen :: "memory \<Rightarrow> Worker \<Rightarrow> addr \<Rightarrow> tid_word" where
  "tid_seen M x p = (if p \<in> set (wptrs x) then set_lock True (tid_at M p) else tid_at M p)"

text \<open>The state of a worker when it chooses its TID.\<close>

definition all_seen :: "memory \<Rightarrow> Worker \<Rightarrow> Worker" where
  "all_seen M x = x\<lparr>maxWrite := foldl max (maxWrite x) (map (tid_at M) (map fst (sort (WSet x)))),
     maxRead := foldl max (maxRead x) (map (tid_seen M x \<circ> fst) (RSet x))\<rparr>"

lemma commit_tid_cong: "maxWrite x = maxWrite y \<Longrightarrow> maxRead x = maxRead y \<Longrightarrow> recentTid x = recentTid y \<Longrightarrow> commit_tid x e = commit_tid y e"
  by (simp add: commit_tid_def)

lemma goes_commit:
  assumes d: "distinct (wptrs x)" and w: "\<forall>p \<in> set (wptrs x). \<exists>r. record_at M p = Some r \<and> \<not> lock (kv_tid r)"
    and rd: "\<forall>e \<in> set (RSet x). fst e \<noteq> NULL \<and> (\<exists>r. record_at M (fst e) = Some r \<and> tid (snd e) = tid (kv_tid r) \<and> latest (kv_tid r) \<and> \<not> lock (kv_tid r))"
  shows "\<exists>M' y. goes th (M, x\<lparr>wpc := Run Return\<rparr>) (M', y) \<and> wpc y = CheckStop \<and> result y = addCommit (result x) \<and> waitingQueries y = waitingQueries x \<and>
    same_index M M' \<and>
    (\<forall>p. record_at M' p = (case map_of (WSet x) p of None \<Rightarrow> record_at M p | Some v \<Rightarrow> Some \<lparr>kv_tid = commit_tid (all_seen M x) (E (env M)), kv_value = v\<rparr>))"
proof -
  let ?s = "x\<lparr>WSet := sort (WSet x)\<rparr>" and ?T = "commit_tid (all_seen M x) (E (env M))"
  have set_s: "set (wptrs ?s) = set (wptrs x)" by (simp add: wptrs_def)
  have "mset (wptrs ?s) = mset (wptrs x)" by (simp add: wptrs_def)
  then have ds: "distinct (wptrs ?s)" using d by (metis mset_eq_imp_distinct_iff)
  have 0: "goes th (M, x\<lparr>wpc := Run Return\<rparr>) (M, lockWSet_from ?s 0)"
    by (rule goes_step [OF _ goes_refl]) (simp add: run_step_def run_query_def start_commit_def lockWSet_from_def)
  obtain M1 where M1: "goes th (M, lockWSet_from ?s 0) (M1, ?s\<lparr>maxWrite := foldl max (maxWrite x) (map (tid_at M) (wptrs ?s)), wpc := LoadEpoch\<rparr>)"
    "same_index M M1" "\<And>p. record_at M1 p = (if p \<in> set (wptrs x) then map_option lock_record (record_at M p) else record_at M p)"
    using goes_lock [OF ds, of 0 M th] w set_s by auto
  let ?y1 = "?s\<lparr>maxWrite := foldl max (maxWrite x) (map (tid_at M) (wptrs ?s))\<rparr>" and ?e = "E (env M)"
  have 2: "goes th (M1, ?y1\<lparr>wpc := LoadEpoch\<rparr>) (M1, ?y1\<lparr>wpc := ValidateRead ?e 0\<rparr>)"
    by (rule goes_step [OF _ goes_refl]) (use M1(2) in \<open>simp add: run_step_def same_index_def\<close>)
  have "\<forall>e \<in> set (RSet x). fst e \<noteq> NULL \<and> (\<exists>r. record_at M1 (fst e) = Some r \<and> tid (snd e) = tid (kv_tid r) \<and> latest (kv_tid r) \<and>
       (lock (kv_tid r) \<longrightarrow> fst e \<in> set (wptrs x)))"
    using rd M1(3) by (fastforce simp: lock_record_def)
  then have 3: "goes th (M1, ?y1\<lparr>wpc := ValidateRead ?e 0\<rparr>)
    (M1, ?y1\<lparr>maxRead := foldl max (maxRead x) (map (tid_at M1 \<circ> fst) (RSet x)), wpc := ValidateRead ?e (length (RSet x))\<rparr>)"
    using goes_validate [of 0 ?y1 M1 th ?e] set_s by simp
  let ?y2 = "?y1\<lparr>maxRead := foldl max (maxRead x) (map (tid_at M1 \<circ> fst) (RSet x))\<rparr>"
  have seen: "(tid_at M1 \<circ> fst) e = (tid_seen M x \<circ> fst) e" if "e \<in> set (RSet x)" for e
    using that rd M1(3) by (fastforce simp: tid_at_def tid_seen_def lock_record_def)
  then have "commit_tid ?y2 ?e = ?T"
    by (intro commit_tid_cong) (simp_all add: all_seen_def wptrs_def cong: map_cong)
  then have 4: "goes th (M1, ?y2\<lparr>wpc := ValidateRead ?e (length (RSet x))\<rparr>) (M1, install_from (?y2\<lparr>recentTid := ?T\<rparr>) 0 ?T)"
    by (intro goes_step [OF _ goes_refl]) (simp add: run_step_def validate_read_def Let_def install_from_def commit_tid_def)
  have "\<forall>p \<in> set (wptrs x). record_at M1 p \<noteq> None" using w M1(3) by fastforce
  then obtain M2 where M2: "goes th (M1, install_from (?y2\<lparr>recentTid := ?T\<rparr>) 0 ?T) (M2, ?y2\<lparr>recentTid := ?T, WSet := [], RSet := [], result := addCommit (result x), wpc := CheckStop\<rparr>)"
    "same_index M1 M2" "\<And>p. record_at M2 p = (case map_of (sort (WSet x)) p of None \<Rightarrow> record_at M1 p | Some v \<Rightarrow> Some \<lparr>kv_tid = ?T, kv_value = v\<rparr>)"
    using goes_install [of "?y2\<lparr>recentTid := ?T\<rparr>" 0 M1 th ?T] ds set_s by auto
  have "record_at M2 p = (case map_of (WSet x) p of None \<Rightarrow> record_at M p | Some v \<Rightarrow> Some \<lparr>kv_tid = ?T, kv_value = v\<rparr>)" for p
  proof (cases "map_of (WSet x) p")
    case None
    then have "p \<notin> set (wptrs x)" by (simp add: wptrs_def map_of_eq_None_iff)
    then show ?thesis using M2(3) [of p] M1(3) [of p] map_of_sort [of "WSet x"] d None by (simp add: wptrs_def)
  next
    case (Some v)
    then show ?thesis using M2(3) [of p] map_of_sort [of "WSet x"] d by (simp add: wptrs_def)
  qed
  moreover have "same_index M M2" using M1(2) M2(2) by (rule same_index_trans)
  moreover have "goes th (M, x\<lparr>wpc := Run Return\<rparr>) (M2, ?y2\<lparr>recentTid := ?T, WSet := [], RSet := [], result := addCommit (result x), wpc := CheckStop\<rparr>)"
    by (rule goes_trans [OF 0 goes_trans [OF _ goes_trans [OF 2 goes_trans [OF 3 goes_trans [OF 4 M2(1)]]]]]) (use M1(1) in simp)
  ultimately show ?thesis by (intro exI [of _ M2] exI) (auto simp: )
qed

end
