(* ===== verification/KVSilo_Runs.thy ===== *)
theory KVSilo_Runs
  imports KVSilo_Solo
begin


text \<open>
  Runs of the key-value store: what stays of its index, what becomes of the queries, transactions that lock a record
  twice, and the run of a single transaction from its start to its commit.
\<close>

section \<open>The index in a run\<close>

definition ptr_of :: "memory \<Rightarrow> Key \<Rightarrow> addr" where
  "ptr_of M k = (case find_pt (tree M) k of Some (p, _) \<Rightarrow> p | None \<Rightarrow> NULL)"

definition value_of :: "database \<Rightarrow> Key \<Rightarrow> int option" where
  "value_of D k = map_option kv_value (record_at (mem D) (ptr_of (mem D) k))"

abbreviation (input) "key_ok k \<equiv> 1 \<le> (k :: Key) \<and> k \<le> 8"

definition keys_ok :: "memory \<Rightarrow> bool" where
  "keys_ok M \<longleftrightarrow> (\<forall>k. \<exists>leaf. find_pt (tree M) k = Some (ptr_of M k, leaf)) \<and> (\<forall>k. ptr_of M k \<noteq> NULL \<longleftrightarrow> key_ok k) \<and>
    (\<forall>k. key_ok k \<longrightarrow> record_at M (ptr_of M k) \<noteq> None) \<and> inj_on (ptr_of M) {k. key_ok k}"

lemma keys_ok_same:
  assumes "\<And>k. find_pt (tree M') k = find_pt (tree M) k" "\<And>p. record_at M' p = None \<longleftrightarrow> record_at M p = None" "keys_ok M"
  shows "keys_ok M'"
proof -
  have "ptr_of M' = ptr_of M" using assms(1) by (simp add: fun_eq_iff ptr_of_def)
  then show ?thesis using assms by (simp add: keys_ok_def)
qed

definition kv_inv :: "database \<Rightarrow> bool" where
  "kv_inv D \<longleftrightarrow> kv_ok D \<and> keys_ok (mem D)"

lemma kv_inv_event:
  assumes "kv_inv D"
  shows "kv_inv (exec_event ev D)"
proof -
  have ok: "kv_ok D" and k: "keys_ok (mem D)" using assms by (simp_all add: kv_inv_def)
  have "keys_ok (mem (exec_event ev D))"
  proof (cases ev)
    case (Work th ch)
    show ?thesis
    proof (cases "th < length (workers D)")
      case True
      obtain M' x' where s: "run_step th ch (mem D) (workers D ! th) = (M', x')" by fastforce
      have "workers D ! th \<in> set (workers D)" using True by simp
      then have w: "worker_ok (workers D ! th)" "ptr_ok (mem D) (workers D ! th)" "own_word (mem D) (workers D ! th)" "index_ok (mem D)"
        using ok unfolding kv_ok_def by blast+
      note e = run_effect [OF w s]
      have "keys_ok M'" by (rule keys_ok_same [OF effect_index [OF e] k])
      then show ?thesis by (simp add: exec_event_def Work True s)
    qed (simp add: exec_event_def Work k)
  next
    case (Lead now)
    obtain M' l' where l: "leader_step now (mem D) (the_leader D) = (M', l')" by fastforce
    then have "tree M' = tree (mem D)" by (rule leader_step_tree)
    then have "keys_ok M'" using record_at_tree [of M' "mem D"] by (intro keys_ok_same [OF _ _ k]) simp_all
    then show ?thesis by (simp add: exec_event_def Lead l)
  next
    case Stop
    have "keys_ok (mem (set_stop D))" by (rule keys_ok_same [OF _ _ k]) (simp_all add: set_stop_def)
    then show ?thesis by (simp add: exec_event_def Stop)
  qed (use k in \<open>simp_all add: exec_event_def executeTransaction_def Let_def\<close>)
  then show ?thesis using kv_ok_event [OF ok] by (simp add: kv_inv_def)
qed

lemma Database_holds:
  assumes "kv_init D"
  obtains n e now where "pt_holds (tree (mem D)) (\<lambda>k. if key_ok k then Some (Record (uint k)) else None)"
    "env (mem D) = \<lparr>E = e, workerE = replicate n 0, start_flag = True, stop_flag = False\<rparr>" "workers D = replicate n new_worker"
    "the_leader D = \<lparr>start_time = now, lpc = LeadStop\<rparr>" "the_logger D = LogWaitStart"
proof -
  obtain h e n now t where h: "is_map 4 h NULL Map.empty" "\<not> malloc_temps h" "PrimaryTree h = Some t" and
    D: "D = \<lparr>mem = \<lparr>tree = t, env = \<lparr>E = e, workerE = replicate n 0, start_flag = True, stop_flag = False\<rparr>\<rparr>,
      workers = replicate n new_worker, the_logger = LogWaitStart, the_leader = \<lparr>start_time = now, lpc = LeadStop\<rparr>\<rparr>"
    using assms by (auto simp: kv_init_def Database_def)
  have "pt_holds (new_tree h) Map.empty" using h by (simp add: pt_holds_def new_tree_def)
  from PrimaryTree_holds [OF this] h(3) show ?thesis by (intro that [of e n now]) (simp_all add: D)
qed

lemma kv_inv_init:
  assumes "kv_init D"
  shows "kv_inv D" "key_ok k \<Longrightarrow> record_at (mem D) (ptr_of (mem D) k) = Some (Record (uint k))"
proof -
  let ?m = "\<lambda>k :: Key. if key_ok k then Some (Record (uint k)) else None"
  obtain n e now where t: "pt_holds (tree (mem D)) ?m" using Database_holds [OF assms] by metis
  have p: "\<exists>leaf. find_pt (tree (mem D)) k = Some (ptr_of (mem D) k, leaf) \<and> (ptr_of (mem D) k \<noteq> NULL \<longleftrightarrow> key_ok k) \<and>
    (key_ok k \<longrightarrow> record_at (mem D) (ptr_of (mem D) k) = Some (Record (uint k)))" for k
    using find_pt_map [OF t, of k] by (auto simp: ptr_of_def record_at_def split: if_splits)
  have "inj_on (ptr_of (mem D)) {k. key_ok k}"
  proof (rule inj_onI)
    fix k k' assume k: "k \<in> {k. key_ok k}" "k' \<in> {k. key_ok k}" "ptr_of (mem D) k = ptr_of (mem D) k'"
    obtain l l' where "find_pt (tree (mem D)) k = Some (ptr_of (mem D) k, l)" "find_pt (tree (mem D)) k' = Some (ptr_of (mem D) k, l')"
      using p [of k] p [of k'] k(3) by auto
    then show "k = k'" using map_index(2) [of 4 "pheap (tree (mem D))" "proot (tree (mem D))" ?m k "ptr_of (mem D) k" l k' l'] t p [of k] k(1)
      by (simp add: pt_holds_def find_pt_eq)
  qed
  then have "keys_ok (mem D)" using p unfolding keys_ok_def by fastforce
  then show "kv_inv D" using kv_ok_init [OF assms] by (simp add: kv_inv_def)
  show "key_ok k \<Longrightarrow> record_at (mem D) (ptr_of (mem D) k) = Some (Record (uint k))" using p [of k] by simp
qed

interpretation kv_run: invariant_of kv_init kv_step kv_inv
  by unfold_locales (auto intro: kv_inv_init kv_inv_event elim: kv_stepE)

lemma exec_events_inv: "kv_inv D \<Longrightarrow> kv_inv (exec_events evs D)"
  by (induction evs arbitrary: D) (auto simp: exec_events_def intro: kv_inv_event)

lemma exec_events_reachable: "reachable kv_init kv_step D \<Longrightarrow> reachable kv_init kv_step (exec_events evs D)"
  by (induction evs arbitrary: D) (auto simp: exec_events_def intro: reachable.move kv_step.intros)


section \<open>Queries and their counts\<close>

definition in_flight :: "Worker \<Rightarrow> nat" where
  "in_flight x = (case wpc x of WaitStart \<Rightarrow> 0 | CheckStop \<Rightarrow> 0 | TryDequeue \<Rightarrow> 0 | CheckStopInner \<Rightarrow> 0 | Finished \<Rightarrow> 0 | _ \<Rightarrow> 1)"

definition account :: "Worker \<Rightarrow> 64 word" where
  "account x = word_of_nat (length (waitingQueries x)) + word_of_nat (in_flight x) + n_commits (result x) + n_aborts (result x)"

lemma worker_account:
  assumes "run_step th ch M x = (M', x')"
  shows "account x' = account x"
proof (cases "wpc x")
  case (Run q)
  then show ?thesis using assms
    by (cases q) (auto simp: run_step_def run_query_def start_commit_def lockWSet_from_def read_find_def write_kv_def account_def in_flight_def split: option.splits)
qed (use assms in \<open>auto simp: run_step_def read_tid_word_def read_data_def read_again_def lockWSet_load_def lockWSet_try_def lockWSet_from_def
      unlockWSet_load_def unlockWSet_store_def unlockWSet_from_def validate_read_def install_value_def install_tid_def install_from_def Let_def
      try_dequeue_def Transaction_def deref_def account_def in_flight_def addAbort_def addCommit_def min_def of_nat_diff
      split: option.splits if_splits prod.splits\<close>)

definition is_submit :: "event \<Rightarrow> bool" where
  "is_submit ev \<longleftrightarrow> (case ev of Submit _ _ \<Rightarrow> True | _ \<Rightarrow> False)"

definition accounted :: "database \<Rightarrow> 64 word" where
  "accounted D = sum_list (map account (workers D))"

lemma sum_list_update: "i < length xs \<Longrightarrow> sum_list (map f (xs[i := y])) = sum_list (map f xs) - f (xs ! i) + (f y :: 'a :: ab_group_add)"
proof (induction xs arbitrary: i)
  case (Cons a xs)
  then show ?case by (cases i) (simp_all add: algebra_simps)
qed simp

lemma event_accounted:
  assumes "workers D \<noteq> []"
  shows "accounted (exec_event ev D) = accounted D + (if is_submit ev then 1 else 0)" "workers (exec_event ev D) \<noteq> []"
proof -
  have "accounted (exec_event ev D) = accounted D + (if is_submit ev then 1 else 0) \<and> workers (exec_event ev D) \<noteq> []"
  proof (cases ev)
    case (Work th ch)
    then show ?thesis using assms worker_account [of th ch "mem D" "workers D ! th"]
      by (auto simp: exec_event_def accounted_def sum_list_update is_submit_def split: prod.split)
  next
    case (Submit r q)
    have "account (addQueryToQueue x q) = account x + 1" for x by (simp add: account_def addQueryToQueue_def in_flight_def)
    then show ?thesis using assms Submit
      by (auto simp: exec_event_def executeTransaction_def Let_def accounted_def sum_list_update is_submit_def)
  qed (use assms in \<open>auto simp: exec_event_def accounted_def is_submit_def set_stop_def split: prod.split\<close>)
  then show "accounted (exec_event ev D) = accounted D + (if is_submit ev then 1 else 0)" "workers (exec_event ev D) \<noteq> []" by blast+
qed

lemma events_accounted:
  "workers D \<noteq> [] \<Longrightarrow> accounted (exec_events evs D) = accounted D + word_of_nat (length (filter is_submit evs))"
  by (induction evs arbitrary: D) (simp_all add: exec_events_def event_accounted)

section \<open>A transaction that writes a record twice\<close>

text \<open>Waiting for a lock with a record twice in the write set.\<close>

definition double_locking :: "Worker \<Rightarrow> bool" where
  "double_locking x \<longleftrightarrow> \<not> distinct (wptrs x) \<and> (case wpc x of Run Return \<Rightarrow> True | LoadLock i \<Rightarrow> True | TryLock i e \<Rightarrow> True | _ \<Rightarrow> False)"

lemma double_locking_step:
  assumes "double_locking x" "worker_ok x" "index_ok M" "\<forall>p \<in> kv_held x. kv_locked M p" "NULL \<notin> set (wptrs x)" "ptr_ok M x"
    "run_step th ch M x = (M', x')"
  shows "double_locking x' \<and> result x' = result x \<and> set (wptrs x') = set (wptrs x)"
proof -
  have ok': "worker_ok x'" by (rule worker_ok_step [OF assms(2,3,4,7)])
  have rec: "record_at M p \<noteq> None" if "p \<in> set (wptrs x)" for p using assms(5,6) that by (auto simp: ptr_ok_def)
  have "mset (map fst (sort (WSet x))) = mset (map fst (WSet x))" by simp
  then have srt: "distinct (map fst (sort (WSet x))) \<longleftrightarrow> distinct (wptrs x)" unfolding wptrs_def by (rule mset_eq_imp_distinct_iff)
  consider "wpc x = Run Return" | i where "wpc x = LoadLock i" | i e where "wpc x = TryLock i e"
    using assms(1) by (auto simp: double_locking_def split: wpc.splits query.splits)
  then show ?thesis
  proof cases
    case 1
    then have x': "x' = start_commit x" using assms(7) by (auto simp: run_step_def run_query_def)
    then have "wptrs x' = map fst (sort (WSet x))" by (simp add: start_commit_def lockWSet_from_def wptrs_def)
    moreover have "WSet x \<noteq> []" using assms(1) by (auto simp: double_locking_def wptrs_def)
    ultimately show ?thesis using assms(1) srt x'
      by (simp add: double_locking_def start_commit_def lockWSet_from_def) (simp add: wptrs_def)
  next
    case (2 i)
    then have i: "i < length (WSet x)" using assms(2) by (simp add: worker_ok_def)
    then obtain r where "record_at M (wptrs x ! i) = Some r" using rec [of "wptrs x ! i"] by (auto simp: nth_mem)
    then have "x' = x\<lparr>wpc := TryLock i (kv_tid r)\<rparr>" using 2 assms(7) i by (auto simp: run_step_def lockWSet_load_def deref_def wptrs_nth)
    then show ?thesis using assms(1) by (simp add: double_locking_def)
  next
    case (3 i e)
    then have i: "i < length (WSet x)" using assms(2) by (simp add: worker_ok_def)
    then obtain r where r: "record_at M (wptrs x ! i) = Some r" using rec [of "wptrs x ! i"] by (auto simp: nth_mem)
    then have "x' = x\<lparr>wpc := TryLock i (kv_tid r)\<rparr> \<or> (\<exists>w. x' = lockWSet_from (x\<lparr>maxWrite := w\<rparr>) (Suc i))"
      using 3 assms(7) i by (auto simp: run_step_def lockWSet_try_def deref_def wptrs_nth split: if_splits)
    then show ?thesis
    proof
      assume "x' = x\<lparr>wpc := TryLock i (kv_tid r)\<rparr>"
      then show ?thesis using assms(1) by (simp add: double_locking_def)
    next
      assume "\<exists>w. x' = lockWSet_from (x\<lparr>maxWrite := w\<rparr>) (Suc i)"
      then obtain w where x': "x' = lockWSet_from (x\<lparr>maxWrite := w\<rparr>) (Suc i)" by blast
      have "\<not> distinct (wptrs x)" using assms(1) by (simp add: double_locking_def)
      then have "Suc i < length (WSet x)" using ok' unfolding x' by (auto simp: lockWSet_from_def worker_ok_def split: if_splits)
      then show ?thesis using \<open>\<not> distinct (wptrs x)\<close> unfolding x' by (simp add: lockWSet_from_def double_locking_def)
    qed
  qed
qed


lemma double_locking_event:
  assumes "kv_inv D" "th < length (workers D)" "double_locking (workers D ! th)" "NULL \<notin> set (wptrs (workers D ! th))"
  shows "double_locking (workers (exec_event ev D) ! th) \<and> result (workers (exec_event ev D) ! th) = result (workers D ! th) \<and>
    NULL \<notin> set (wptrs (workers (exec_event ev D) ! th)) \<and> length (workers (exec_event ev D)) = length (workers D)"
proof (cases ev)
  case (Work t ch)
  show ?thesis
  proof (cases "t = th")
    case True
    obtain M' x' where s: "run_step th ch (mem D) (workers D ! th) = (M', x')" by fastforce
    have "workers D ! th \<in> set (workers D)" using assms(2) by simp
    then have w: "worker_ok (workers D ! th)" "ptr_ok (mem D) (workers D ! th)" "index_ok (mem D)" "\<forall>p \<in> kv_held (workers D ! th). kv_locked (mem D) p"
      using assms(1) unfolding kv_inv_def kv_ok_def by blast+
    from double_locking_step [OF assms(3) w(1,3,4) assms(4) w(2) s] assms(2,4) True Work s show ?thesis
      by (simp add: exec_event_def)
  next
    case False
    then show ?thesis using assms Work by (auto simp: exec_event_def split: prod.split)
  qed
next
  case (Submit r q)
  have "double_locking (addQueryToQueue x q) = double_locking x" "wptrs (addQueryToQueue x q) = wptrs x" "result (addQueryToQueue x q) = result x" for x
    by (simp_all add: double_locking_def addQueryToQueue_def wptrs_def)
  then show ?thesis using assms Submit
    by (cases "unat r mod length (workers D) = th") (auto simp: exec_event_def executeTransaction_def Let_def)
qed (use assms in \<open>auto simp: exec_event_def set_stop_def split: prod.split\<close>)

lemma double_locking_events:
  assumes "kv_inv D" "th < length (workers D)" "double_locking (workers D ! th)" "NULL \<notin> set (wptrs (workers D ! th))"
  shows "double_locking (workers (exec_events evs D) ! th) \<and> result (workers (exec_events evs D) ! th) = result (workers D ! th) \<and>
    length (workers (exec_events evs D)) = length (workers D)"
  using assms
proof (induction evs arbitrary: D)
  case (Cons ev evs)
  have e: "exec_events (ev # evs) D = exec_events evs (exec_event ev D)" by (simp add: exec_events_def)
  have d: "double_locking (workers (exec_event ev D) ! th)" "result (workers (exec_event ev D) ! th) = result (workers D ! th)"
    "NULL \<notin> set (wptrs (workers (exec_event ev D) ! th))" "length (workers (exec_event ev D)) = length (workers D)"
    using double_locking_event [OF Cons.prems] by blast+
  then have "th < length (workers (exec_event ev D))" using Cons.prems(2) by simp
  from Cons.IH [OF kv_inv_event [OF Cons.prems(1)] this d(1,3)] d(2,4) show ?case unfolding e by simp
qed (simp add: exec_events_def)

section \<open>Runs up to a query\<close>

lemma run_start:
  fixes r :: "32 word"
  assumes "th < length (workers D)" "workers D ! th = new_worker" "start_flag (env (mem D))" "\<not> stop_flag (env (mem D))" "unat r mod length (workers D) = th"
  shows "\<exists>evs ev. exec_events evs D = D\<lparr>mem := (mem D)\<lparr>env := ev\<rparr>, workers := (workers D)[th := new_worker\<lparr>wpc := Run q\<rparr>]\<rparr> \<and>
    E ev = E (env (mem D)) \<and> start_flag ev \<and> \<not> stop_flag ev"
proof -
  have ne: "workers D \<noteq> []" using assms(1) by auto
  let ?evs = "[Submit r q, Work th None, Work th None, Work th (Some 0), Work th None, Work th None]"
  have "exec_events ?evs D = D\<lparr>mem := (mem D)\<lparr>env := (env (mem D))\<lparr>workerE := (workerE (env (mem D)))[th := E (env (mem D))]\<rparr>\<rparr>,
     workers := (workers D)[th := new_worker\<lparr>wpc := Run q\<rparr>]\<rparr>"
    using assms ne
    by (simp add: exec_events_def exec_event_def executeTransaction_def Let_def run_step_def addQueryToQueue_def new_worker_def
        try_dequeue_def Transaction_def del: replicate.simps)
  then show ?thesis using assms(3,4) by (intro exI [of _ ?evs] exI) auto
qed

lemma goes_events:
  assumes "goes th (mem D, workers D ! th) (M', x')" "th < length (workers D)"
  shows "\<exists>evs. exec_events evs D = D\<lparr>mem := M', workers := (workers D)[th := x']\<rparr>"
  using goes_exec [OF assms] by blast

lemma readable_at_rest:
  assumes "kv_inv D" "\<forall>x \<in> set (workers D). kv_held x = {}" "key_ok k"
  obtains r leaf where "find_pt (tree (mem D)) k = Some (ptr_of (mem D) k, leaf)" "readable (mem D) (ptr_of (mem D) k) r"
proof -
  have k: "keys_ok (mem D)" and ok: "kv_ok D" using assms(1) by (simp_all add: kv_inv_def)
  obtain r where r: "record_at (mem D) (ptr_of (mem D) k) = Some r" using k assms(3) unfolding keys_ok_def by blast
  have "\<not> kv_locked (mem D) (ptr_of (mem D) k)" using ok assms(2) unfolding kv_ok_def by blast
  moreover have "latest (kv_tid r)" using ok r unfolding kv_ok_def by blast
  ultimately have "readable (mem D) (ptr_of (mem D) k) r" using r by (simp add: readable_def kv_locked_def)
  moreover obtain leaf where "find_pt (tree (mem D)) k = Some (ptr_of (mem D) k, leaf)" using k unfolding keys_ok_def by blast
  ultimately show ?thesis by (rule that [rotated])
qed


lemma commits_alone:
  assumes inv: "kv_inv D" and th: "th < length (workers D)" and q: "wpc (workers D ! th) = LoadE q"
    and rest: "\<forall>x \<in> set (workers D). kv_held x = {}" and m: "\<forall>k. key_ok k \<longrightarrow> value_of D k = Some (m k)"
    and keys: "\<forall>k \<in> set (query_reads q m) \<union> fst ` set (query_writes q m). key_ok k" and d: "distinct (map fst (query_writes q m))"
  shows "\<exists>n. let D' = exec_events (replicate n (Work th None)) D in
    wpc (workers D' ! th) = CheckStop \<and> result (workers D' ! th) = addCommit (result (workers D ! th)) \<and>
    (\<forall>k. key_ok k \<longrightarrow> value_of D' k = Some (case map_of (query_writes q m) k of None \<Rightarrow> m k | Some v \<Rightarrow> v))"
proof -
  let ?M = "mem D" and ?x = "workers D ! th"
  let ?M1 = "?M\<lparr>env := (env ?M)\<lparr>workerE := (workerE (env ?M))[th := E (env ?M)]\<rparr>\<rparr>" and ?P = "ptr_of ?M"
  let ?R = "\<lambda>k. the (record_at ?M (?P k))"
  have k: "keys_ok ?M" using inv by (simp add: kv_inv_def)
  have find: "\<exists>leaf. find_pt (tree ?M) k = Some (?P k, leaf)" for k using k unfolding keys_ok_def by blast
  have read: "readable ?M (?P k) (?R k)" "kv_value (?R k) = m k" "?P k \<noteq> NULL" if kk: "key_ok k" for k
  proof -
    obtain r leaf where r: "readable ?M (?P k) r" using readable_at_rest [OF inv rest kk] by blast
    then have "?R k = r" by (simp add: readable_def)
    then show "readable ?M (?P k) (?R k)" "kv_value (?R k) = m k" using r m kk by (auto simp: value_of_def readable_def)
    show "?P k \<noteq> NULL" using k kk unfolding keys_ok_def by blast
  qed
  have 1: "goes th (?M, ?x) (?M1, (Transaction ?x)\<lparr>wpc := Run q\<rparr>)"
  proof -
    have a: "run_step th None ?M ?x = (?M, ?x\<lparr>wpc := StoreWorkerE (E (env ?M)) q\<rparr>)" by (simp add: run_step_def q)
    have b: "run_step th None ?M (?x\<lparr>wpc := StoreWorkerE (E (env ?M)) q\<rparr>) = (?M1, (Transaction ?x)\<lparr>wpc := Run q\<rparr>)"
      by (simp add: run_step_def Transaction_def)
    show ?thesis by (rule goes_step [OF a goes_step [OF b goes_refl]])
  qed
  let ?y = "(Transaction ?x)\<lparr>RSet := map (\<lambda>k. (?P k, kv_tid (?R k))) (query_reads q m), WSet := map (\<lambda>w. (?P (fst w), snd w)) (query_writes q m)\<rparr>"
  have 2: "goes th (?M1, (Transaction ?x)\<lparr>wpc := Run q\<rparr>) (?M1, ?y\<lparr>wpc := Run Return\<rparr>)"
    using goes_query [of q m ?M1 ?P ?R th "Transaction ?x"] find read keys
    by (auto simp: readable_def Transaction_def)
  have inj: "inj_on ?P (set (map fst (query_writes q m)))"
    using k keys unfolding keys_ok_def by (auto intro: inj_on_subset)
  have "distinct (map ?P (map fst (query_writes q m)))" unfolding distinct_map using d inj by (simp add: distinct_map)
  then have dist: "distinct (wptrs ?y)" by (simp add: wptrs_def comp_def)
  have "\<exists>M' y. goes th (?M1, ?y\<lparr>wpc := Run Return\<rparr>) (M', y) \<and> wpc y = CheckStop \<and> result y = addCommit (result ?y) \<and> waitingQueries y = waitingQueries ?y \<and>
    same_index ?M1 M' \<and>
    (\<forall>p. record_at M' p = (case map_of (WSet ?y) p of None \<Rightarrow> record_at ?M1 p | Some v \<Rightarrow> Some \<lparr>kv_tid = commit_tid (all_seen ?M1 ?y) (E (env ?M1)), kv_value = v\<rparr>))"
  proof (rule goes_commit [OF dist])
    show "\<forall>p \<in> set (wptrs ?y). \<exists>r. record_at ?M1 p = Some r \<and> \<not> lock (kv_tid r)"
      using read(1) keys by (auto simp: wptrs_def readable_def)
    show "\<forall>e \<in> set (RSet ?y). fst e \<noteq> NULL \<and> (\<exists>r. record_at ?M1 (fst e) = Some r \<and> tid (snd e) = tid (kv_tid r) \<and> latest (kv_tid r) \<and> \<not> lock (kv_tid r))"
    proof
      fix e assume "e \<in> set (RSet ?y)"
      then obtain k where e: "e = (?P k, kv_tid (?R k))" and "k \<in> set (query_reads q m)" by auto
      then have "key_ok k" using keys by blast
      from read [OF this] show "fst e \<noteq> NULL \<and> (\<exists>r. record_at ?M1 (fst e) = Some r \<and> tid (snd e) = tid (kv_tid r) \<and> latest (kv_tid r) \<and> \<not> lock (kv_tid r))"
        unfolding e readable_def record_at_env fst_conv snd_conv by blast
    qed
  qed
  then obtain M' y where c: "goes th (?M1, ?y\<lparr>wpc := Run Return\<rparr>) (M', y)" "wpc y = CheckStop" "result y = addCommit (result ?y)" "same_index ?M1 M'"
    and r: "\<And>p. record_at M' p = (case map_of (WSet ?y) p of None \<Rightarrow> record_at ?M1 p | Some v \<Rightarrow> Some \<lparr>kv_tid = commit_tid (all_seen ?M1 ?y) (E (env ?M1)), kv_value = v\<rparr>)"
    by blast
  have res: "result ?y = result ?x" by (simp add: Transaction_def)
  from goes_exec [OF goes_trans [OF 1 goes_trans [OF 2 c(1)]] th] obtain n where
    n: "exec_events (replicate n (Work th None)) D = D\<lparr>mem := M', workers := (workers D)[th := y]\<rparr>" by blast
  have val: "value_of (D\<lparr>mem := M', workers := (workers D)[th := y]\<rparr>) k = Some (case map_of (query_writes q m) k of None \<Rightarrow> m k | Some v \<Rightarrow> v)" if kk: "key_ok k" for k
  proof -
    have P: "ptr_of M' k = ?P k" using c(4) by (simp add: ptr_of_def same_index_def)
    have "map_of (WSet ?y) (?P k) = map_of (query_writes q m) k"
    proof (cases "map_of (query_writes q m) k")
      case None
      have "?P k \<noteq> ?P (fst w)" if "w \<in> set (query_writes q m)" for w
      proof
        assume "?P k = ?P (fst w)"
        then have "k = fst w" using k keys kk that unfolding keys_ok_def by (auto dest: inj_onD)
        then show False using None that by (force simp: map_of_eq_None_iff)
      qed
      then have "?P k \<notin> fst ` set (WSet ?y)" by fastforce
      then have "map_of (WSet ?y) (?P k) = None" by (simp only: map_of_eq_None_iff) simp
      then show ?thesis by (simp only: None)
    next
      case (Some v)
      then have "(?P k, v) \<in> set (WSet ?y)" by (force dest: map_of_SomeD)
      then show ?thesis using dist Some by (simp add: wptrs_def)
    qed
    then show ?thesis using r [of "?P k"] m kk P by (auto simp: value_of_def split: option.split)
  qed
  show ?thesis using n c(2,3) res th val by (intro exI [of _ n]) (simp add: Let_def)
qed

end
