(* ===== verification/KVSilo_Props.thy ===== *)
theory KVSilo_Props
  imports KVSilo_Runs
begin


text \<open>
  The properties of the key-value store \<^verbatim>\<open>kvsilo\<close>, on its step relation, with an instance of each.
\<close>

section \<open>Two clients of \<^verbatim>\<open>main.cpp\<close>\<close>

text \<open>The queries of the two groups of client threads: \<open>transfer 5 6\<close> and \<open>transfer 6 5\<close>.\<close>

definition transfer :: "Key \<Rightarrow> Key \<Rightarrow> query" where
  "transfer a b = ReadQ a (\<lambda>value. WriteQ a (value - 1) (ReadQ b (\<lambda>value2. WriteQ b (value2 + 1) Return)))"

lemma epoch_max: "epoch a < e \<Longrightarrow> \<forall>w \<in> set ws. epoch w < e \<Longrightarrow> epoch (foldl max a ws) < e"
  by (induction ws arbitrary: a) (auto simp: max_def)

text \<open>The first commit of an epoch later than all that was read has counter 0.\<close>

lemma commit_tid_new_epoch:
  assumes "epoch (maxWrite x) < e" "epoch (maxRead x) < e" "epoch (recentTid x) < e"
  shows "tid (commit_tid x e) = 0" "epoch (commit_tid x e) = e"
proof -
  have "max (maxWrite x) (maxRead x) \<in> {maxWrite x, maxRead x}" by (auto simp: max_def)
  then have "epoch (tid_incr (max (maxWrite x) (maxRead x))) < e" "epoch (tid_incr (recentTid x)) < e"
    using assms by auto
  then have "tid_incr (max (maxWrite x) (maxRead x)) < set_epoch e TidWord0" "tid_incr (recentTid x) < set_epoch e TidWord0"
    by (auto intro!: less_epoch)
  then have "max (max (tid_incr (max (maxWrite x) (maxRead x))) (tid_incr (recentTid x))) (set_epoch e TidWord0) = set_epoch e TidWord0"
    by (intro max.absorb4) (simp add: max.strict_coboundedI1 max_less_iff_conj)
  then show "tid (commit_tid x e) = 0" "epoch (commit_tid x e) = e" by (simp_all add: commit_tid_def Let_def TidWord0_def)
qed

lemma TidWord0_fields [simp]: "tid TidWord0 = 0" "epoch TidWord0 = 0" "\<not> lock TidWord0" "latest TidWord0"
  by (simp_all add: TidWord0_def)

lemma commit_tid_status [simp]: "\<not> lock (commit_tid x e)" "latest (commit_tid x e)"
  by (simp_all add: commit_tid_def Let_def)

text \<open>The state when both workers have their queries, for any initial state with two workers.\<close>

lemma two_started:
  assumes "kv_init D" "length (workers D) = 2"
  shows "\<exists>evs ev. exec_events evs D = D\<lparr>mem := (mem D)\<lparr>env := ev\<rparr>, workers := [new_worker\<lparr>wpc := Run q0\<rparr>, new_worker\<lparr>wpc := Run q1\<rparr>]\<rparr> \<and>
    E ev = E (env (mem D))"
proof -
  obtain n e now where D: "env (mem D) = \<lparr>E = e, workerE = replicate n 0, start_flag = True, stop_flag = False\<rparr>" "workers D = replicate n new_worker"
    using Database_holds [OF assms(1)] by metis
  then have w: "workers D = [new_worker, new_worker]" using assms(2) by (simp add: eval_nat_numeral)
  obtain evs ev where 1: "exec_events evs D = D\<lparr>mem := (mem D)\<lparr>env := ev\<rparr>, workers := [new_worker\<lparr>wpc := Run q0\<rparr>, new_worker]\<rparr>"
    "E ev = e" "start_flag ev" "\<not> stop_flag ev"
    using run_start [of 0 D 0 q0] D(1) w by auto
  let ?D = "D\<lparr>mem := (mem D)\<lparr>env := ev\<rparr>, workers := [new_worker\<lparr>wpc := Run q0\<rparr>, new_worker]\<rparr>"
  obtain evs' ev' where 2: "exec_events evs' ?D = ?D\<lparr>mem := (mem D)\<lparr>env := ev'\<rparr>, workers := [new_worker\<lparr>wpc := Run q0\<rparr>, new_worker\<lparr>wpc := Run q1\<rparr>]\<rparr>" "E ev' = e"
    using run_start [of 1 ?D 1 q1] 1(2-4) by auto
  have "exec_events (evs @ evs') D = D\<lparr>mem := (mem D)\<lparr>env := ev'\<rparr>, workers := [new_worker\<lparr>wpc := Run q0\<rparr>, new_worker\<lparr>wpc := Run q1\<rparr>]\<rparr>"
    by (simp add: exec_events_append 1(1) 2(1))
  with 2(2) D(1) show ?thesis by (metis SiloEnv.select_convs(1))
qed

lemma transfers_collide:
  assumes init: "kv_init D" and two: "length (workers D) = 2" and e: "E (env (mem D)) \<noteq> 0"
  shows "\<exists>evs. let D' = exec_events evs D in total_result D' = \<lparr>n_aborts = 0, n_commits = 2\<rparr> \<and>
    value_of D' 5 = Some 4 \<and> value_of D' 6 = Some 6"
proof -
  let ?q0 = "transfer 5 6" and ?q1 = "transfer 6 5" and ?e = "E (env (mem D))"
  obtain evs ev where 1: "exec_events evs D = D\<lparr>mem := (mem D)\<lparr>env := ev\<rparr>, workers := [new_worker\<lparr>wpc := Run ?q0\<rparr>, new_worker\<lparr>wpc := Run ?q1\<rparr>]\<rparr>"
    "E ev = ?e" using two_started [OF init two, of ?q0 ?q1] by metis
  let ?M = "(mem D)\<lparr>env := ev\<rparr>" and ?P = "ptr_of (mem D)"
  have k: "keys_ok (mem D)" using kv_inv_init(1) [OF init] by (simp add: kv_inv_def)
  obtain l5 l6 where find: "find_pt (tree (mem D)) 5 = Some (?P 5, l5)" "find_pt (tree (mem D)) 6 = Some (?P 6, l6)"
    using k unfolding keys_ok_def by metis
  then have fM: "find_pt (tree ?M) 5 = Some (?P 5, l5)" "find_pt (tree ?M) 6 = Some (?P 6, l6)" by simp_all
  have rec: "record_at ?M (?P 5) = Some (Record 5)" "record_at ?M (?P 6) = Some (Record 6)"
    using kv_inv_init(2) [OF init, of 5] kv_inv_init(2) [OF init, of 6] by simp_all
  have P: "?P 5 \<noteq> ?P 6" "?P 5 \<noteq> NULL" "?P 6 \<noteq> NULL"
    using k unfolding keys_ok_def by (auto dest: inj_onD [of _ _ 5 6])
  have r56: "readable ?M (?P 5) (Record 5)" "readable ?M (?P 6) (Record 6)" using rec by (simp_all add: readable_def Record_def)
  let ?x0 = "new_worker\<lparr>RSet := [(?P 5, TidWord0)], WSet := [(?P 5, 4)]\<rparr>"
  let ?c = "\<lambda>v. WriteQ 6 (v + 1) Return"
  have 2: "goes 0 (?M, new_worker\<lparr>wpc := Run ?q0\<rparr>) (?M, ?x0\<lparr>wpc := Run (ReadQ 6 ?c)\<rparr>)"
  proof (rule goes_trans)
    show "goes 0 (?M, new_worker\<lparr>wpc := Run ?q0\<rparr>) (?M, new_worker\<lparr>RSet := [(?P 5, TidWord0)], wpc := Run (WriteQ 5 4 (ReadQ 6 ?c))\<rparr>)"
      using goes_read [OF fM(1) r56(1), where th = 0 and x = new_worker and c = "\<lambda>v. WriteQ 5 (v - 1) (ReadQ 6 ?c)"]
      by (simp add: transfer_def new_worker_def Record_def)
    show "goes 0 (?M, new_worker\<lparr>RSet := [(?P 5, TidWord0)], wpc := Run (WriteQ 5 4 (ReadQ 6 ?c))\<rparr>) (?M, ?x0\<lparr>wpc := Run (ReadQ 6 ?c)\<rparr>)"
      using goes_write [OF fM(1), where th = 0 and x = "new_worker\<lparr>RSet := [(?P 5, TidWord0)]\<rparr>"] by (simp add: new_worker_def)
  qed
  text \<open>The second transaction runs from its start to its commit.\<close>
  let ?m = "\<lambda>k. if k = 5 then 5 else 6" and ?R = "\<lambda>k. if k = 5 then Record 5 else Record 6"
  let ?y = "new_worker\<lparr>RSet := [(?P 6, TidWord0), (?P 5, TidWord0)], WSet := [(?P 6, 5), (?P 5, 6)]\<rparr>"
  have 3: "goes 1 (?M, new_worker\<lparr>wpc := Run ?q1\<rparr>) (?M, ?y\<lparr>wpc := Run Return\<rparr>)"
    using goes_query [of ?q1 ?m ?M ?P ?R 1 new_worker] fM r56 by (simp add: transfer_def new_worker_def Record_def)
  let ?T = "commit_tid (all_seen ?M ?y) ?e"
  have tids: "tid_at ?M (?P 5) = TidWord0" "tid_at ?M (?P 6) = TidWord0" using rec by (simp_all add: tid_at_def Record_def)
  have T: "tid ?T = 0" "\<not> lock ?T" "latest ?T"
  proof -
    have pos: "epoch TidWord0 < ?e" using e by (simp add: word_gt_0)
    have "set (sort (WSet ?y)) = {(?P 6, 5), (?P 5, 6)}" by auto
    then have "\<forall>w \<in> set (map (tid_at ?M) (map fst (sort (WSet ?y)))). epoch w < ?e" using tids pos by simp
    then have "epoch (maxWrite (all_seen ?M ?y)) < ?e" unfolding all_seen_def using pos by (simp add: epoch_max new_worker_def)
    moreover have "epoch (maxRead (all_seen ?M ?y)) < ?e" unfolding all_seen_def using pos tids
      by (simp add: tid_seen_def new_worker_def max_def)
    moreover have "epoch (recentTid (all_seen ?M ?y)) < ?e" using pos by (simp add: all_seen_def new_worker_def)
    ultimately show "tid ?T = 0" by (rule commit_tid_new_epoch)
  qed simp_all
  have "\<exists>M' y. goes 1 (?M, ?y\<lparr>wpc := Run Return\<rparr>) (M', y) \<and> wpc y = CheckStop \<and> result y = addCommit (result ?y) \<and> waitingQueries y = waitingQueries ?y \<and>
    same_index ?M M' \<and>
    (\<forall>p. record_at M' p = (case map_of (WSet ?y) p of None \<Rightarrow> record_at ?M p | Some v \<Rightarrow> Some \<lparr>kv_tid = commit_tid (all_seen ?M ?y) (E (env ?M)), kv_value = v\<rparr>))"
    by (rule goes_commit) (use rec P in \<open>simp_all add: wptrs_def Record_def\<close>)
  then obtain M' y where 4: "goes 1 (?M, ?y\<lparr>wpc := Run Return\<rparr>) (M', y)" "result y = addCommit (result ?y)" "same_index ?M M'"
    and rec': "\<And>p. record_at M' p = (case map_of (WSet ?y) p of None \<Rightarrow> record_at ?M p | Some v \<Rightarrow> Some \<lparr>kv_tid = commit_tid (all_seen ?M ?y) (E (env ?M)), kv_value = v\<rparr>)"
    by blast
  have rec6: "record_at M' (?P 5) = Some \<lparr>kv_tid = ?T, kv_value = 6\<rparr>" "record_at M' (?P 6) = Some \<lparr>kv_tid = ?T, kv_value = 5\<rparr>"
    using rec' [of "?P 5"] rec' [of "?P 6"] P 1(2) by simp_all
  text \<open>The first transaction goes on with the new value of the second record.\<close>
  have fM': "find_pt (tree M') 5 = Some (?P 5, l5)" "find_pt (tree M') 6 = Some (?P 6, l6)" using 4(3) fM by (simp_all add: same_index_def)
  let ?x1 = "new_worker\<lparr>RSet := [(?P 5, TidWord0), (?P 6, ?T)], WSet := [(?P 5, 4), (?P 6, 6)]\<rparr>"
  have 5: "goes 0 (M', ?x0\<lparr>wpc := Run (ReadQ 6 ?c)\<rparr>) (M', ?x1\<lparr>wpc := Run Return\<rparr>)"
  proof (rule goes_trans)
    have "readable M' (?P 6) \<lparr>kv_tid = ?T, kv_value = 5\<rparr>" using rec6 T by (simp add: readable_def)
    from goes_read [OF fM'(2) this, where th = 0 and x = ?x0 and c = ?c]
    show "goes 0 (M', ?x0\<lparr>wpc := Run (ReadQ 6 ?c)\<rparr>) (M', ?x0\<lparr>RSet := [(?P 5, TidWord0), (?P 6, ?T)], wpc := Run (WriteQ 6 6 Return)\<rparr>)"
      by simp
    show "goes 0 (M', ?x0\<lparr>RSet := [(?P 5, TidWord0), (?P 6, ?T)], wpc := Run (WriteQ 6 6 Return)\<rparr>) (M', ?x1\<lparr>wpc := Run Return\<rparr>)"
      using goes_write [OF fM'(2), where th = 0 and x = "?x0\<lparr>RSet := [(?P 5, TidWord0), (?P 6, ?T)]\<rparr>"] by simp
  qed
  have "\<exists>M2 x. goes 0 (M', ?x1\<lparr>wpc := Run Return\<rparr>) (M2, x) \<and> wpc x = CheckStop \<and> result x = addCommit (result ?x1) \<and> waitingQueries x = waitingQueries ?x1 \<and>
    same_index M' M2 \<and>
    (\<forall>p. record_at M2 p = (case map_of (WSet ?x1) p of None \<Rightarrow> record_at M' p | Some v \<Rightarrow> Some \<lparr>kv_tid = commit_tid (all_seen M' ?x1) (E (env M')), kv_value = v\<rparr>))"
    by (rule goes_commit) (use rec6 P T in \<open>simp_all add: wptrs_def\<close>)
  then obtain M2 x where 6: "goes 0 (M', ?x1\<lparr>wpc := Run Return\<rparr>) (M2, x)" "result x = addCommit (result ?x1)" "same_index M' M2"
    and rec2: "\<And>p. record_at M2 p = (case map_of (WSet ?x1) p of None \<Rightarrow> record_at M' p | Some v \<Rightarrow> Some \<lparr>kv_tid = commit_tid (all_seen M' ?x1) (E (env M')), kv_value = v\<rparr>)"
    by blast
  text \<open>The three segments in the database.\<close>
  let ?D1 = "D\<lparr>mem := ?M, workers := [new_worker\<lparr>wpc := Run ?q0\<rparr>, new_worker\<lparr>wpc := Run ?q1\<rparr>]\<rparr>"
  let ?D2 = "D\<lparr>mem := ?M, workers := [?x0\<lparr>wpc := Run (ReadQ 6 ?c)\<rparr>, new_worker\<lparr>wpc := Run ?q1\<rparr>]\<rparr>"
  let ?D3 = "D\<lparr>mem := M', workers := [?x0\<lparr>wpc := Run (ReadQ 6 ?c)\<rparr>, y]\<rparr>" and ?D4 = "D\<lparr>mem := M2, workers := [x, y]\<rparr>"
  obtain es1 where es1: "exec_events es1 ?D1 = ?D2" using goes_events [of 0 ?D1 ?M] 2 by auto
  obtain es2 where es2: "exec_events es2 ?D2 = ?D3" using goes_events [of 1 ?D2 M' y] goes_trans [OF 3 4(1)] by auto
  obtain es3 where es3: "exec_events es3 ?D3 = ?D4" using goes_events [of 0 ?D3 M2 x] goes_trans [OF 5 6(1)] by auto
  have "exec_events (evs @ es1 @ es2 @ es3) D = ?D4" by (simp add: exec_events_append 1(1) es1 es2 es3)
  moreover have "total_result ?D4 = \<lparr>n_aborts = 0, n_commits = 2\<rparr>"
    by (simp add: total_result_def 4(2) 6(2) addCommit_def collect_def new_worker_def)
  moreover have "ptr_of M2 k = ?P k" for k using 4(3) 6(3) by (simp add: ptr_of_def same_index_def)
  then have "value_of ?D4 5 = Some 4" "value_of ?D4 6 = Some 6" using rec2 [of "?P 5"] rec2 [of "?P 6"] P by (simp_all add: value_of_def)
  ultimately show ?thesis by (intro exI [of _ "evs @ es1 @ es2 @ es3"]) (simp add: Let_def)
qed


section \<open>States to apply the properties to\<close>

definition store0 :: database where
  "store0 = the (Database cxx_heap 1 2 0)"

lemma store0: "kv_init store0" "length (workers store0) = 2" "E (env (mem store0)) = 1" "lpc (the_leader store0) = LeadStop" "start_time (the_leader store0) = 0"
proof -
  obtain t where t: "PrimaryTree cxx_heap = Some t" using PrimaryTree_holds [OF cxx_holds] by blast
  have h: "is_map 4 (cxx_heap :: (Key, kv_record) heap) NULL Map.empty" "\<not> malloc_temps (cxx_heap :: (Key, kv_record) heap)" using cxx_holds by (simp_all add: pt_holds_def new_tree_def)
  then show "kv_init store0" unfolding kv_init_def store0_def using t
    by (intro exI [of _ cxx_heap] exI [of _ 1] exI [of _ 2] exI [of _ 0]) (simp add: Database_def)
  show "length (workers store0) = 2" "E (env (mem store0)) = 1" "lpc (the_leader store0) = LeadStop" "start_time (the_leader store0) = 0"
    by (simp_all add: store0_def Database_def t)
qed

text \<open>Worker 0 about to commit a transaction that reads and writes given keys.\<close>

lemma reach_return:
  assumes "set (query_reads q m) \<union> fst ` set (query_writes q m) \<subseteq> {k. key_ok k}" "\<forall>k. key_ok k \<longrightarrow> m k = uint k"
  shows "\<exists>evs M P x. exec_events evs store0 = store0\<lparr>mem := M, workers := [x\<lparr>wpc := Run Return\<rparr>, new_worker\<lparr>wpc := Run Return\<rparr>]\<rparr> \<and>
    inj_on P {k. key_ok k} \<and> (\<forall>k. key_ok k \<longrightarrow> P k \<noteq> NULL) \<and> (\<forall>k. key_ok k \<longrightarrow> record_at M (P k) = Some (Record (uint k))) \<and>
    x = new_worker\<lparr>RSet := map (\<lambda>k. (P k, TidWord0)) (query_reads q m), WSet := map (\<lambda>w. (P (fst w), snd w)) (query_writes q m)\<rparr>"
proof -
  obtain evs ev where 1: "exec_events evs store0 = store0\<lparr>mem := (mem store0)\<lparr>env := ev\<rparr>, workers := [new_worker\<lparr>wpc := Run q\<rparr>, new_worker\<lparr>wpc := Run Return\<rparr>]\<rparr>"
    using two_started [OF store0(1,2), of q Return] by metis
  let ?M = "(mem store0)\<lparr>env := ev\<rparr>" and ?P = "ptr_of (mem store0)" and ?R = "\<lambda>k. Record (uint k)"
  have k: "keys_ok (mem store0)" using kv_inv_init(1) [OF store0(1)] by (simp add: kv_inv_def)
  have rec: "key_ok k \<Longrightarrow> record_at ?M (?P k) = Some (?R k)" for k using kv_inv_init(2) [OF store0(1)] by simp
  then have "key_ok k \<Longrightarrow> readable ?M (?P k) (?R k)" for k by (simp add: readable_def Record_def)
  moreover have "\<exists>leaf. find_pt (tree ?M) k = Some (?P k, leaf)" for k using k unfolding keys_ok_def by simp
  ultimately have "goes 0 (?M, new_worker\<lparr>wpc := Run q\<rparr>) (?M, (new_worker\<lparr>RSet := map (\<lambda>k. (?P k, TidWord0)) (query_reads q m),
      WSet := map (\<lambda>w. (?P (fst w), snd w)) (query_writes q m)\<rparr>)\<lparr>wpc := Run Return\<rparr>)"
    using goes_query [of q m ?M ?P ?R 0 new_worker] assms by (force simp: Record_def new_worker_def)
  then obtain evs' where "exec_events evs' (exec_events evs store0) = store0\<lparr>mem := ?M, workers := [(new_worker\<lparr>RSet := map (\<lambda>k. (?P k, TidWord0)) (query_reads q m),
      WSet := map (\<lambda>w. (?P (fst w), snd w)) (query_writes q m)\<rparr>)\<lparr>wpc := Run Return\<rparr>, new_worker\<lparr>wpc := Run Return\<rparr>]\<rparr>"
    unfolding 1 using goes_events [of 0 "store0\<lparr>mem := ?M, workers := [new_worker\<lparr>wpc := Run q\<rparr>, new_worker\<lparr>wpc := Run Return\<rparr>]\<rparr>"] by auto
  then show ?thesis using k rec unfolding keys_ok_def
    by (intro exI [of _ "evs @ evs'"] exI [of _ ?M] exI [of _ ?P] exI) (auto simp: exec_events_append)
qed


text \<open>Worker 0 with the lock of one record, about to read the epoch, and about to install.\<close>

lemma reach_locked:
  "\<exists>D p x r T. reachable kv_init kv_step D \<and> workers D = [x\<lparr>wpc := LoadEpoch\<rparr>, new_worker\<lparr>wpc := Run Return\<rparr>] \<and>
     WSet x = [(p, 50)] \<and> RSet x = [] \<and> record_at (mem D) p = Some r \<and> lock (kv_tid r) \<and> kv_value r = 5"
proof -
  let ?q = "WriteQ 5 50 Return"
  obtain evs M P x where 1: "exec_events evs store0 = store0\<lparr>mem := M, workers := [x\<lparr>wpc := Run Return\<rparr>, new_worker\<lparr>wpc := Run Return\<rparr>]\<rparr>"
    "\<forall>k. key_ok k \<longrightarrow> record_at M (P k) = Some (Record (uint k))" "x = new_worker\<lparr>RSet := [], WSet := [(P 5, 50)]\<rparr>"
    using reach_return [of ?q uint] by auto
  have r: "record_at M (P 5) = Some (Record 5)" using 1(2) by simp
  have 0: "goes 0 (M, x\<lparr>wpc := Run Return\<rparr>) (M, lockWSet_from x 0)"
    by (rule goes_step [OF _ goes_refl]) (simp add: run_step_def run_query_def start_commit_def lockWSet_from_def 1(3))
  obtain M' w where M': "goes 0 (M, lockWSet_from x 0) (M', x\<lparr>maxWrite := w, wpc := LoadEpoch\<rparr>)"
    "record_at M' (P 5) = Some (lock_record (Record 5))"
    using goes_lock [of x 0 M 0] r by (auto simp: 1(3) wptrs_def Record_def)
  have "goes 0 (M, x\<lparr>wpc := Run Return\<rparr>) (M', x\<lparr>maxWrite := w, wpc := LoadEpoch\<rparr>)" by (rule goes_trans [OF 0 M'(1)])
  then obtain evs' where 2: "exec_events evs' (exec_events evs store0) = store0\<lparr>mem := M', workers := [x\<lparr>maxWrite := w, wpc := LoadEpoch\<rparr>, new_worker\<lparr>wpc := Run Return\<rparr>]\<rparr>"
    unfolding 1(1) using goes_events [of 0 "store0\<lparr>mem := M, workers := [x\<lparr>wpc := Run Return\<rparr>, new_worker\<lparr>wpc := Run Return\<rparr>]\<rparr>"] by auto
  have "reachable kv_init kv_step (exec_events evs' (exec_events evs store0))"
    using exec_events_reachable reachable.start [of kv_init, OF store0(1)] by blast
  then show ?thesis unfolding 2 using M'(2)
    by (intro exI [of _ "store0\<lparr>mem := M', workers := [x\<lparr>maxWrite := w, wpc := LoadEpoch\<rparr>, new_worker\<lparr>wpc := Run Return\<rparr>]\<rparr>"]
        exI [of _ "P 5"] exI [of _ "x\<lparr>maxWrite := w\<rparr>"] exI [of _ "lock_record (Record 5)"]) (simp add: 1(3) lock_record_def Record_def)
qed

lemma reach_install:
  "\<exists>D p x r T. reachable kv_init kv_step D \<and> workers D = [x\<lparr>wpc := InstallValue 0 T\<rparr>, new_worker\<lparr>wpc := Run Return\<rparr>] \<and>
     WSet x = [(p, 50)] \<and> record_at (mem D) p = Some r \<and> kv_value r = 5"
proof -
  obtain D p x r where D: "reachable kv_init kv_step D" "workers D = [x\<lparr>wpc := LoadEpoch\<rparr>, new_worker\<lparr>wpc := Run Return\<rparr>]"
    "WSet x = [(p, 50)]" "RSet x = []" "record_at (mem D) p = Some r" "kv_value r = 5" using reach_locked by metis
  let ?e = "E (env (mem D))" let ?T = "commit_tid x ?e" let ?y = "x\<lparr>recentTid := ?T\<rparr>"
  let ?D = "D\<lparr>workers := [?y\<lparr>wpc := InstallValue 0 ?T\<rparr>, new_worker\<lparr>wpc := Run Return\<rparr>]\<rparr>"
  have a: "run_step 0 None (mem D) (x\<lparr>wpc := LoadEpoch\<rparr>) = (mem D, x\<lparr>wpc := ValidateRead ?e 0\<rparr>)"
    by (simp add: run_step_def)
  have b: "run_step 0 None (mem D) (x\<lparr>wpc := ValidateRead ?e 0\<rparr>) = (mem D, ?y\<lparr>wpc := InstallValue 0 ?T\<rparr>)"
    using D(3,4) by (simp add: run_step_def validate_read_def Let_def install_from_def commit_tid_def)
  have "goes 0 (mem D, x\<lparr>wpc := LoadEpoch\<rparr>) (mem D, ?y\<lparr>wpc := InstallValue 0 ?T\<rparr>)"
    by (rule goes_step [OF a goes_step [OF b goes_refl]])
  then obtain evs where "exec_events evs D = ?D" using goes_events [of 0 D "mem D" "?y\<lparr>wpc := InstallValue 0 ?T\<rparr>"] D(2) by auto
  with exec_events_reachable [OF D(1), of evs] have "reachable kv_init kv_step ?D" by simp
  then show ?thesis using D(3,5,6) by (intro exI [of _ ?D] exI [of _ p] exI [of _ ?y] exI [of _ r] exI [of _ ?T]) simp
qed



section \<open>The leader\<close>

lemma leader_scan:
  assumes "lpc (the_leader D) = LeadScan c e i" "i \<le> length (workerE (env (mem D)))"
  shows "exec_events (replicate (length (workerE (env (mem D))) - i + 2) (Lead now)) D =
    D\<lparr>mem := (mem D)\<lparr>env := (env (mem D))\<lparr>E := E (env (mem D)) + 1\<rparr>\<rparr>, the_leader := (the_leader D)\<lparr>start_time := c, lpc := LeadStop\<rparr>\<rparr>"
  using assms
proof (induction "length (workerE (env (mem D))) - i" arbitrary: D i)
  case 0
  then show ?case by (simp add: exec_events_def exec_event_def leader_step_def eval_nat_numeral)
next
  case (Suc n)
  let ?D = "D\<lparr>the_leader := (the_leader D)\<lparr>lpc := LeadScan c e (Suc i)\<rparr>\<rparr>"
  have "exec_event (Lead now) D = ?D" using Suc.prems Suc.hyps(2) by (simp add: exec_event_def leader_step_def)
  moreover have "length (workerE (env (mem D))) - i + 2 = Suc (length (workerE (env (mem ?D))) - Suc i + 2)" using Suc.hyps(2) by simp
  ultimately show ?case using Suc.hyps(1) [of ?D "Suc i"] Suc.hyps(2) Suc.prems by (simp add: exec_events_def)
qed

section \<open>Properties\<close>

text \<open>
  C22: in every reachable state a record of the store has its lock bit set exactly when some worker is between the
  successful compare-and-swap on it and the store that releases it, no two workers hold the same record, and every
  record is marked latest (the assertion of \<open>read\<close> never fails).
\<close>

theorem kv_locks_are_exclusive:
  assumes "reachable kv_init kv_step D"
  shows "(\<forall>a < length (workers D). \<forall>b < length (workers D). a \<noteq> b \<longrightarrow> kv_held (workers D ! a) \<inter> kv_held (workers D ! b) = {}) \<and>
    (\<forall>p. kv_locked (mem D) p \<longleftrightarrow> (\<exists>x \<in> set (workers D). p \<in> kv_held x)) \<and>
    (\<forall>p r. record_at (mem D) p = Some r \<longrightarrow> latest (kv_tid r))"
  using kv_locks.reachable_inv [OF assms] by (simp add: kv_ok_def)

theorem kv_locks_are_exclusive_witness:
  "\<exists>D x p. reachable kv_init kv_step D \<and> x \<in> set (workers D) \<and> p \<in> kv_held x \<and> kv_locked (mem D) p"
proof -
  obtain D p x r where D: "reachable kv_init kv_step D" "workers D = [x\<lparr>wpc := LoadEpoch\<rparr>, new_worker\<lparr>wpc := Run Return\<rparr>]" "WSet x = [(p, 50)]"
    using reach_locked by metis
  then have "p \<in> kv_held (x\<lparr>wpc := LoadEpoch\<rparr>)" by (simp add: kv_held_def wptrs_def)
  then have "\<exists>y \<in> set (workers D). p \<in> kv_held y" using D(2) by auto
  with kv_locks_are_exclusive [OF D(1)] D(1) show ?thesis by metis
qed

text \<open>
  C24: an event changes the value of a record, or its TID other than in the lock bit, only when the record is locked.
\<close>

theorem kv_records_change_under_lock:
  assumes "reachable kv_init kv_step D" "record_at (mem D) p = Some r" "record_at (mem (exec_event ev D)) p = Some r'"
    "kv_value r' \<noteq> kv_value r \<or> set_lock False (kv_tid r') \<noteq> set_lock False (kv_tid r)"
  shows "lock (kv_tid r)"
proof (cases ev)
  case (Work th ch)
  have ok: "kv_ok D" by (rule kv_locks.reachable_inv [OF assms(1)])
  have th: "th < length (workers D)" using assms Work by (auto simp: exec_event_def split: if_splits)
  obtain M' x' where s: "run_step th ch (mem D) (workers D ! th) = (M', x')" by fastforce
  have x: "workers D ! th \<in> set (workers D)" using th by simp
  then have w: "worker_ok (workers D ! th)" "ptr_ok (mem D) (workers D ! th)" "own_word (mem D) (workers D ! th)" "index_ok (mem D)"
    using ok unfolding kv_ok_def by blast+
  have "p \<in> kv_held (workers D ! th)" using run_effect [OF w s]
  proof (cases rule: record_effect.cases)
    case keep
    then show ?thesis using assms(2-4) s th Work record_at_tree [of M' "mem D"] by (simp add: exec_event_def)
  next
    case (acquire q r0)
    then show ?thesis using assms(2-4) s th Work by (auto simp: exec_event_def set_lock_def split: if_splits)
  qed (use assms(2-4) s th Work in \<open>auto simp: exec_event_def split: if_splits\<close>)
  then have "kv_locked (mem D) p" using ok x unfolding kv_ok_def by blast
  then show ?thesis using assms(2) by (simp add: kv_locked_def)
next
  case (Lead now)
  obtain M' l' where l: "leader_step now (mem D) (the_leader D) = (M', l')" by fastforce
  then have "record_at M' = record_at (mem D)" by (intro record_at_tree leader_step_tree)
  then show ?thesis using assms(2-4) Lead l by (simp add: exec_event_def)
next
  case (Submit r q)
  then show ?thesis using assms(2-4) by (auto simp: exec_event_def executeTransaction_def Let_def split: if_splits)
qed (use assms(2-4) in \<open>auto simp: exec_event_def set_stop_def\<close>)

theorem kv_records_change_under_lock_witness:
  "\<exists>D p r r'. reachable kv_init kv_step D \<and> record_at (mem D) p = Some r \<and> kv_value r = 5 \<and>
     record_at (mem (exec_event (Work 0 None) D)) p = Some r' \<and> kv_value r' = 50 \<and> lock (kv_tid r)"
proof -
  obtain D p x r T where D: "reachable kv_init kv_step D" "workers D = [x\<lparr>wpc := InstallValue 0 T\<rparr>, new_worker\<lparr>wpc := Run Return\<rparr>]"
    "WSet x = [(p, 50)]" "record_at (mem D) p = Some r" "kv_value r = 5" using reach_install by metis
  have r': "record_at (mem (exec_event (Work 0 None) D)) p = Some (r\<lparr>kv_value := 50\<rparr>)"
    using D by (simp add: exec_event_def run_step_def install_value_def deref_def)
  with kv_records_change_under_lock [OF D(1,4) r'] D show ?thesis
    by (intro exI [of _ D] exI [of _ p] exI [of _ r] exI [of _ "r\<lparr>kv_value := 50\<rparr>"]) simp
qed



text \<open>
  C27: the validation compares the counters of the TIDs and not their epochs, so a committed update gets lost: from every
  initial state with two workers and an epoch other than 0 there is a run in which one worker executes the transfer from
  5 to 6 of \<open>main\<close>, the other the transfer from 6 to 5, both commit and none aborts, and the values, 5 and 6 before, are
  4 and 6 afterwards. One after the other, in either order, they would leave 5 and 6.
\<close>

theorem committed_transfers_lose_an_update:
  assumes "kv_init D" "length (workers D) = 2" "E (env (mem D)) \<noteq> 0"
  shows "\<exists>evs. let D' = exec_events evs D in total_result D' = \<lparr>n_aborts = 0, n_commits = 2\<rparr> \<and>
    value_of D' 5 = Some 4 \<and> value_of D' 6 = Some 6"
  using assms by (rule transfers_collide)

theorem committed_transfers_lose_an_update_witness:
  "\<exists>evs. value_of (exec_events evs store0) 5 = Some 4 \<and> value_of (exec_events evs store0) 6 = Some 6"
  using committed_transfers_lose_an_update [OF store0(1,2)] store0(3) by (auto simp: Let_def)

text \<open>
  C28: a transaction that writes a key twice locks its record, then waits for the lock it holds itself: from a reachable
  state in which it is about to commit, no run lets it commit or abort, and the threads never all end, so \<open>terminate\<close>
  does not return.
\<close>

theorem writing_a_key_twice_never_ends:
  assumes "reachable kv_init kv_step D" "th < length (workers D)" "wpc (workers D ! th) = Run Return"
    "\<not> distinct (wptrs (workers D ! th))" "NULL \<notin> set (wptrs (workers D ! th))"
  shows "result (workers (exec_events evs D) ! th) = result (workers D ! th) \<and> \<not> all_joined (exec_events evs D)"
proof -
  have "double_locking (workers D ! th)" using assms(3,4) by (simp add: double_locking_def)
  from double_locking_events [OF kv_run.reachable_inv [OF assms(1)] assms(2) this assms(5), of evs]
  have d: "double_locking (workers (exec_events evs D) ! th)" "result (workers (exec_events evs D) ! th) = result (workers D ! th)"
    "th < length (workers (exec_events evs D))" using assms(2) by simp_all
  then have "workers (exec_events evs D) ! th \<in> set (workers (exec_events evs D))" by simp
  moreover have "wpc (workers (exec_events evs D) ! th) \<noteq> Finished" using d(1) by (auto simp: double_locking_def)
  ultimately show ?thesis using d(2) by (auto simp: all_joined_def)
qed

theorem writing_a_key_twice_never_ends_witness:
  "\<exists>D. reachable kv_init kv_step D \<and> (\<forall>evs. result (workers (exec_events evs D) ! 0) = result new_worker \<and> \<not> all_joined (exec_events evs D))"
proof -
  let ?q = "WriteQ 5 50 (WriteQ 5 51 Return)"
  obtain evs M P x where 1: "exec_events evs store0 = store0\<lparr>mem := M, workers := [x\<lparr>wpc := Run Return\<rparr>, new_worker\<lparr>wpc := Run Return\<rparr>]\<rparr>"
    "\<forall>k. key_ok k \<longrightarrow> P k \<noteq> NULL" "x = new_worker\<lparr>RSet := [], WSet := [(P 5, 50), (P 5, 51)]\<rparr>"
    using reach_return [of ?q uint] by auto
  let ?D = "store0\<lparr>mem := M, workers := [x\<lparr>wpc := Run Return\<rparr>, new_worker\<lparr>wpc := Run Return\<rparr>]\<rparr>"
  have r: "reachable kv_init kv_step ?D"
    using exec_events_reachable [OF reachable.start [of kv_init, OF store0(1)], of evs] 1(1) by simp
  have "result (workers (exec_events evs ?D) ! 0) = result (workers ?D ! 0) \<and> \<not> all_joined (exec_events evs ?D)" for evs
    by (rule writing_a_key_twice_never_ends [OF r]) (use 1(2) in \<open>simp_all add: 1(3) wptrs_def\<close>)
  then show ?thesis using r by (intro exI [of _ ?D]) (simp add: 1(3))
qed

text \<open>
  C29: no query is lost or counted twice: in every run, the queries waiting, the queries being run and the commits and
  aborts of the workers add up to the queries submitted (modulo \<open>2^64\<close>, the width of the counters).
\<close>

theorem queries_are_accounted_for:
  assumes "kv_init D" "workers D \<noteq> []"
  shows "(\<Sum>x \<leftarrow> workers (exec_events evs D). word_of_nat (length (waitingQueries x)) + word_of_nat (in_flight x) + n_commits (result x) + n_aborts (result x))
    = (word_of_nat (length (filter is_submit evs)) :: 64 word)"
proof -
  obtain n where "workers D = replicate n new_worker" using Database_holds [OF assms(1)] by metis
  then have "accounted D = 0" by (simp add: accounted_def account_def new_worker_def in_flight_def sum_list_replicate)
  moreover have "account = (\<lambda>x. word_of_nat (length (waitingQueries x)) + word_of_nat (in_flight x) + n_commits (result x) + n_aborts (result x))"
    by (simp add: fun_eq_iff account_def)
  ultimately show ?thesis using events_accounted [OF assms(2), of evs] by (simp add: accounted_def)
qed

theorem queries_are_accounted_for_witness:
  "(\<Sum>x \<leftarrow> workers (exec_events [Submit 0 Return, Work 0 None, Submit 1 Return] store0). word_of_nat (length (waitingQueries x)) + word_of_nat (in_flight x)
     + n_commits (result x) + n_aborts (result x)) = (2 :: 64 word)"
proof -
  have "workers store0 \<noteq> []" using store0(2) by auto
  from queries_are_accounted_for [OF store0(1) this, of "[Submit 0 Return, Work 0 None, Submit 1 Return]"] show ?thesis
    by (simp add: is_submit_def)
qed

text \<open>
  C30: the leader does not wait for the workers: when the time has come, \<open>length + 5\<close> of its steps raise the epoch, whatever
  the epochs of the workers are. The \<open>continue\<close> in the loop over the workers continues that loop and not the outer one.
\<close>

theorem leader_does_not_wait:
  assumes "lpc (the_leader D) = LeadStop" "\<not> stop_flag (env (mem D))" "40 \<le> now - start_time (the_leader D)"
  shows "env (mem (exec_events (replicate (length (workerE (env (mem D))) + 5) (Lead now)) D)) = (env (mem D))\<lparr>E := E (env (mem D)) + 1\<rparr>"
proof -
  let ?D = "D\<lparr>the_leader := (the_leader D)\<lparr>lpc := LeadScan now (E (env (mem D))) 0\<rparr>\<rparr>"
  have 3: "exec_events (replicate 3 (Lead now)) D = ?D"
    using assms by (simp add: exec_events_def exec_event_def leader_step_def eval_nat_numeral)
  have n: "length (workerE (env (mem D))) + 5 = 3 + (length (workerE (env (mem ?D))) - 0 + 2)" by simp
  have m: "exec_events (replicate (3 + m) (Lead now)) D = exec_events (replicate m (Lead now)) ?D" for m
    by (simp only: replicate_add exec_events_append 3)
  have "lpc (the_leader ?D) = LeadScan now (E (env (mem D))) 0" "0 \<le> length (workerE (env (mem ?D)))" by simp_all
  from leader_scan [OF this, of now] show ?thesis unfolding n m by simp
qed

theorem leader_does_not_wait_witness:
  "env (mem (exec_events (replicate (length (workerE (env (mem store0))) + 5) (Lead 40)) store0)) = (env (mem store0))\<lparr>E := 2\<rparr>"
proof -
  obtain n e where D: "env (mem store0) = \<lparr>E = e, workerE = replicate n 0, start_flag = True, stop_flag = False\<rparr>"
    using Database_holds [OF store0(1)] by metis
  then show ?thesis using leader_does_not_wait [of store0 40] store0(3-5) by simp
qed

end
