(* ===== verification/KVSilo_Serial.thy ===== *)
theory KVSilo_Serial
  imports KVSilo_Runs "HOL-Library.Multiset"
begin


text \<open>
  The key-value store with a single worker, under any events: the queries it has committed are executed one after
  another, none is aborted and none crashes.
\<close>

section \<open>Queries as functions on the values\<close>

definition apply_query :: "query \<Rightarrow> (Key \<Rightarrow> int) \<Rightarrow> Key \<Rightarrow> int" where
  "apply_query q m k = (case map_of (query_writes q m) k of None \<Rightarrow> m k | Some v \<Rightarrow> v)"

text \<open>A query that uses keys of the tree and writes each at most once, whatever it reads.\<close>

definition query_ok :: "query \<Rightarrow> bool" where
  "query_ok q \<longleftrightarrow> (\<forall>m. (\<forall>k \<in> set (query_reads q m) \<union> fst ` set (query_writes q m). key_ok k) \<and> distinct (map fst (query_writes q m)))"

section \<open>Where a worker is in its query\<close>

definition values_are :: "memory \<Rightarrow> (Key \<Rightarrow> int) \<Rightarrow> bool" where
  "values_are M m \<longleftrightarrow> (\<forall>k. key_ok k \<longrightarrow> map_option kv_value (record_at M (ptr_of M k)) = Some (m k))"

definition reads_current :: "memory \<Rightarrow> Worker \<Rightarrow> bool" where
  "reads_current M x \<longleftrightarrow> (\<forall>(p, t) \<in> set (RSet x). map_option (tid \<circ> kv_tid) (record_at M p) = Some (tid t))"

text \<open>The rest \<open>q'\<close> of the query \<open>q\<close> is left; and all of it is done.\<close>

definition progress :: "memory \<Rightarrow> Worker \<Rightarrow> (Key \<Rightarrow> int) \<Rightarrow> query \<Rightarrow> query \<Rightarrow> bool" where
  "progress M x m q q' \<longleftrightarrow> values_are M m \<and> reads_current M x \<and> (\<exists>ws. WSet x = map (\<lambda>w. (ptr_of M (fst w), snd w)) ws \<and>
     query_writes q m = ws @ query_writes q' m) \<and> (\<forall>k \<in> set (query_reads q' m) \<union> fst ` set (query_writes q' m). key_ok k)"

definition all_written :: "memory \<Rightarrow> Worker \<Rightarrow> (Key \<Rightarrow> int) \<Rightarrow> query \<Rightarrow> bool" where
  "all_written M x m q \<longleftrightarrow> set (WSet x) = (\<lambda>w. (ptr_of M (fst w), snd w)) ` set (query_writes q m) \<and> distinct (wptrs x)"

text \<open>The first \<open>n\<close> elements of the write set are installed.\<close>

definition installed :: "memory \<Rightarrow> Worker \<Rightarrow> nat \<Rightarrow> (Key \<Rightarrow> int) \<Rightarrow> bool" where
  "installed M x n m \<longleftrightarrow> (\<forall>k. key_ok k \<longrightarrow> map_option kv_value (record_at M (ptr_of M k)) =
     Some (case map_of (take n (WSet x)) (ptr_of M k) of None \<Rightarrow> m k | Some v \<Rightarrow> v))"

definition in_query :: "memory \<Rightarrow> Worker \<Rightarrow> (Key \<Rightarrow> int) \<Rightarrow> query \<Rightarrow> bool" where
  "in_query M x m q = (case wpc x of
      LoadE q' \<Rightarrow> values_are M m \<and> q' = q
    | StoreWorkerE e q' \<Rightarrow> values_are M m \<and> q' = q
    | Run q' \<Rightarrow> progress M x m q q'
    | ReadTid p c \<Rightarrow> \<exists>k. key_ok k \<and> p = ptr_of M k \<and> progress M x m q (ReadQ k c)
    | ReadValue p t c \<Rightarrow> \<exists>k. key_ok k \<and> p = ptr_of M k \<and> progress M x m q (ReadQ k c)
    | ReadAgain p t d c \<Rightarrow> \<exists>k. key_ok k \<and> p = ptr_of M k \<and> progress M x m q (ReadQ k c) \<and> d = m k
    | LoadLock i \<Rightarrow> values_are M m \<and> reads_current M x \<and> all_written M x m q
    | TryLock i e \<Rightarrow> values_are M m \<and> reads_current M x \<and> all_written M x m q
    | LoadEpoch \<Rightarrow> values_are M m \<and> reads_current M x \<and> all_written M x m q
    | ValidateRead e i \<Rightarrow> values_are M m \<and> reads_current M x \<and> all_written M x m q
    | InstallValue i T \<Rightarrow> installed M x i m \<and> all_written M x m q
    | InstallTid i T \<Rightarrow> installed M x (Suc i) m \<and> all_written M x m q
    | _ \<Rightarrow> False)"

definition idle :: "Worker \<Rightarrow> bool" where
  "idle x \<longleftrightarrow> wpc x \<in> {WaitStart, CheckStop, TryDequeue, CheckStopInner, Finished}"

section \<open>Its steps\<close>

lemma ptr_of_store [simp]: "ptr_of (store_record M p r) = ptr_of M"
  by (simp add: fun_eq_iff ptr_of_def)

lemma values_store_tid [simp]:
  "record_at M p = Some r \<Longrightarrow> values_are (store_record M p (r\<lparr>kv_tid := w\<rparr>)) m = values_are M m"
  "record_at M p = Some r \<Longrightarrow> installed (store_record M p (r\<lparr>kv_tid := w\<rparr>)) x n m = installed M x n m"
  by (auto simp: values_are_def installed_def)

lemma written_store [simp]: "all_written (store_record M p r) x m q = all_written M x m q"
  by (simp add: all_written_def)

lemma written_pc [simp]:
  "all_written M (x\<lparr>wpc := pc\<rparr>) m q = all_written M x m q" "installed M (x\<lparr>wpc := pc\<rparr>) n m = installed M x n m"
  "reads_current M (x\<lparr>wpc := pc\<rparr>) = reads_current M x" "progress M (x\<lparr>wpc := pc\<rparr>) m q q' = progress M x m q q'"
  "all_written M (x\<lparr>maxWrite := w\<rparr>) m q = all_written M x m q" "reads_current M (x\<lparr>maxWrite := w\<rparr>) = reads_current M x"
  "all_written M (x\<lparr>maxRead := w\<rparr>) m q = all_written M x m q" "reads_current M (x\<lparr>maxRead := w\<rparr>) = reads_current M x"
  "all_written M (x\<lparr>recentTid := w\<rparr>) m q = all_written M x m q" "installed M (x\<lparr>recentTid := w\<rparr>) n m = installed M x n m"
  by (simp_all add: all_written_def installed_def reads_current_def progress_def wptrs_def)

lemma reads_lock: "record_at M p = Some r \<Longrightarrow> reads_current (store_record M p (r\<lparr>kv_tid := set_lock b (kv_tid r)\<rparr>)) x = reads_current M x"
proof -
  assume "record_at M p = Some r"
  then have "map_option (tid \<circ> kv_tid) (record_at (store_record M p (r\<lparr>kv_tid := set_lock b (kv_tid r)\<rparr>)) p') = map_option (tid \<circ> kv_tid) (record_at M p')" for p'
    by simp
  then show ?thesis unfolding reads_current_def by (simp only:)
qed

lemma installed_0 [simp]: "installed M x 0 m = values_are M m"
  by (simp add: installed_def values_are_def)

lemma installed_all:
  assumes "keys_ok M" "query_ok q" "all_written M x m q" "installed M x (length (WSet x)) m"
  shows "values_are M (apply_query q m)"
proof -
  have inj: "inj_on (ptr_of M) {k. key_ok k}" using assms(1) by (simp add: keys_ok_def)
  have q: "\<forall>k \<in> fst ` set (query_writes q m). key_ok k" "distinct (map fst (query_writes q m))" using assms(2) by (auto simp: query_ok_def)
  have w: "set (WSet x) = (\<lambda>w. (ptr_of M (fst w), snd w)) ` set (query_writes q m)" "distinct (map fst (WSet x))"
    using assms(3) by (simp_all add: all_written_def wptrs_def)
  have "map_of (WSet x) (ptr_of M k) = map_of (query_writes q m) k" if k: "key_ok k" for k
  proof (cases "map_of (query_writes q m) k")
    case None
    have "ptr_of M k \<notin> fst ` set (WSet x)"
    proof
      assume "ptr_of M k \<in> fst ` set (WSet x)"
      then obtain e where e: "e \<in> set (query_writes q m)" "ptr_of M k = ptr_of M (fst e)" by (auto simp: w(1))
      then have "k = fst e" using inj k q(1) by (auto dest: inj_onD)
      then show False using None e(1) by (force simp: map_of_eq_None_iff)
    qed
    then show ?thesis using None by (metis map_of_eq_None_iff)
  next
    case (Some v)
    then have "(ptr_of M k, v) \<in> set (WSet x)" unfolding w(1) by (force dest: map_of_SomeD)
    then show ?thesis using w(2) Some by simp
  qed
  then show ?thesis using assms(4) by (simp add: values_are_def installed_def apply_query_def)
qed


text \<open>What a single worker knows of the records: those it holds are locked, no other is.\<close>

definition alone :: "memory \<Rightarrow> Worker \<Rightarrow> bool" where
  "alone M x \<longleftrightarrow> keys_ok M \<and> record_at M NULL = None \<and> worker_ok x \<and> ptr_ok M x \<and>
     (\<forall>p r. record_at M p = Some r \<longrightarrow> latest (kv_tid r) \<and> (lock (kv_tid r) \<longleftrightarrow> p \<in> kv_held x))"

lemma progress_read:
  assumes "alone M x" "wpc x = Run (ReadQ k c)" "progress M x m q (ReadQ k c)"
  shows "\<exists>p. read_find M x k c = x\<lparr>wpc := ReadTid p c\<rparr> \<and> key_ok k \<and> p = ptr_of M k"
proof -
  have "key_ok k" using assms(3) by (simp add: progress_def)
  moreover obtain leaf where "find_pt (tree M) k = Some (ptr_of M k, leaf)" using assms(1) unfolding alone_def keys_ok_def by blast
  ultimately show ?thesis by (simp add: read_find_def)
qed

lemma record_of_key:
  assumes "alone M x" "key_ok k"
  obtains r where "record_at M (ptr_of M k) = Some r" "latest (kv_tid r)" "lock (kv_tid r) \<longleftrightarrow> ptr_of M k \<in> kv_held x"
  using assms unfolding alone_def keys_ok_def by blast

lemma write_step:
  assumes "alone M x" "progress M x m q (WriteQ k v q')"
  shows "in_query M (write_kv M x k v q') m q \<and> result (write_kv M x k v q') = result x \<and> waitingQueries (write_kv M x k v q') = waitingQueries x"
proof -
  obtain leaf where f: "find_pt (tree M) k = Some (ptr_of M k, leaf)" using assms(1) unfolding alone_def keys_ok_def by blast
  obtain ws where ws: "WSet x = map (\<lambda>w. (ptr_of M (fst w), snd w)) ws" "query_writes q m = ws @ (k, v) # query_writes q' m"
    using assms(2) by (auto simp: progress_def)
  have "progress M (x\<lparr>WSet := WSet x @ [(ptr_of M k, v)], wpc := Run q'\<rparr>) m q q'"
    using assms(2) ws unfolding progress_def by (auto simp: reads_current_def intro!: exI [of _ "ws @ [(k, v)]"])
  then show ?thesis by (simp add: write_kv_def f in_query_def)
qed

lemma lock_from:
  "values_are M m \<Longrightarrow> reads_current M x \<Longrightarrow> all_written M x m q \<Longrightarrow> in_query M (lockWSet_from x i) m q"
  "result (lockWSet_from x i) = result x" "waitingQueries (lockWSet_from x i) = waitingQueries x"
  by (simp_all add: lockWSet_from_def in_query_def)

lemma commit_step:
  assumes "alone M x" "progress M x m q Return" "query_ok q"
  shows "in_query M (start_commit x) m q \<and> result (start_commit x) = result x \<and> waitingQueries (start_commit x) = waitingQueries x"
proof -
  have w: "WSet x = map (\<lambda>w. (ptr_of M (fst w), snd w)) (query_writes q m)" using assms(2) by (auto simp: progress_def)
  have q: "\<forall>k \<in> fst ` set (query_writes q m). key_ok k" "distinct (map fst (query_writes q m))" using assms(3) by (auto simp: query_ok_def)
  have "inj_on (ptr_of M) {k. key_ok k}" using assms(1) by (simp add: alone_def keys_ok_def)
  then have "inj_on (ptr_of M) (set (map fst (query_writes q m)))" by (rule inj_on_subset) (use q(1) in auto)
  then have "distinct (map (ptr_of M) (map fst (query_writes q m)))" using q(2) by (simp only: distinct_map)
  then have "distinct (map fst (WSet x))" by (simp add: w comp_def)
  moreover have "mset (map fst (sort (WSet x))) = mset (map fst (WSet x))" by simp
  ultimately have d: "distinct (map fst (sort (WSet x)))" by (metis mset_eq_imp_distinct_iff)
  have "all_written M (x\<lparr>WSet := sort (WSet x)\<rparr>) m q" using d unfolding all_written_def wptrs_def by (simp add: w image_image)
  moreover have "reads_current M (x\<lparr>WSet := sort (WSet x)\<rparr>)" "values_are M m" using assms(2) by (simp_all add: progress_def reads_current_def)
  ultimately show ?thesis by (simp add: start_commit_def lock_from)
qed

lemma not_stale:
  assumes "alone M x" "wpc x = ValidateRead e i" "reads_current M x" "(p, t) \<in> set (RSet x)" "record_at M p = Some r"
  shows "\<not> stale x p t (kv_tid r)"
proof -
  have "tid (kv_tid r) = tid t" using assms(3-5) by (auto simp: reads_current_def)
  moreover have l: "latest (kv_tid r)" "lock (kv_tid r) \<longleftrightarrow> p \<in> kv_held x" using assms(1,5) by (auto simp: alone_def)
  moreover have "searchWSet x p \<noteq> NULL" if "p \<in> kv_held x"
  proof -
    have "p \<in> fst ` set (WSet x)" using that assms(2) by (simp add: kv_held_def wptrs_def)
    then obtain w where "List.find (\<lambda>w. fst w = p) (WSet x) = Some w" "fst w = p"
      by (cases "List.find (\<lambda>w. fst w = p) (WSet x)") (auto simp: find_None_iff find_Some_iff)
    moreover have "p \<noteq> NULL" using assms(1,5) unfolding alone_def by (metis option.distinct(1))
    ultimately show ?thesis by (simp add: searchWSet_def)
  qed
  ultimately show ?thesis by (auto simp: stale_def)
qed

lemma install_value_step:
  assumes "alone M x" "wpc x = InstallValue i T" "installed M x i m" "all_written M x m q"
  shows "\<exists>M'. install_value M x i T = (M', x\<lparr>wpc := InstallTid i T\<rparr>) \<and> installed M' x (Suc i) m \<and> all_written M' x m q"
proof -
  have i: "i < length (WSet x)" and d: "distinct (wptrs x)" using assms(1,2) by (simp_all add: alone_def worker_ok_def)
  have "wptrs x ! i \<in> kv_held x" using assms(2) i by (simp add: kv_held_def nth_in_drop)
  then obtain r where r: "record_at M (wptrs x ! i) = Some r" using assms(1) by (auto simp: alone_def ptr_ok_def)
  let ?M = "store_record M (wptrs x ! i) (r\<lparr>kv_value := snd (WSet x ! i)\<rparr>)"
  have t: "take (Suc i) (WSet x) = take i (WSet x) @ [WSet x ! i]" using i by (simp add: take_Suc_conv_app_nth)
  have n: "wptrs x ! i \<notin> fst ` set (take i (WSet x))"
  proof -
    have "set (take i (wptrs x)) \<inter> set (drop i (wptrs x)) = {}" using d by (rule set_take_disj_set_drop_if_distinct) simp
    moreover have "wptrs x ! i \<in> set (drop i (wptrs x))" using i by (simp add: nth_in_drop)
    ultimately show ?thesis by (auto simp: wptrs_def take_map)
  qed
  have f: "fst (WSet x ! i) = wptrs x ! i" using i by (simp add: wptrs_nth)
  have "installed ?M x (Suc i) m" unfolding installed_def
  proof (intro allI impI)
    fix k :: Key assume k: "key_ok k"
    have a: "map_of (take (Suc i) (WSet x)) p = (if p = wptrs x ! i then Some (snd (WSet x ! i)) else map_of (take i (WSet x)) p)" for p
    proof -
      have "map_of (take i (WSet x)) (wptrs x ! i) = None" using n by (simp only: map_of_eq_None_iff not_False_eq_True)
      then show ?thesis using f by (cases "WSet x ! i") (auto simp: t map_add_def split: option.split)
    qed
    show "map_option kv_value (record_at ?M (ptr_of ?M k)) = Some (case map_of (take (Suc i) (WSet x)) (ptr_of ?M k) of None \<Rightarrow> m k | Some v \<Rightarrow> v)"
      unfolding a using assms(3) k by (simp add: installed_def)
  qed
  moreover have "install_value M x i T = (?M, x\<lparr>wpc := InstallTid i T\<rparr>)" by (simp add: install_value_def deref_def f r)
  ultimately show ?thesis using assms(4) by simp
qed

lemma written_record:
  assumes "alone M x" "query_ok q" "all_written M x m q" "i < length (WSet x)"
  obtains r where "record_at M (wptrs x ! i) = Some r" "latest (kv_tid r)" "lock (kv_tid r) \<longleftrightarrow> wptrs x ! i \<in> kv_held x"
proof -
  have "WSet x ! i \<in> (\<lambda>w. (ptr_of M (fst w), snd w)) ` set (query_writes q m)" using assms(3,4) unfolding all_written_def by (metis nth_mem)
  then obtain w where w: "w \<in> set (query_writes q m)" "WSet x ! i = (ptr_of M (fst w), snd w)" by blast
  then have "key_ok (fst w)" using assms(2) by (auto simp: query_ok_def)
  moreover have "wptrs x ! i = ptr_of M (fst w)" using w(2) assms(4) by (simp flip: wptrs_nth)
  ultimately show ?thesis using record_of_key [OF assms(1)] that by metis
qed

lemma env_values [simp]:
  "values_are (M\<lparr>env := ev\<rparr>) m = values_are M m" "ptr_of (M\<lparr>env := ev\<rparr>) = ptr_of M" "reads_current (M\<lparr>env := ev\<rparr>) x = reads_current M x"
  by (simp_all add: values_are_def ptr_of_def fun_eq_iff reads_current_def)

lemma install_from_step:
  assumes "keys_ok M" "query_ok q" "all_written M x m q" "installed M x i m" "i \<le> length (WSet x)"
  shows "let x' = install_from x i T in
    in_query M x' m q \<and> result x' = result x \<and> waitingQueries x' = waitingQueries x \<or>
    wpc x' = CheckStop \<and> values_are M (apply_query q m) \<and> result x' = addCommit (result x) \<and> waitingQueries x' = waitingQueries x"
  using assms installed_all [OF assms(1-3)] by (cases "i < length (WSet x)") (simp_all add: install_from_def in_query_def Let_def)

lemma query_step:
  assumes a: "alone M x" and q: "query_ok q" and i: "in_query M x m q" and s: "run_step th ch M x = (M', x')"
  shows "in_query M' x' m q \<and> result x' = result x \<and> waitingQueries x' = waitingQueries x \<or>
    wpc x' = CheckStop \<and> values_are M' (apply_query q m) \<and> result x' = addCommit (result x) \<and> waitingQueries x' = waitingQueries x"
proof -
  note sd = run_step_def in_query_def
  have keys: "keys_ok M" using a by (simp add: alone_def)
  show ?thesis
  proof (cases "wpc x")
    case (LoadE q')
    then show ?thesis using i s by (auto simp: sd)
  next
    case (StoreWorkerE e q')
    then have "q' = q" "values_are M m" using i by (simp_all add: in_query_def)
    then have "progress M' x' m q q" using s q StoreWorkerE
      by (auto simp: run_step_def Transaction_def progress_def reads_current_def query_ok_def)
    then show ?thesis using s StoreWorkerE \<open>q' = q\<close> by (auto simp: sd Transaction_def)
  next
    case (Run q')
    then have p: "progress M x m q q'" using i by (simp add: in_query_def)
    show ?thesis
    proof (cases q')
      case Return
      then have "x' = start_commit x" "M' = M" using s Run by (auto simp: run_step_def run_query_def)
      then show ?thesis using commit_step [OF a _ q] p Return by simp
    next
      case (ReadQ k c)
      then have "(M', x') = (M, read_find M x k c)" using s Run by (auto simp: run_step_def run_query_def)
      moreover obtain pt where "read_find M x k c = x\<lparr>wpc := ReadTid pt c\<rparr>" "key_ok k" "pt = ptr_of M k"
        using progress_read [OF a, of k c m q] p Run ReadQ by auto
      ultimately show ?thesis using p ReadQ unfolding in_query_def by auto
    next
      case (WriteQ k v q'')
      then have "x' = write_kv M x k v q''" "M' = M" using s Run by (auto simp: run_step_def run_query_def)
      then show ?thesis using write_step [OF a, of m q k v q''] p WriteQ by simp
    qed
  next
    case (ReadTid p c)
    then obtain k where k: "key_ok k" "p = ptr_of M k" "progress M x m q (ReadQ k c)" using i by (auto simp: in_query_def)
    obtain r where "record_at M p = Some r" "latest (kv_tid r)" "\<not> lock (kv_tid r)"
      using record_of_key [OF a k(1)] k(2) ReadTid by (auto simp: kv_held_def)
    then show ?thesis using s k ReadTid by (auto simp: sd read_tid_word_def deref_def)
  next
    case (ReadValue p t c)
    then obtain k where k: "key_ok k" "p = ptr_of M k" "progress M x m q (ReadQ k c)" using i by (auto simp: in_query_def)
    obtain r where r: "record_at M p = Some r" using record_of_key [OF a k(1)] k(2) by metis
    then have "kv_value r = m k" using k by (auto simp: progress_def values_are_def)
    then show ?thesis using s k r ReadValue by (auto simp: sd read_data_def deref_def)
  next
    case (ReadAgain p t d c)
    then obtain k where k: "key_ok k" "p = ptr_of M k" "progress M x m q (ReadQ k c)" "d = m k" using i by (auto simp: in_query_def)
    obtain r where r: "record_at M p = Some r" using record_of_key [OF a k(1)] k(2) by metis
    have "progress M (x\<lparr>RSet := RSet x @ [(p, kv_tid r)], wpc := Run (c d)\<rparr>) m q (c d)"
      using k r by (auto simp: progress_def reads_current_def)
    moreover have "M' = M" "x' = (if t = kv_tid r then x\<lparr>RSet := RSet x @ [(p, kv_tid r)], wpc := Run (c d)\<rparr> else x\<lparr>wpc := ReadTid p c\<rparr>)"
      using s r ReadAgain by (auto simp: run_step_def read_again_def deref_def)
    ultimately show ?thesis using k by (cases "t = kv_tid r") (auto simp: in_query_def)
  next
    case (LoadLock j)
    then have j: "j < length (WSet x)" "all_written M x m q" using a i by (simp_all add: alone_def worker_ok_def in_query_def)
    obtain r where "record_at M (wptrs x ! j) = Some r" using written_record [OF a q j(2,1)] by metis
    then show ?thesis using s i j LoadLock by (auto simp: sd lockWSet_load_def deref_def wptrs_nth)
  next
    case (TryLock j e)
    then have j: "j < length (WSet x)" "all_written M x m q" using a i by (simp_all add: alone_def worker_ok_def in_query_def)
    obtain r where r: "record_at M (wptrs x ! j) = Some r" using written_record [OF a q j(2,1)] by metis
    have v: "values_are M m" "reads_current M x" using i TryLock by (simp_all add: in_query_def)
    consider "M' = M" "x' = x\<lparr>wpc := TryLock j (kv_tid r)\<rparr>"
      | "M' = store_record M (wptrs x ! j) (r\<lparr>kv_tid := set_lock True (kv_tid r)\<rparr>)" "x' = lockWSet_from (x\<lparr>maxWrite := max (maxWrite x) (kv_tid r)\<rparr>) (Suc j)"
      using s r TryLock j(1) by (auto simp: run_step_def lockWSet_try_def deref_def wptrs_nth split: if_splits)
    then show ?thesis
    proof cases
      case 1
      then show ?thesis using v j by (simp add: in_query_def)
    next
      case 2
      have "in_query M' x' m q" unfolding 2 by (rule lock_from(1)) (use v j r reads_lock [OF r] in simp_all)
      then show ?thesis unfolding 2(2) by (simp add: lock_from(2,3))
    qed
  next
    case LoadEpoch
    then show ?thesis using i s by (auto simp: sd)
  next
    case (ValidateRead e j)
    then have v: "values_are M m" "reads_current M x" "all_written M x m q" using i by (simp_all add: in_query_def)
    show ?thesis
    proof (cases "j < length (RSet x)")
      case True
      obtain p t where e: "RSet x ! j = (p, t)" by fastforce
      then have m: "(p, t) \<in> set (RSet x)" using True by (metis nth_mem)
      then obtain r where r: "record_at M p = Some r" using v(2) by (auto simp: reads_current_def)
      show ?thesis using s True e r not_stale [OF a ValidateRead v(2) m r] v ValidateRead
        by (auto simp: sd validate_read_def deref_def)
    next
      case False
      then have "M' = M" "x' = install_from (x\<lparr>recentTid := commit_tid x e\<rparr>) 0 (commit_tid x e)"
        using s ValidateRead by (auto simp: run_step_def validate_read_def Let_def)
      then show ?thesis using install_from_step [OF keys q, of "x\<lparr>recentTid := commit_tid x e\<rparr>" m 0 "commit_tid x e"] v by (simp add: Let_def)
    qed
  next
    case (InstallValue j T)
    then show ?thesis using install_value_step [OF a InstallValue, of m q] i s by (auto simp: sd)
  next
    case (InstallTid j T)
    then have j: "j < length (WSet x)" "all_written M x m q" "installed M x (Suc j) m" using a i by (simp_all add: alone_def worker_ok_def in_query_def)
    obtain r where r: "record_at M (wptrs x ! j) = Some r" using written_record [OF a q j(2,1)] by metis
    then have M': "M' = store_record M (wptrs x ! j) (r\<lparr>kv_tid := T\<rparr>)" "x' = install_from x (Suc j) T"
      using s InstallTid j(1) by (simp_all add: run_step_def install_tid_def deref_def wptrs_nth)
    have "keys_ok M'" unfolding M' by (rule keys_ok_same [OF _ _ keys]) (use r in auto)
    then show ?thesis using install_from_step [OF _ q, of M' x m "Suc j" T] j r M' by (simp add: Let_def)
  qed (use i in \<open>simp_all add: in_query_def\<close>)
qed

section \<open>The store with one worker\<close>

definition submitted :: "event list \<Rightarrow> query list" where
  "submitted evs = concat (map (\<lambda>ev. case ev of Submit r q \<Rightarrow> [q] | _ \<Rightarrow> []) evs)"

text \<open>The queries \<open>qs\<close> are committed, in this order, the values were \<open>m\<close> before, and the queries \<open>ss\<close> have been submitted.\<close>

definition serial_store :: "database \<Rightarrow> (Key \<Rightarrow> int) \<Rightarrow> query list \<Rightarrow> query list \<Rightarrow> bool" where
  "serial_store D m qs ss \<longleftrightarrow> length (workers D) = 1 \<and> kv_inv D \<and> (let x = workers D ! 0 in
     (\<forall>q \<in> set (waitingQueries x). query_ok q) \<and> result x = \<lparr>n_aborts = 0, n_commits = word_of_nat (length qs)\<rparr> \<and>
     (idle x \<and> values_are (mem D) (fold apply_query qs m) \<and> mset ss = mset qs + mset (waitingQueries x) \<or>
      (\<exists>q. query_ok q \<and> in_query (mem D) x (fold apply_query qs m) q \<and> mset ss = mset qs + {#q#} + mset (waitingQueries x))))"

lemma serial_alone:
  assumes "length (workers D) = 1" "kv_inv D"
  shows "alone (mem D) (workers D ! 0)"
proof -
  obtain x where x: "workers D = [x]" using assms(1) by (cases "workers D") auto
  have ok: "kv_ok D" and k: "keys_ok (mem D)" using assms(2) by (simp_all add: kv_inv_def)
  have w: "worker_ok x" "ptr_ok (mem D) x" "record_at (mem D) NULL = None" "\<And>p. kv_locked (mem D) p \<longleftrightarrow> p \<in> kv_held x"
    "\<And>p r. record_at (mem D) p = Some r \<Longrightarrow> latest (kv_tid r)"
    using ok unfolding kv_ok_def x index_ok_def by auto
  have "lock (kv_tid r) \<longleftrightarrow> p \<in> kv_held x" if "record_at (mem D) p = Some r" for p r
    using w(4) [of p] that by (simp add: kv_locked_def)
  then show ?thesis unfolding alone_def x using k w(1-3,5) by simp
qed

text \<open>Outside a query.\<close>

lemma idle_step:
  assumes "idle x" "run_step th ch M x = (M', x')"
  shows "M' = M \<and> result x' = result x \<and> (idle x' \<and> waitingQueries x' = waitingQueries x \<or>
    (\<exists>q. wpc x' = LoadE q \<and> mset (waitingQueries x) = add_mset q (mset (waitingQueries x'))))"
proof (cases "wpc x = TryDequeue \<and> (\<exists>j. ch = Some j \<and> j < length (waitingQueries x))")
  case True
  then obtain j where j: "wpc x = TryDequeue" "ch = Some j" "j < length (waitingQueries x)" by blast
  have "waitingQueries x = take j (waitingQueries x) @ waitingQueries x ! j # drop (Suc j) (waitingQueries x)" by (rule id_take_nth_drop [OF j(3)])
  then have "mset (waitingQueries x) = add_mset (waitingQueries x ! j) (mset (take j (waitingQueries x)) + mset (drop (Suc j) (waitingQueries x)))"
    by (metis mset.simps(2) mset_append union_mset_add_mset_right)
  then show ?thesis using j assms(2) by (auto simp: run_step_def try_dequeue_def)
next
  case False
  then show ?thesis using assms by (auto simp: idle_def run_step_def try_dequeue_def split: option.splits if_splits)
qed

lemma serial_tree:
  assumes "tree M' = tree M"
  shows "values_are M' m = values_are M m" "in_query M' x m q = in_query M x m q"
proof -
  have t: "ptr_of M' = ptr_of M" "record_at M' = record_at M" using assms by (auto simp: fun_eq_iff ptr_of_def record_at_def)
  then show "values_are M' m = values_are M m" by (simp add: values_are_def)
  show "in_query M' x m q = in_query M x m q"
    by (cases "wpc x") (simp_all add: in_query_def progress_def values_are_def reads_current_def all_written_def installed_def t)
qed

lemma serial_queue [simp]:
  "in_query M (x\<lparr>waitingQueries := w\<rparr>) m q = in_query M x m q" "idle (x\<lparr>waitingQueries := w\<rparr>) = idle x"
proof -
  have "progress M (x\<lparr>waitingQueries := w\<rparr>) m q q' = progress M x m q q'" "reads_current M (x\<lparr>waitingQueries := w\<rparr>) = reads_current M x"
    "all_written M (x\<lparr>waitingQueries := w\<rparr>) m q = all_written M x m q" "installed M (x\<lparr>waitingQueries := w\<rparr>) n m = installed M x n m" for q' n
    by (simp_all add: progress_def reads_current_def all_written_def installed_def wptrs_def)
  then show "in_query M (x\<lparr>waitingQueries := w\<rparr>) m q = in_query M x m q" by (cases "wpc x") (simp_all add: in_query_def)
  show "idle (x\<lparr>waitingQueries := w\<rparr>) = idle x" by (simp add: idle_def)
qed

lemma serial_work:
  assumes "serial_store D m qs ss" "workers D = [x]" "run_step 0 ch (mem D) x = (M', x')"
  shows "\<exists>qs'. serial_store (exec_event (Work 0 ch) D) m (qs @ qs') ss"
proof -
  have e: "mem (exec_event (Work 0 ch) D) = M'" "workers (exec_event (Work 0 ch) D) = [x']" using assms(2,3) by (simp_all add: exec_event_def)
  have inv: "kv_inv (exec_event (Work 0 ch) D)" "kv_inv D" using assms(1) by (auto simp: serial_store_def intro: kv_inv_event)
  have a: "alone (mem D) x" using serial_alone [OF _ inv(2)] assms(2) by simp
  have w: "\<forall>q \<in> set (waitingQueries x). query_ok q" "result x = \<lparr>n_aborts = 0, n_commits = word_of_nat (length qs)\<rparr>"
    using assms(1,2) by (simp_all add: serial_store_def)
  let ?m = "fold apply_query qs m"
  consider "idle x" "values_are (mem D) ?m" "mset ss = mset qs + mset (waitingQueries x)"
    | q where "query_ok q" "in_query (mem D) x ?m q" "mset ss = mset qs + {#q#} + mset (waitingQueries x)"
    using assms(1,2) unfolding serial_store_def by auto
  then show ?thesis
  proof cases
    case 1
    note i = idle_step [OF 1(1) assms(3)]
    show ?thesis
    proof (cases "idle x'")
      case True
      then have "waitingQueries x' = waitingQueries x" using i by (auto simp: idle_def)
      then show ?thesis using True i 1 w inv by (intro exI [of _ "[]"]) (simp add: serial_store_def e)
    next
      case False
      then obtain q where q: "wpc x' = LoadE q" "mset (waitingQueries x) = add_mset q (mset (waitingQueries x'))" using i by blast
      have "set (waitingQueries x) = insert q (set (waitingQueries x'))" using arg_cong [OF q(2), of set_mset] by simp
      moreover have "in_query M' x' ?m q" using i 1(2) q(1) by (simp add: in_query_def)
      ultimately show ?thesis using i 1 w q(2) inv by (intro exI [of _ "[]"]) (auto simp: serial_store_def e)
    qed
  next
    case (2 q)
    from query_step [OF a 2(1,2) assms(3)] show ?thesis
    proof
      assume "in_query M' x' ?m q \<and> result x' = result x \<and> waitingQueries x' = waitingQueries x"
      then show ?thesis using 2 w inv by (intro exI [of _ "[]"]) (auto simp: serial_store_def e)
    next
      assume "wpc x' = CheckStop \<and> values_are M' (apply_query q ?m) \<and> result x' = addCommit (result x) \<and> waitingQueries x' = waitingQueries x"
      then show ?thesis using 2 w inv by (intro exI [of _ "[q]"]) (simp add: serial_store_def e idle_def addCommit_def)
    qed
  qed
qed

lemma serial_event:
  assumes "serial_store D m qs ss" "\<forall>q \<in> set (submitted [ev]). query_ok q"
  shows "\<exists>qs'. serial_store (exec_event ev D) m (qs @ qs') (ss @ submitted [ev])"
proof -
  obtain x where x: "workers D = [x]" using assms(1) by (cases "workers D") (auto simp: serial_store_def)
  have inv: "kv_inv (exec_event ev D)" using assms(1) by (auto simp: serial_store_def intro: kv_inv_event)
  have same: ?thesis if "tree (mem (exec_event ev D)) = tree (mem D)" "workers (exec_event ev D) = workers D" "submitted [ev] = []"
    using assms(1) inv serial_tree [OF that(1)] that by (intro exI [of _ "[]"]) (simp add: serial_store_def)
  show ?thesis
  proof (cases ev)
    case (Work th ch)
    show ?thesis
    proof (cases "th = 0")
      case True
      obtain M' x' where "run_step 0 ch (mem D) x = (M', x')" by fastforce
      from serial_work [OF assms(1) x this] show ?thesis using Work True by (simp add: submitted_def)
    qed (use same Work x in \<open>simp add: exec_event_def submitted_def\<close>)
  next
    case (Lead now)
    obtain M' l' where l: "leader_step now (mem D) (the_leader D) = (M', l')" by fastforce
    then have "tree M' = tree (mem D)" by (rule leader_step_tree)
    then show ?thesis using same l Lead by (simp add: exec_event_def submitted_def)
  next
    case (Submit r q)
    then have "query_ok q" using assms(2) by (simp add: submitted_def)
    moreover have "exec_event ev D = D\<lparr>workers := [x\<lparr>waitingQueries := waitingQueries x @ [q]\<rparr>]\<rparr>"
      using x Submit by (simp add: exec_event_def executeTransaction_def Let_def addQueryToQueue_def)
    ultimately show ?thesis using assms(1) inv x Submit by (intro exI [of _ "[]"]) (auto simp: serial_store_def submitted_def)
  qed (use same in \<open>simp_all add: exec_event_def submitted_def set_stop_def\<close>)
qed

lemma serial_events:
  assumes "serial_store D m qs ss" "\<forall>q \<in> set (submitted evs). query_ok q"
  shows "\<exists>qs'. serial_store (exec_events evs D) m (qs @ qs') (ss @ submitted evs)"
  using assms
proof (induction evs arbitrary: D qs ss)
  case Nil
  then show ?case by (intro exI [of _ "[]"]) (simp add: exec_events_def submitted_def)
next
  case (Cons ev evs)
  have s: "submitted (ev # evs) = submitted [ev] @ submitted evs" by (simp add: submitted_def)
  have "\<forall>q \<in> set (submitted [ev]). query_ok q" using Cons.prems(2) s by simp
  from serial_event [OF Cons.prems(1) this] obtain qs1 where "serial_store (exec_event ev D) m (qs @ qs1) (ss @ submitted [ev])" by blast
  from Cons.IH [OF this] obtain qs2 where "serial_store (exec_events evs (exec_event ev D)) m ((qs @ qs1) @ qs2) ((ss @ submitted [ev]) @ submitted evs)"
    using Cons.prems(2) s by auto
  then show ?case unfolding s by (intro exI [of _ "qs1 @ qs2"]) (simp add: exec_events_def)
qed

lemma serial_init:
  assumes "kv_init D" "length (workers D) = 1"
  shows "serial_store D uint [] []"
proof -
  obtain n where "workers D = replicate n new_worker" using Database_holds [OF assms(1)] by metis
  then have "workers D = [new_worker]" using assms(2) by simp
  moreover have "values_are (mem D) uint" using kv_inv_init(2) [OF assms(1)] by (simp add: values_are_def Record_def)
  ultimately show ?thesis using kv_inv_init(1) [OF assms(1)] by (simp add: serial_store_def idle_def new_worker_def)
qed

end
