(* ===== verification/KVSilo_Client.thy ===== *)
theory KVSilo_Client
  imports KVSilo_Serial KVSilo_Props
begin


text \<open>
  The client program of the key-value store, \<^verbatim>\<open>src/kvsilo/main.cpp\<close>, and the store with one worker: every run is a serial
  execution of the queries committed, and the program leaves exactly the values it means to leave.
\<close>

section \<open>The program\<close>

text \<open>The query before and after the clients (which prints what it reads), and that of client \<open>i\<close> of \<open>num\<close>.\<close>

definition report :: query where
  "report = ReadQ 5 (\<lambda>value. ReadQ 6 (\<lambda>value2. Return))"








section \<open>Its queries\<close>

lemma client_queries_ok [simp]: "query_ok report" "query_ok (transfer 5 6)" "query_ok (transfer 6 5)"
  by (simp_all add: query_ok_def report_def transfer_def)

lemma apply_client_query [simp]:
  "apply_query report m = m" "apply_query (transfer 6 5) m = m(6 := m 6 - 1, 5 := m 5 + 1)"
  by (auto simp: apply_query_def report_def transfer_def fun_eq_iff)

lemma report_transfer [simp]: "report \<noteq> transfer 6 5" "transfer 6 5 \<noteq> report"
  by (simp_all add: report_def transfer_def)










section \<open>A store with one worker to apply the properties to\<close>




section \<open>Properties\<close>





end
