(* ===== verification/Masstree.thy ===== *)
theory Masstree
  imports Prelude "HOL-Library.Word"
begin


text \<open>
  The Masstree of \<^verbatim>\<open>src/masstree\<close>: keys as lists of slices (\<^verbatim>\<open>key.h\<close>), version words (\<^verbatim>\<open>version.h\<close>), interior and
  border nodes with \<open>get\<close> and \<open>write\<close> (\<^verbatim>\<open>masstree.h\<close>), insertion with its splits (\<^verbatim>\<open>bptree.h\<close>). The code has no atomic
  accesses and its \<open>lock\<close> only sets a bit: it is the program of one thread that is modelled, on an explicit heap. \<open>None\<close> is
  a null or mistyped pointer, an access outside an array, a failed assertion or a loop that does not end; \<open>new\<close> does not fail.
\<close>

unbundle bit_operations_syntax

section \<open>Initialised arrays\<close>

definition elem :: "'a list \<Rightarrow> nat \<Rightarrow> 'a option" where
  "elem a i = (if i < length a then Some (a ! i) else None)"

definition set_elem :: "'a list \<Rightarrow> nat \<Rightarrow> 'a \<Rightarrow> 'a list option" where
  "set_elem a i x = (if i < length a then Some (a[i := x]) else None)"

section \<open>Keys\<close>

record KeySlice =
  ks_slice :: "64 word"
  ks_size :: "8 word"

definition no_slice :: KeySlice where
  "no_slice = \<lparr>ks_slice = 0, ks_size = 0\<rparr>"

definition keySlice :: "64 word \<Rightarrow> 8 word \<Rightarrow> KeySlice option" where
  "keySlice s n = (if 1 \<le> n \<and> n \<le> 8 then Some \<lparr>ks_slice = s, ks_size = n\<rparr> else None)"

record Key =
  key_body :: "KeySlice list"
  key_size :: nat
  cursor :: nat

definition key_of :: "KeySlice list \<Rightarrow> nat \<Rightarrow> Key" where
  "key_of body n = \<lparr>key_body = body, key_size = n, cursor = 0\<rparr>"

definition hasNext :: "Key \<Rightarrow> bool" where
  "hasNext k \<longleftrightarrow> key_size k \<noteq> cursor k + 1"

definition getCurrentSlice :: "Key \<Rightarrow> KeySlice option" where
  "getCurrentSlice k = elem (key_body k) (cursor k)"

definition next_slice :: "Key \<Rightarrow> (KeySlice \<times> Key) option" where
  "next_slice k =
    (if hasNext k then do { s \<leftarrow> elem (key_body k) (cursor k + 1); Some (s, k\<lparr>cursor := cursor k + 1\<rparr>) } else None)"

function same_slices :: "KeySlice list \<Rightarrow> KeySlice list \<Rightarrow> nat \<Rightarrow> nat \<Rightarrow> bool option" where
  "same_slices xs ys i n =
    (if i < n
     then do { x \<leftarrow> elem xs i; y \<leftarrow> elem ys i; if x \<noteq> y then Some False else same_slices xs ys (Suc i) n }
     else Some True)"
  by pat_completeness auto
termination
  by (relation "measure (\<lambda>(xs, ys, i, n). n - i)") auto

declare same_slices.simps [simp del]

definition key_eq :: "Key \<Rightarrow> Key \<Rightarrow> bool option" where
  "key_eq k k' = (if key_size k \<noteq> key_size k' then Some False else same_slices (key_body k) (key_body k') 0 (key_size k))"

section \<open>Versions\<close>

text \<open>The bit fields, and the word they make; the two unnamed bits are zero.\<close>

record Version =
  v_split :: "16 word"
  v_insert :: "8 word"
  is_border :: bool
  is_root :: bool
  deleted :: bool
  splitting :: bool
  inserting :: bool
  locked :: bool

definition version0 :: Version where
  "version0 = \<lparr>v_split = 0, v_insert = 0, is_border = False, is_root = False, deleted = False, splitting = False,
     inserting = False, locked = False\<rparr>"

definition flag :: "nat \<Rightarrow> bool \<Rightarrow> 32 word" where
  "flag i b = push_bit i (of_bool b)"

definition version_body :: "Version \<Rightarrow> 32 word" where
  "version_body v = ucast (v_split v) OR push_bit 16 (ucast (v_insert v)) OR flag 26 (is_border v) OR flag 27 (is_root v) OR
     flag 28 (deleted v) OR flag 29 (splitting v) OR flag 30 (inserting v) OR flag 31 (locked v)"

definition version_lock :: "32 word" where
  "version_lock = push_bit 31 1"

definition version_xor :: "Version \<Rightarrow> Version \<Rightarrow> 32 word" where
  "version_xor v w = version_body v XOR version_body w"

section \<open>Nodes\<close>

abbreviation (input) ORDER :: nat where "ORDER \<equiv> 16"

record node_head =
  version :: Version
  parent :: addr

record InteriorNode = node_head +
  n_keys :: nat
  i_slice :: "64 word list"
  child :: "addr list"

text \<open>A link or value is a pointer in either case; the fields \<open>n_removed\<close> and \<open>permutation\<close> are never used.\<close>

record BorderNode = node_head +
  key_len :: "8 word list"
  b_slice :: "64 word list"
  lv :: "addr list"
  next_border :: addr
  prev_border :: addr
  key_suffixes :: "KeySlice list"

definition new_interior :: InteriorNode where
  "new_interior = \<lparr>version = version0, parent = NULL, n_keys = 0, i_slice = replicate (ORDER - 1) 0, child = replicate ORDER NULL\<rparr>"

definition new_border :: BorderNode where
  "new_border = \<lparr>version = version0\<lparr>is_border := True\<rparr>, parent = NULL, key_len = replicate (ORDER - 1) 0,
     b_slice = replicate (ORDER - 1) 0, lv = replicate (ORDER - 1) NULL, next_border = NULL, prev_border = NULL,
     key_suffixes = replicate (ORDER - 1) no_slice\<rparr>"

definition key_len_layer :: "8 word" where "key_len_layer = 255"
definition key_len_unstable :: "8 word" where "key_len_unstable = 254"

datatype mnode = Interior InteriorNode | Border BorderNode

record mheap =
  cells :: "addr \<rightharpoonup> mnode"
  ints :: "addr \<rightharpoonup> int"
  next_addr :: addr

definition empty_mheap :: mheap where
  "empty_mheap = \<lparr>cells = Map.empty, ints = Map.empty, next_addr = 1\<rparr>"

definition put_node :: "mheap \<Rightarrow> addr \<Rightarrow> mnode \<Rightarrow> mheap" where
  "put_node h p n = h\<lparr>cells := (cells h)(p \<mapsto> n)\<rparr>"

definition new_node :: "mheap \<Rightarrow> mnode \<Rightarrow> addr \<times> mheap" where
  "new_node h n = (next_addr h, h\<lparr>cells := (cells h)(next_addr h \<mapsto> n), next_addr := next_addr h + 1\<rparr>)"

definition new_int :: "mheap \<Rightarrow> int \<Rightarrow> addr \<times> mheap" where
  "new_int h i = (next_addr h, h\<lparr>ints := (ints h)(next_addr h \<mapsto> i), next_addr := next_addr h + 1\<rparr>)"

definition border_at :: "mheap \<Rightarrow> addr \<Rightarrow> BorderNode option" where
  "border_at h p = (case cells h p of Some (Border b) \<Rightarrow> Some b | _ \<Rightarrow> None)"

definition interior_at :: "mheap \<Rightarrow> addr \<Rightarrow> InteriorNode option" where
  "interior_at h p = (case cells h p of Some (Interior i) \<Rightarrow> Some i | _ \<Rightarrow> None)"

text \<open>The fields of the base class.\<close>

definition version_of :: "mheap \<Rightarrow> addr \<Rightarrow> Version option" where
  "version_of h p = map_option (\<lambda>n. case n of Interior i \<Rightarrow> version i | Border b \<Rightarrow> version b) (cells h p)"

definition parent_of :: "mheap \<Rightarrow> addr \<Rightarrow> addr option" where
  "parent_of h p = map_option (\<lambda>n. case n of Interior i \<Rightarrow> parent i | Border b \<Rightarrow> parent b) (cells h p)"

definition with_version :: "mheap \<Rightarrow> addr \<Rightarrow> (Version \<Rightarrow> Version) \<Rightarrow> mheap option" where
  "with_version h p f = map_option (\<lambda>n. put_node h p (case n of
       Interior i \<Rightarrow> Interior (i\<lparr>version := f (version i)\<rparr>) | Border b \<Rightarrow> Border (b\<lparr>version := f (version b)\<rparr>))) (cells h p)"

definition set_parent :: "mheap \<Rightarrow> addr \<Rightarrow> addr \<Rightarrow> mheap option" where
  "set_parent h p q = map_option (\<lambda>n. put_node h p (case n of
       Interior i \<Rightarrow> Interior (i\<lparr>parent := q\<rparr>) | Border b \<Rightarrow> Border (b\<lparr>parent := q\<rparr>))) (cells h p)"

section \<open>Searching a node\<close>

function find_child_from :: "InteriorNode \<Rightarrow> 64 word \<Rightarrow> nat \<Rightarrow> addr option" where
  "find_child_from n s i =
    (if i < n_keys n
     then do { k \<leftarrow> elem (i_slice n) i; if s < k then elem (child n) i else find_child_from n s (Suc i) }
     else elem (child n) (n_keys n))"
  by pat_completeness auto
termination
  by (relation "measure (\<lambda>(n, s, i). n_keys n - i)") auto

declare find_child_from.simps [simp del]

definition findChild :: "InteriorNode \<Rightarrow> KeySlice \<Rightarrow> addr option" where
  "findChild n s = find_child_from n (ks_slice s) 0"

definition isNotFull :: "InteriorNode \<Rightarrow> bool" where
  "isNotFull n \<longleftrightarrow> n_keys n \<noteq> ORDER - 1"

datatype ExtractResult = NOTFOUND | VALUE | LAYER | UNSTABLE

text \<open>The two loops of \<open>extractLinkOrValueWithIndexFor\<close>.\<close>

function last_slice_from :: "BorderNode \<Rightarrow> KeySlice \<Rightarrow> nat \<Rightarrow> (ExtractResult \<times> addr \<times> nat) option" where
  "last_slice_from n c i =
    (if i < ORDER - 1
     then do {
       s \<leftarrow> elem (b_slice n) i; l \<leftarrow> elem (key_len n) i;
       if s = ks_slice c \<and> l = ks_size c then do { v \<leftarrow> elem (lv n) i; Some (VALUE, v, i) }
       else last_slice_from n c (Suc i)
     }
     else Some (NOTFOUND, NULL, 0))"
  by pat_completeness auto
termination
  by (relation "measure (\<lambda>(n, c, i). ORDER - i)") auto

function inner_slice_from :: "BorderNode \<Rightarrow> Key \<Rightarrow> KeySlice \<Rightarrow> nat \<Rightarrow> (ExtractResult \<times> addr \<times> nat) option" where
  "inner_slice_from n k c i =
    (if i < ORDER - 1
     then do {
       s \<leftarrow> elem (b_slice n) i; l \<leftarrow> elem (key_len n) i; v \<leftarrow> elem (lv n) i;
       if s = ks_slice c
       then
         if l = 8 then do {
           suffix \<leftarrow> elem (key_suffixes n) i;
           (nxt, _) \<leftarrow> next_slice k;
           if ks_slice suffix = ks_slice nxt then Some (VALUE, v, i) else Some (NOTFOUND, NULL, 0)
         }
         else if l = key_len_layer then Some (LAYER, v, i)
         else if l = key_len_unstable then Some (UNSTABLE, NULL, 0)
         else inner_slice_from n k c (Suc i)
       else inner_slice_from n k c (Suc i)
     }
     else Some (NOTFOUND, NULL, 0))"
  by pat_completeness auto
termination
  by (relation "measure (\<lambda>(n, k, c, i). ORDER - i)") auto

declare last_slice_from.simps [simp del] inner_slice_from.simps [simp del]

definition extractLinkOrValueWithIndexFor :: "BorderNode \<Rightarrow> Key \<Rightarrow> (ExtractResult \<times> addr \<times> nat) option" where
  "extractLinkOrValueWithIndexFor n k = do {
     current \<leftarrow> getCurrentSlice k;
     if \<not> hasNext k then last_slice_from n current 0 else inner_slice_from n k current 0
   }"

definition extractLinkOrValueFor :: "BorderNode \<Rightarrow> Key \<Rightarrow> (ExtractResult \<times> addr) option" where
  "extractLinkOrValueFor n k = do { (t, v, _) \<leftarrow> extractLinkOrValueWithIndexFor n k; Some (t, v) }"

definition hasSpace :: "BorderNode \<Rightarrow> bool option" where
  "hasSpace n = do { l \<leftarrow> elem (key_len n) (ORDER - 2); Some (l = 0) }"

function count_keys :: "BorderNode \<Rightarrow> nat \<Rightarrow> nat option" where
  "count_keys n i =
    (if i < ORDER - 1
     then do { l \<leftarrow> elem (key_len n) i; if l > 0 then do { r \<leftarrow> count_keys n (Suc i); Some (Suc r) } else Some 0 }
     else Some 0)"
  by pat_completeness auto
termination
  by (relation "measure (\<lambda>(n, i). ORDER - i)") auto

declare count_keys.simps [simp del]

definition numberOfKeys :: "BorderNode \<Rightarrow> nat option" where
  "numberOfKeys n = count_keys n 0"

section \<open>Locks\<close>

text \<open>The loop of \<open>stableVersion\<close> does not end while nothing else runs.\<close>

definition stableVersion :: "mheap \<Rightarrow> addr \<Rightarrow> Version option" where
  "stableVersion h n = do { v \<leftarrow> version_of h n; if inserting v \<or> splitting v then None else Some v }"

definition lock_node :: "mheap \<Rightarrow> addr \<Rightarrow> mheap option" where
  "lock_node h n = (if n = NULL then Some h else with_version h n (\<lambda>v. v\<lparr>locked := True\<rparr>))"

definition unlocked :: "Version \<Rightarrow> Version" where
  "unlocked v =
    (let v = (if inserting v then v\<lparr>v_insert := v_insert v + 1\<rparr> else if splitting v then v\<lparr>v_split := v_split v + 1\<rparr> else v)
     in v\<lparr>locked := False, inserting := False, splitting := False\<rparr>)"

definition unlock_node :: "mheap \<Rightarrow> addr \<Rightarrow> mheap option" where
  "unlock_node h n = with_version h n unlocked"

partial_function (option) lockedParent :: "mheap \<Rightarrow> addr \<Rightarrow> (addr \<times> mheap) option" where
  "lockedParent h n = do {
     p \<leftarrow> parent_of h n;
     h \<leftarrow> lock_node h p;
     p' \<leftarrow> parent_of h n;
     if p \<noteq> p' then do { h \<leftarrow> unlock_node h p; lockedParent h n } else Some (p, h)
   }"

section \<open>findBorder, get and write\<close>

text \<open>The label \<open>retry\<close> is \<open>None\<close>, the label \<open>descend\<close> has its \<open>n\<close> and \<open>v\<close>.\<close>

type_synonym label = "(addr \<times> Version) option"

partial_function (option) find_border_at :: "mheap \<Rightarrow> addr \<Rightarrow> Key \<Rightarrow> label \<Rightarrow> (addr \<times> Version) option" where
  "find_border_at h root k l =
    (if l = None then do {
        v \<leftarrow> stableVersion h root;
        if \<not> is_root v then do { p \<leftarrow> parent_of h root; find_border_at h p k None }
        else find_border_at h root k (Some (root, v))
      }
    else do {
        (n, v) \<leftarrow> l;
        nv \<leftarrow> version_of h n;
        if is_border nv then Some (n, v)
        else do {
          i \<leftarrow> interior_at h n;
          c \<leftarrow> getCurrentSlice k;
          n1 \<leftarrow> findChild i c;
          v1 \<leftarrow> stableVersion h n1;
          nv \<leftarrow> version_of h n;
          if version_xor nv v \<le> version_lock then find_border_at h root k (Some (n1, v1))
          else do {
            v2 \<leftarrow> stableVersion h n;
            if v_split v2 \<noteq> v_split v then find_border_at h root k None
            else find_border_at h root k (Some (n, v2))
          }
        }
      })"

definition findBorder :: "mheap \<Rightarrow> addr \<Rightarrow> Key \<Rightarrow> (addr \<times> Version) option" where
  "findBorder h root k = find_border_at h root k None"

text \<open>The last border node of the list, after a change of the version.\<close>

partial_function (option) follow_next :: "mheap \<Rightarrow> addr \<Rightarrow> Version \<Rightarrow> (addr \<times> Version) option" where
  "follow_next h n v = do {
     b \<leftarrow> border_at h n;
     if \<not> deleted v \<and> next_border b \<noteq> NULL
     then do { v \<leftarrow> stableVersion h (next_border b); follow_next h (next_border b) v }
     else Some (n, v)
   }"

text \<open>The search that \<open>get\<close> and \<open>write\<close> share: what it finds, in which border node and where.\<close>

partial_function (option) search_at ::
  "mheap \<Rightarrow> addr \<Rightarrow> Key \<Rightarrow> label \<Rightarrow> (ExtractResult \<times> addr \<times> addr \<times> nat) option" where
  "search_at h root k l =
    (if l = None then do { (n, v) \<leftarrow> findBorder h root k; search_at h root k (Some (n, v)) }
    else do {
        (n, v) \<leftarrow> l;
        if deleted v then search_at h root k None
        else do {
          b \<leftarrow> border_at h n;
          (t, x, i) \<leftarrow> extractLinkOrValueWithIndexFor b k;
          if version_xor (version b) v > version_lock then do {
            v \<leftarrow> stableVersion h n;
            (n, v) \<leftarrow> follow_next h n v;
            search_at h root k (Some (n, v))
          }
          else if t = NOTFOUND then Some (NOTFOUND, NULL, n, i)
          else if t = VALUE then Some (VALUE, x, n, i)
          else if t = LAYER then do { (_, k) \<leftarrow> next_slice k; search_at h x k None }
          else search_at h root k (Some (n, v))
        }
    })"

definition get :: "mheap \<Rightarrow> addr \<Rightarrow> Key \<Rightarrow> addr option" where
  "get h root k = do { (t, x, _, _) \<leftarrow> search_at h root k None; Some (if t = VALUE then x else NULL) }"

definition write_value :: "mheap \<Rightarrow> addr \<Rightarrow> Key \<Rightarrow> addr \<Rightarrow> (bool \<times> mheap) option" where
  "write_value h root k value = do {
     (t, _, n, i) \<leftarrow> search_at h root k None;
     if t = VALUE then do {
       b \<leftarrow> border_at h n;
       lvs \<leftarrow> set_elem (lv b) i value;
       Some (True, put_node h n (Border (b\<lparr>lv := lvs\<rparr>)))
     }
     else Some (False, h)
   }"

declare lockedParent.simps [code] find_border_at.simps [code] follow_next.simps [code] search_at.simps [code]

end
