(* ===== verification/Masstree_Insert.thy ===== *)
theory Masstree_Insert
  imports Masstree
begin


text \<open>
  Insertion into the Masstree, \<^verbatim>\<open>bptree.h\<close>: the entry of a key with the layers it needs, the border node with room, the
  split of a border node and of the interior nodes above it. The code writes out the entry of a key three times
  (\<open>start_new_tree\<close>, \<open>insert_into_border\<close>, \<open>split_keys_among\<close>); here it is \<open>new_entry\<close>, of which the arrays take the parts.
\<close>

section \<open>The entry of a key\<close>

record entry =
  e_len :: "8 word"
  e_slice :: "64 word"
  e_lv :: addr
  e_suffix :: "KeySlice option"

text \<open>What is stored in a border node; the suffix is written only when there is one.\<close>

definition set_entry :: "BorderNode \<Rightarrow> nat \<Rightarrow> entry \<Rightarrow> BorderNode option" where
  "set_entry b i e = do {
     ls \<leftarrow> set_elem (key_len b) i (e_len e);
     ss \<leftarrow> set_elem (b_slice b) i (e_slice e);
     vs \<leftarrow> set_elem (lv b) i (e_lv e);
     xs \<leftarrow> (case e_suffix e of None \<Rightarrow> Some (key_suffixes b) | Some s \<Rightarrow> set_elem (key_suffixes b) i s);
     Some (b\<lparr>key_len := ls, b_slice := ss, lv := vs, key_suffixes := xs\<rparr>)
   }"

definition put_entry :: "mheap \<Rightarrow> addr \<Rightarrow> nat \<Rightarrow> entry \<Rightarrow> mheap option" where
  "put_entry h p i e = do { b \<leftarrow> border_at h p; b \<leftarrow> set_entry b i e; Some (put_node h p (Border b)) }"

definition new_layer :: "mheap \<Rightarrow> addr \<times> mheap" where
  "new_layer h = new_node h (Border (new_border\<lparr>version := (version new_border)\<lparr>is_root := True\<rparr>\<rparr>))"

text \<open>The loop at \<open>next_layer\<close>.\<close>

partial_function (option) layers_from :: "mheap \<Rightarrow> addr \<Rightarrow> Key \<Rightarrow> addr \<Rightarrow> mheap option" where
  "layers_from h root k value = do {
     current \<leftarrow> getCurrentSlice k;
     if 1 \<le> ks_size current \<and> ks_size current \<le> 7
     then put_entry h root 0 \<lparr>e_len = ks_size current, e_slice = ks_slice current, e_lv = value, e_suffix = None\<rparr>
     else if ks_size current \<noteq> 8 then None
     else if hasNext k then do {
       (nxt, k) \<leftarrow> next_slice k;
       if hasNext k then do {
         let (layer, h) = new_layer h;
         h \<leftarrow> put_entry h root 0 \<lparr>e_len = key_len_layer, e_slice = ks_slice current, e_lv = layer, e_suffix = None\<rparr>;
         layers_from h layer k value
       }
       else put_entry h root 0 \<lparr>e_len = 8, e_slice = ks_slice current, e_lv = value, e_suffix = Some nxt\<rparr>
     }
     else put_entry h root 0 \<lparr>e_len = 8, e_slice = ks_slice current, e_lv = value, e_suffix = None\<rparr>
   }"

definition key_insert_after_new_layer :: "mheap \<Rightarrow> addr \<Rightarrow> Key \<Rightarrow> addr \<Rightarrow> mheap option" where
  "key_insert_after_new_layer h root k value = do {
     v \<leftarrow> version_of h root;
     if is_root v \<and> hasNext k then layers_from h root k value else None
   }"

definition new_entry :: "mheap \<Rightarrow> Key \<Rightarrow> addr \<Rightarrow> (entry \<times> mheap) option" where
  "new_entry h k value = do {
     current \<leftarrow> getCurrentSlice k;
     if 1 \<le> ks_size current \<and> ks_size current \<le> 7
     then Some (\<lparr>e_len = ks_size current, e_slice = ks_slice current, e_lv = value, e_suffix = None\<rparr>, h)
     else if ks_size current \<noteq> 8 then None
     else if hasNext k then do {
       (nxt, k) \<leftarrow> next_slice k;
       if hasNext k then do {
         let (layer, h) = new_layer h;
         h \<leftarrow> key_insert_after_new_layer h layer k value;
         Some (\<lparr>e_len = key_len_layer, e_slice = ks_slice current, e_lv = layer, e_suffix = None\<rparr>, h)
       }
       else Some (\<lparr>e_len = 8, e_slice = ks_slice current, e_lv = value, e_suffix = Some nxt\<rparr>, h)
     }
     else Some (\<lparr>e_len = 8, e_slice = ks_slice current, e_lv = value, e_suffix = None\<rparr>, h)
   }"

definition start_new_tree_mt :: "mheap \<Rightarrow> Key \<Rightarrow> addr \<Rightarrow> (addr \<times> mheap) option" where
  "start_new_tree_mt h k value = do {
     let (root, h) = new_layer h;
     (e, h) \<leftarrow> new_entry h k value;
     h \<leftarrow> put_entry h root 0 e;
     Some (root, h)
   }"

section \<open>A border node with room\<close>

text \<open>\<open>while (i < n && a[i] < s) ++i;\<close>\<close>

function slice_point :: "64 word list \<Rightarrow> nat \<Rightarrow> 64 word \<Rightarrow> nat \<Rightarrow> nat option" where
  "slice_point a n s i =
    (if i < n then do { x \<leftarrow> elem a i; if x < s then slice_point a n s (Suc i) else Some i } else Some i)"
  by pat_completeness auto
termination
  by (relation "measure (\<lambda>(a, n, s, i). n - i)") auto

text \<open>\<open>for (i = n; i > p; --i) a[i] = a[i - 1];\<close>\<close>

function shift_right :: "'a list \<Rightarrow> nat \<Rightarrow> nat \<Rightarrow> 'a list option" where
  "shift_right a i p =
    (if p < i then do { x \<leftarrow> elem a (i - 1); a \<leftarrow> set_elem a i x; shift_right a (i - 1) p } else Some a)"
  by pat_completeness auto
termination
  by (relation "measure (\<lambda>(a, i, p). i)") auto

declare slice_point.simps [simp del] shift_right.simps [simp del]

definition insert_into_border :: "mheap \<Rightarrow> addr \<Rightarrow> Key \<Rightarrow> addr \<Rightarrow> mheap option" where
  "insert_into_border h border k value = do {
     b \<leftarrow> border_at h border;
     n \<leftarrow> numberOfKeys b;
     current \<leftarrow> getCurrentSlice k;
     p \<leftarrow> slice_point (b_slice b) n (ks_slice current) 0;
     ls \<leftarrow> shift_right (key_len b) n p;
     ss \<leftarrow> shift_right (b_slice b) n p;
     vs \<leftarrow> shift_right (lv b) n p;
     (e, h) \<leftarrow> new_entry (put_node h border (Border (b\<lparr>key_len := ls, b_slice := ss, lv := vs\<rparr>))) k value;
     put_entry h border p e
   }"

section \<open>Splits\<close>

definition cut_mt :: "nat \<Rightarrow> nat" where
  "cut_mt len = (if len mod 2 = 0 then len div 2 else len div 2 + 1)"

text \<open>\<open>for (i = 0, j = 0; i < n; ++i, ++j) { if (j == g) ++j; tmp[j] = a[i]; }\<close>\<close>

function spread :: "'a list \<Rightarrow> 'b list \<Rightarrow> ('a \<Rightarrow> 'b) \<Rightarrow> nat \<Rightarrow> nat \<Rightarrow> nat \<Rightarrow> nat \<Rightarrow> 'b list option" where
  "spread a tmp f g i j n =
    (if i < n
     then do {
       let j = (if j = g then Suc j else j);
       x \<leftarrow> elem a i;
       tmp \<leftarrow> set_elem tmp j (f x);
       spread a tmp f g (Suc i) (Suc j) n
     }
     else Some tmp)"
  by pat_completeness auto
termination
  by (relation "measure (\<lambda>(a, tmp, f, g, i, j, n). n - i)") auto

text \<open>\<open>for (; i < n; ++i, ++j) dst[j] = src[i];\<close>\<close>

function transfer_cells :: "'a list \<Rightarrow> 'a list \<Rightarrow> nat \<Rightarrow> nat \<Rightarrow> nat \<Rightarrow> 'a list option" where
  "transfer_cells src dst i j n =
    (if i < n then do { x \<leftarrow> elem src i; dst \<leftarrow> set_elem dst j x; transfer_cells src dst (Suc i) (Suc j) n } else Some dst)"
  by pat_completeness auto
termination
  by (relation "measure (\<lambda>(src, dst, i, j, n). n - i)") auto

text \<open>The same from an array that may have cells that were not written.\<close>

function transfer_known :: "'a carray \<Rightarrow> 'a list \<Rightarrow> nat \<Rightarrow> nat \<Rightarrow> nat \<Rightarrow> 'a list option" where
  "transfer_known src dst i j n =
    (if i < n then do { x \<leftarrow> rd src i; dst \<leftarrow> set_elem dst j x; transfer_known src dst (Suc i) (Suc j) n } else Some dst)"
  by pat_completeness auto
termination
  by (relation "measure (\<lambda>(src, dst, i, j, n). n - i)") auto

function adopt :: "mheap \<Rightarrow> addr list \<Rightarrow> addr \<Rightarrow> nat \<Rightarrow> nat \<Rightarrow> mheap option" where
  "adopt h cs p i n =
    (if i \<le> n then do { c \<leftarrow> elem cs i; h \<leftarrow> set_parent h c p; adopt h cs p (Suc i) n } else Some h)"
  by pat_completeness auto
termination
  by (relation "measure (\<lambda>(h, cs, p, i, n). Suc n - i)") auto

declare spread.simps [simp del] transfer_cells.simps [simp del] transfer_known.simps [simp del] adopt.simps [simp del]

definition split_interior :: "mheap \<Rightarrow> addr \<Rightarrow> addr \<Rightarrow> 64 word \<Rightarrow> addr \<Rightarrow> mheap option" where
  "split_interior h p p1 s n1 = do {
     pn \<leftarrow> interior_at h p;
     p1n \<leftarrow> interior_at h p1;
     g \<leftarrow> slice_point (i_slice pn) (ORDER - 1) s 0;
     tc \<leftarrow> spread (child pn) (new_array (ORDER + 1)) Some (g + 1) 0 0 (n_keys pn + 1);
     ts \<leftarrow> spread (i_slice pn) (new_array ORDER) Some g 0 0 (n_keys pn);
     tc \<leftarrow> wr tc (g + 1) n1;
     ts \<leftarrow> wr ts g s;
     let cut = cut_mt ORDER;
     pc \<leftarrow> transfer_known tc (child pn) 0 0 cut;
     ps \<leftarrow> transfer_known ts (i_slice pn) 0 0 (cut - 1);
     p1c \<leftarrow> transfer_known tc (child p1n) cut 0 (ORDER + 1);
     p1s \<leftarrow> transfer_known ts (i_slice p1n) cut 0 ORDER;
     let h = put_node h p (Interior (pn\<lparr>n_keys := cut - 1, i_slice := ps, child := pc\<rparr>));
     let h = put_node h p1 (Interior (p1n\<lparr>n_keys := n_keys p1n + (ORDER - cut), i_slice := p1s, child := p1c, parent := parent pn\<rparr>));
     adopt h p1c p1 0 (n_keys p1n + (ORDER - cut))
   }"

definition split_border :: "mheap \<Rightarrow> addr \<Rightarrow> addr \<Rightarrow> Key \<Rightarrow> addr \<Rightarrow> mheap option" where
  "split_border h n n1 k value = do {
     b \<leftarrow> border_at h n;
     current \<leftarrow> getCurrentSlice k;
     g \<leftarrow> slice_point (b_slice b) (ORDER - 1) (ks_slice current) 0;
     m \<leftarrow> numberOfKeys b;
     ls \<leftarrow> spread (key_len b) (replicate ORDER 0) id g 0 0 m;
     ss \<leftarrow> spread (b_slice b) (replicate ORDER 0) id g 0 0 m;
     vs \<leftarrow> spread (lv b) (replicate ORDER NULL) id g 0 0 m;
     xs \<leftarrow> spread (key_suffixes b) (replicate ORDER no_slice) id g 0 0 m;
     (e, h) \<leftarrow> new_entry h k value;
     ls \<leftarrow> set_elem ls g (e_len e);
     ss \<leftarrow> set_elem ss g (e_slice e);
     vs \<leftarrow> set_elem vs g (e_lv e);
     xs \<leftarrow> (case e_suffix e of None \<Rightarrow> Some xs | Some s \<Rightarrow> set_elem xs g s);
     let cut = cut_mt (ORDER - 1);
     nls \<leftarrow> transfer_cells ls (replicate (ORDER - 1) 0) 0 0 cut;
     nss \<leftarrow> transfer_cells ss (replicate (ORDER - 1) 0) 0 0 cut;
     nvs \<leftarrow> transfer_cells vs (replicate (ORDER - 1) NULL) 0 0 cut;
     nxs \<leftarrow> transfer_cells xs (replicate (ORDER - 1) no_slice) 0 0 cut;
     n1ls \<leftarrow> transfer_cells ls (replicate (ORDER - 1) 0) cut 0 ORDER;
     n1ss \<leftarrow> transfer_cells ss (replicate (ORDER - 1) 0) cut 0 ORDER;
     n1vs \<leftarrow> transfer_cells vs (replicate (ORDER - 1) NULL) cut 0 ORDER;
     n1xs \<leftarrow> transfer_cells xs (replicate (ORDER - 1) no_slice) cut 0 ORDER;
     b1 \<leftarrow> border_at h n1;
     let h = put_node h n (Border (b\<lparr>key_len := nls, b_slice := nss, lv := nvs, key_suffixes := nxs, next_border := n1\<rparr>));
     Some (put_node h n1 (Border (b1\<lparr>key_len := n1ls, b_slice := n1ss, lv := n1vs, key_suffixes := n1xs,
       next_border := next_border b, prev_border := n, parent := parent b\<rparr>)))
   }"

definition create_root_with_children :: "mheap \<Rightarrow> addr \<Rightarrow> 64 word \<Rightarrow> addr \<Rightarrow> (addr \<times> mheap) option" where
  "create_root_with_children h left s right = do {
     let (root, h) = new_node h (Interior (new_interior\<lparr>version := (version new_interior)\<lparr>is_root := True\<rparr>, n_keys := 1,
       i_slice := (i_slice new_interior)[0 := s], child := (child new_interior)[0 := left, 1 := right]\<rparr>));
     h \<leftarrow> set_parent h left root;
     h \<leftarrow> set_parent h right root;
     Some (root, h)
   }"

definition insert_into_parent_mt :: "mheap \<Rightarrow> addr \<Rightarrow> addr \<Rightarrow> 64 word \<Rightarrow> mheap option" where
  "insert_into_parent_mt h p n1 s = do {
     pn \<leftarrow> interior_at h p;
     g \<leftarrow> slice_point (i_slice pn) (n_keys pn) s 0;
     cs \<leftarrow> shift_right (child pn) (n_keys pn + 1) (g + 1);
     ss \<leftarrow> shift_right (i_slice pn) (n_keys pn) g;
     cs \<leftarrow> set_elem cs (g + 1) n1;
     ss \<leftarrow> set_elem ss g s;
     Some (put_node h p (Interior (pn\<lparr>n_keys := n_keys pn + 1, i_slice := ss, child := cs\<rparr>)))
   }"

text \<open>The loop at \<open>ascend\<close>; the result is the new root, if there is one.\<close>

partial_function (option) ascend :: "mheap \<Rightarrow> addr \<Rightarrow> addr \<Rightarrow> 64 word \<Rightarrow> (addr \<times> mheap) option" where
  "ascend h n n1 s = do {
     (p, h) \<leftarrow> lockedParent h n;
     if p = NULL then do {
       (p, h) \<leftarrow> create_root_with_children h n s n1;
       h \<leftarrow> unlock_node h n;
       h \<leftarrow> unlock_node h n1;
       Some (p, h)
     }
     else do {
       pn \<leftarrow> interior_at h p;
       if isNotFull pn then do {
         h \<leftarrow> with_version h p (\<lambda>v. v\<lparr>inserting := True\<rparr>);
         h \<leftarrow> insert_into_parent_mt h p n1 s;
         h \<leftarrow> unlock_node h n;
         h \<leftarrow> unlock_node h n1;
         h \<leftarrow> unlock_node h p;
         Some (NULL, h)
       }
       else do {
         h \<leftarrow> with_version h p (\<lambda>v. v\<lparr>splitting := True\<rparr>);
         h \<leftarrow> unlock_node h n;
         pv \<leftarrow> version_of h p;
         let (p1, h) = new_node h (Interior (new_interior\<lparr>version := pv\<rparr>));
         h \<leftarrow> split_interior h p p1 s n1;
         h \<leftarrow> unlock_node h n1;
         ascend h p p1 s
       }
     }
   }"

definition split_mt :: "mheap \<Rightarrow> addr \<Rightarrow> Key \<Rightarrow> addr \<Rightarrow> (addr \<times> mheap) option" where
  "split_mt h n k value = do {
     v \<leftarrow> version_of h n;
     if \<not> locked v then None
     else do {
       h \<leftarrow> with_version h n (\<lambda>v. v\<lparr>is_root := False, splitting := True\<rparr>);
       v \<leftarrow> version_of h n;
       let (n1, h) = new_node h (Border (new_border\<lparr>version := v\<rparr>));
       s \<leftarrow> getCurrentSlice k;
       h \<leftarrow> split_border h n n1 k value;
       ascend h n n1 (ks_slice s)
     }
   }"

definition insert_mt :: "mheap \<Rightarrow> addr \<Rightarrow> Key \<Rightarrow> addr \<Rightarrow> (addr \<times> mheap) option" where
  "insert_mt h root k value =
    (if root = NULL then start_new_tree_mt h k value
     else do {
       (found, h) \<leftarrow> write_value h root k value;
       if found then Some (root, h)
       else do {
         (border, _) \<leftarrow> findBorder h root k;
         b \<leftarrow> border_at h border;
         space \<leftarrow> hasSpace b;
         if space then do { h \<leftarrow> insert_into_border h border k value; Some (root, h) }
         else do {
           h \<leftarrow> lock_node h border;
           (new_root, h) \<leftarrow> split_mt h border k value;
           Some (if new_root \<noteq> NULL then new_root else root, h)
         }
       }
     })"

definition print_sub_tree :: "mheap \<Rightarrow> addr \<Rightarrow> 64 word list option" where
  "print_sub_tree h root = do {
     v \<leftarrow> version_of h root;
     if is_border v then do { b \<leftarrow> border_at h root; Some (b_slice b) } else do { i \<leftarrow> interior_at h root; Some (i_slice i) }
   }"

declare layers_from.simps [code] ascend.simps [code]

end
