(* ===== verification/Masstree_Map.thy ===== *)
theory Masstree_Map
  imports Masstree_Insert Map_Store
begin


text \<open>
  A Masstree of one border node is a map: keys of one slice of 1 to 8 bytes, at most 15 of them, values that are no null
  pointers. \<open>get\<close> and \<open>insert\<close> satisfy the contract of a bounded store. For keys of several slices, a new tree answers for
  the key it was made for.
\<close>

section \<open>Arrays with a used part\<close>

lemma elem_append: "i < length xs \<Longrightarrow> elem (xs @ ys) i = Some (xs ! i)"
  by (simp add: elem_def nth_append)

lemma shift_right_Some:
  "i < length a \<Longrightarrow> \<exists>b. shift_right a i p = Some b \<and> length b = length a \<and>
     (\<forall>j < length a. b ! j = (if p < j \<and> j \<le> i then a ! (j - 1) else a ! j))"
proof (induction i arbitrary: a)
  case 0
  then show ?case by (simp add: shift_right.simps [of _ 0])
next
  case (Suc i)
  show ?case
  proof (cases "p < Suc i")
    case True
    let ?a = "a[Suc i := a ! i]"
    from Suc obtain b where b: "shift_right ?a i p = Some b" "length b = length a"
      "\<forall>j < length a. b ! j = (if p < j \<and> j \<le> i then ?a ! (j - 1) else ?a ! j)" by (metis Suc_lessD length_list_update)
    have "shift_right a (Suc i) p = Some b" using True Suc.prems b(1) by (subst shift_right.simps) (simp add: elem_def set_elem_def)
    moreover have "\<forall>j < length a. b ! j = (if p < j \<and> j \<le> Suc i then a ! (j - 1) else a ! j)"
      using b(3) True Suc.prems by (auto simp: nth_list_update le_Suc_eq)
    ultimately show ?thesis using b(2) by blast
  next
    case False
    then show ?thesis by (subst shift_right.simps) auto
  qed
qed

text \<open>Room is made in the used part, and filled.\<close>

lemma shift_and_set:
  assumes "p \<le> length xs" "length xs < N"
  shows "\<exists>b. shift_right (xs @ replicate (N - length xs) z) (length xs) p = Some b \<and> length b = N \<and>
    b[p := x] = (take p xs @ x # drop p xs) @ replicate (N - Suc (length xs)) z"
proof -
  let ?a = "xs @ replicate (N - length xs) z"
  obtain b where b: "shift_right ?a (length xs) p = Some b" "length b = N"
    "\<forall>j < N. b ! j = (if p < j \<and> j \<le> length xs then ?a ! (j - 1) else ?a ! j)"
    using shift_right_Some [of "length xs" ?a p] assms by auto
  have "b[p := x] = (take p xs @ x # drop p xs) @ replicate (N - Suc (length xs)) z"
    using assms b(2,3) by (intro nth_equalityI) (auto simp: nth_list_update nth_append nth_Cons' min_def)
  then show ?thesis using b(1,2) by blast
qed

section \<open>The representation\<close>

type_synonym mt_entry = "64 word \<times> 8 word \<times> addr"

abbreviation mslice :: "mt_entry \<Rightarrow> 64 word" where "mslice e \<equiv> fst e"
abbreviation mlen :: "mt_entry \<Rightarrow> 8 word" where "mlen e \<equiv> fst (snd e)"
abbreviation mval :: "mt_entry \<Rightarrow> addr" where "mval e \<equiv> snd (snd e)"
abbreviation mkey :: "mt_entry \<Rightarrow> 64 word \<times> 8 word" where "mkey e \<equiv> (mslice e, mlen e)"

abbreviation slots :: nat where "slots \<equiv> ORDER - 1"

definition border_holds :: "BorderNode \<Rightarrow> mt_entry list \<Rightarrow> bool" where
  "border_holds b es \<longleftrightarrow> length es \<le> slots \<and>
     b_slice b = map mslice es @ replicate (slots - length es) 0 \<and>
     key_len b = map mlen es @ replicate (slots - length es) 0 \<and>
     lv b = map mval es @ replicate (slots - length es) NULL \<and> length (key_suffixes b) = slots"

definition entries_ok :: "mt_entry list \<Rightarrow> bool" where
  "entries_ok es \<longleftrightarrow> sorted (map mslice es) \<and> distinct (map mkey es) \<and> (\<forall>e \<in> set es. 1 \<le> mlen e \<and> mlen e \<le> 8 \<and> mval e \<noteq> NULL)"

definition quiet_root :: "Version \<Rightarrow> bool" where
  "quiet_root v \<longleftrightarrow> is_border v \<and> is_root v \<and> \<not> deleted v \<and> \<not> splitting v \<and> \<not> inserting v"

definition entries_map :: "mt_entry list \<Rightarrow> (64 word \<times> 8 word \<rightharpoonup> addr)" where
  "entries_map es = map_of (map (\<lambda>e. (mkey e, mval e)) es)"

type_synonym mt_state = "addr \<times> mheap"

definition mt_holds :: "mt_state \<Rightarrow> (64 word \<times> 8 word \<rightharpoonup> addr) \<Rightarrow> bool" where
  "mt_holds s m \<longleftrightarrow> (case s of (root, h) \<Rightarrow> next_addr h \<noteq> NULL \<and>
     (if root = NULL then m = Map.empty
      else \<exists>b es. cells h root = Some (Border b) \<and> quiet_root (version b) \<and> border_holds b es \<and> entries_ok es \<and> m = entries_map es))"

definition one_slice :: "64 word \<times> 8 word \<Rightarrow> Key" where
  "one_slice k = key_of [\<lparr>ks_slice = fst k, ks_size = snd k\<rparr>] 1"

definition mt_valid :: "64 word \<times> 8 word \<Rightarrow> bool" where
  "mt_valid k \<longleftrightarrow> 1 \<le> snd k \<and> snd k \<le> 8"

definition mt_lookup :: "mt_state \<Rightarrow> 64 word \<times> 8 word \<Rightarrow> addr option option" where
  "mt_lookup s k = (case s of (root, h) \<Rightarrow> if root = NULL then Some None
     else do { p \<leftarrow> get h root (one_slice k); Some (if p = NULL then None else Some p) })"

definition mt_store :: "mt_state \<Rightarrow> 64 word \<times> 8 word \<Rightarrow> addr \<Rightarrow> mt_state option" where
  "mt_store s k v = (case s of (root, h) \<Rightarrow> insert_mt h root (one_slice k) v)"

definition mt_room :: "(64 word \<times> 8 word \<rightharpoonup> addr) \<Rightarrow> 64 word \<times> 8 word \<Rightarrow> addr \<Rightarrow> bool" where
  "mt_room m k v \<longleftrightarrow> mt_valid k \<and> v \<noteq> NULL \<and> (m k \<noteq> None \<or> card (dom m) < slots)"

section \<open>Searching\<close>

lemma one_slice_simps [simp]:
  "getCurrentSlice (one_slice k) = Some \<lparr>ks_slice = fst k, ks_size = snd k\<rparr>" "\<not> hasNext (one_slice k)"
  by (simp_all add: one_slice_def key_of_def getCurrentSlice_def hasNext_def elem_def)

lemma find_key_Some: "distinct (map mkey es) \<Longrightarrow> j < length es \<Longrightarrow> entries_map es (mkey (es ! j)) = Some (mval (es ! j))"
  unfolding entries_map_def by (rule map_of_is_SomeI) (auto simp: comp_def intro!: image_eqI [of _ _ "es ! j"])

lemma find_key_None: "entries_map es k = None \<longleftrightarrow> k \<notin> mkey ` set es"
  by (auto simp: entries_map_def map_of_eq_None_iff image_image)

lemma last_slice_from_holds:
  assumes "border_holds b es" "i \<le> slots" "1 \<le> snd k"
  shows "last_slice_from b \<lparr>ks_slice = fst k, ks_size = snd k\<rparr> i = Some
    (case find (\<lambda>j. mkey (es ! j) = k) [i..<length es] of None \<Rightarrow> (NOTFOUND, NULL, 0) | Some j \<Rightarrow> (VALUE, mval (es ! j), j))"
  using assms(2)
proof (induction "slots - i" arbitrary: i)
  case 0
  then show ?case using assms(1) by (subst last_slice_from.simps) (simp add: border_holds_def)
next
  case (Suc d)
  then have i: "i < slots" by simp
  have IH: "last_slice_from b \<lparr>ks_slice = fst k, ks_size = snd k\<rparr> (Suc i) = Some
    (case find (\<lambda>j. mkey (es ! j) = k) [Suc i..<length es] of None \<Rightarrow> (NOTFOUND, NULL, 0) | Some j \<Rightarrow> (VALUE, mval (es ! j), j))"
    using Suc by simp
  show ?case
  proof (cases "i < length es")
    case True
    then have u: "[i..<length es] = i # [Suc i..<length es]" by (simp add: upt_conv_Cons)
    have e: "elem (b_slice b) i = Some (mslice (es ! i))" "elem (key_len b) i = Some (mlen (es ! i))" "elem (lv b) i = Some (mval (es ! i))"
      using True assms(1) by (simp_all add: border_holds_def elem_append)
    show ?thesis using i e IH by (subst last_slice_from.simps) (auto simp: u prod_eq_iff)
  next
    case False
    then have "elem (b_slice b) i = Some 0" "elem (key_len b) i = Some 0"
      using i assms(1) by (simp_all add: border_holds_def elem_def nth_append)
    moreover have "snd k \<noteq> 0" using assms(3) by auto
    ultimately show ?thesis using i False IH by (subst last_slice_from.simps) simp
  qed
qed

lemma find_upt_key:
  assumes "distinct (map mkey es)"
  shows "find (\<lambda>j. mkey (es ! j) = k) [0..<length es] = None \<longleftrightarrow> entries_map es k = None"
    "find (\<lambda>j. mkey (es ! j) = k) [0..<length es] = Some j \<Longrightarrow> j < length es \<and> mkey (es ! j) = k"
proof -
  have "k \<notin> mkey ` set es \<longleftrightarrow> (\<forall>j < length es. mkey (es ! j) \<noteq> k)" by (metis (no_types, lifting) image_iff in_set_conv_nth)
  then show "find (\<lambda>j. mkey (es ! j) = k) [0..<length es] = None \<longleftrightarrow> entries_map es k = None"
    by (simp add: find_None_iff find_key_None Ball_def)
  show "find (\<lambda>j. mkey (es ! j) = k) [0..<length es] = Some j \<Longrightarrow> j < length es \<and> mkey (es ! j) = k"
    by (auto simp: find_Some_iff)
qed

lemma find_border_quiet:
  assumes "cells h root = Some (Border b)" "quiet_root (version b)"
  shows "findBorder h root k = Some (root, version b)"
proof -
  have "find_border_at h root k (Some (root, version b)) = Some (root, version b)"
    using assms by (subst find_border_at.simps) (simp add: version_of_def quiet_root_def)
  then show ?thesis unfolding findBorder_def
    using assms by (subst find_border_at.simps) (simp add: stableVersion_def version_of_def quiet_root_def)
qed

lemma search_at_None: "search_at h root k None = do { (n, v) \<leftarrow> findBorder h root k; search_at h root k (Some (n, v)) }"
  by (subst search_at.simps) simp

lemma version_xor_same [simp]: "version_xor v v = 0"
  by (simp add: version_xor_def)

lemma search_border:
  assumes "cells h root = Some (Border b)" "quiet_root (version b)" "extractLinkOrValueWithIndexFor b k = Some (t, x, i)" "t = VALUE \<or> t = NOTFOUND \<and> x = NULL"
  shows "search_at h root k None = Some (t, x, root, i)"
proof -
  have "search_at h root k (Some (root, version b)) = Some (t, x, root, i)"
    using assms by (subst search_at.simps) (auto simp: border_at_def quiet_root_def)
  then show ?thesis using assms by (simp add: search_at_None find_border_quiet)
qed

lemma search_holds:
  assumes "cells h root = Some (Border b)" "quiet_root (version b)" "border_holds b es" "entries_ok es" "mt_valid k"
  shows "entries_map es k = None \<Longrightarrow> search_at h root (one_slice k) None = Some (NOTFOUND, NULL, root, 0)"
    "entries_map es k = Some v \<Longrightarrow> \<exists>j < length es. mkey (es ! j) = k \<and> mval (es ! j) = v \<and> search_at h root (one_slice k) None = Some (VALUE, v, root, j)"
proof -
  have d: "distinct (map mkey es)" and k: "1 \<le> snd k" using assms by (simp_all add: entries_ok_def mt_valid_def)
  note x = last_slice_from_holds [OF assms(3) _ k, of 0]
  note s = search_border [OF assms(1,2), of "one_slice k"]
  show "search_at h root (one_slice k) None = Some (NOTFOUND, NULL, root, 0)" if "entries_map es k = None"
    using that find_upt_key(1) [OF d, of k] x by (intro s) (simp_all add: extractLinkOrValueWithIndexFor_def)
  show "\<exists>j < length es. mkey (es ! j) = k \<and> mval (es ! j) = v \<and> search_at h root (one_slice k) None = Some (VALUE, v, root, j)"
    if v: "entries_map es k = Some v"
  proof -
    obtain j where j: "find (\<lambda>j. mkey (es ! j) = k) [0..<length es] = Some j" using find_upt_key(1) [OF d, of k] v by (cases "find (\<lambda>j. mkey (es ! j) = k) [0..<length es]") auto
    then have j': "j < length es" "mkey (es ! j) = k" using find_upt_key(2) [OF d] by blast+
    then have "mval (es ! j) = v" using find_key_Some [OF d j'(1)] v by simp
    then have "extractLinkOrValueWithIndexFor b (one_slice k) = Some (VALUE, v, j)" using x j by (simp add: extractLinkOrValueWithIndexFor_def)
    then show ?thesis using s j' \<open>mval (es ! j) = v\<close> by blast
  qed
qed

lemma get_holds:
  assumes "mt_holds s m" "mt_valid k"
  shows "mt_lookup s k = Some (m k)"
proof -
  obtain root h where s: "s = (root, h)" by (cases s)
  show ?thesis
  proof (cases "root = NULL")
    case False
    then obtain b es where b: "cells h root = Some (Border b)" "quiet_root (version b)" "border_holds b es" "entries_ok es" "m = entries_map es"
      using assms(1) by (auto simp: mt_holds_def s)
    note f = search_holds [OF b(1-4) assms(2)]
    show ?thesis
    proof (cases "m k")
      case None
      then show ?thesis using False f(1) b(5) by (simp add: mt_lookup_def s get_def)
    next
      case (Some v)
      then obtain j where "j < length es" "mval (es ! j) = v" "search_at h root (one_slice k) None = Some (VALUE, v, root, j)" using f(2) b(5) by blast
      moreover from this have "v \<noteq> NULL" using b(4) by (auto simp: entries_ok_def)
      ultimately show ?thesis using False Some by (simp add: mt_lookup_def s get_def)
    qed
  qed (use assms s in \<open>simp add: mt_holds_def mt_lookup_def\<close>)
qed

section \<open>Insertion\<close>

lemma entries_ok_len: "entries_ok es \<Longrightarrow> e \<in> set es \<Longrightarrow> mlen e > 0"
  by (auto simp: entries_ok_def word_gt_0 simp flip: word_neq_0_conv)

lemma count_keys_holds:
  assumes "border_holds b es" "entries_ok es" "i \<le> length es"
  shows "count_keys b i = Some (length es - i)"
  using assms(3)
proof (induction "length es - i" arbitrary: i)
  case 0
  then have "i = length es" by simp
  moreover have "length es < slots \<Longrightarrow> elem (key_len b) (length es) = Some 0"
    using assms(1) by (simp add: border_holds_def elem_def nth_append)
  ultimately show ?case by (subst count_keys.simps) simp
next
  case (Suc d)
  then have i: "i < length es" "i < slots" using assms(1) by (auto simp: border_holds_def)
  then have "elem (key_len b) i = Some (mlen (es ! i))" using assms(1) by (simp add: border_holds_def elem_append)
  moreover have "mlen (es ! i) > 0" using entries_ok_len [OF assms(2)] i by simp
  moreover have "count_keys b (Suc i) = Some (length es - Suc i)" using Suc by simp
  ultimately show ?case using i by (subst count_keys.simps) simp
qed

lemma hasSpace_holds:
  assumes "border_holds b es" "entries_ok es"
  shows "hasSpace b = Some (length es < slots)"
proof (cases "length es < slots")
  case True
  then show ?thesis using assms by (simp add: hasSpace_def border_holds_def elem_def nth_append)
next
  case False
  then have "length es = slots" using assms by (simp add: border_holds_def)
  moreover from this have "mlen (es ! 14) \<noteq> 0" using entries_ok_len [OF assms(2), of "es ! 14"] by simp
  ultimately show ?thesis using assms by (simp add: hasSpace_def border_holds_def elem_def)
qed

lemma slice_point_sorted:
  assumes "sorted xs" "i \<le> length xs" "\<forall>j < i. xs ! j < s"
  shows "\<exists>p \<le> length xs. slice_point (xs @ ys) (length xs) s i = Some p \<and> (\<forall>x \<in> set (take p xs). x < s) \<and> (\<forall>x \<in> set (drop p xs). s \<le> x)"
  using assms(2,3)
proof (induction "length xs - i" arbitrary: i)
  case 0
  then show ?case by (subst slice_point.simps) (auto simp: in_set_conv_nth intro!: exI [of _ "length xs"])
next
  case (Suc d)
  then have i: "i < length xs" by simp
  show ?case
  proof (cases "xs ! i < s")
    case True
    then have "\<forall>j < Suc i. xs ! j < s" using Suc.prems by (auto simp: less_Suc_eq)
    moreover have "slice_point (xs @ ys) (length xs) s i = slice_point (xs @ ys) (length xs) s (Suc i)"
      using i True by (subst slice_point.simps) (simp add: elem_append)
    ultimately show ?thesis using Suc.hyps(1) [of "Suc i"] Suc.hyps(2) i by simp
  next
    case False
    then have "slice_point (xs @ ys) (length xs) s i = Some i" using i by (subst slice_point.simps) (simp add: elem_append)
    moreover have "\<forall>x \<in> set (take i xs). x < s" using Suc.prems by (auto simp: in_set_conv_nth)
    moreover have "s \<le> x" if "x \<in> set (drop i xs)" for x
    proof -
      from that obtain j where "j < length (drop i xs)" "x = drop i xs ! j" by (auto simp: in_set_conv_nth)
      then have "xs ! i \<le> x" using assms(1) by (auto intro!: sorted_nth_mono)
      then show ?thesis using False by simp
    qed
    ultimately show ?thesis using i by (intro exI [of _ i]) simp
  qed
qed

lemma valid_cases: "mt_valid k \<Longrightarrow> snd k \<le> 7 \<or> snd k = 8"
  by (auto simp: mt_valid_def word_le_nat_alt word_unat_eq_iff)

lemma new_entry_one:
  "mt_valid k \<Longrightarrow> new_entry h (one_slice k) v = Some (\<lparr>e_len = snd k, e_slice = fst k, e_lv = v, e_suffix = None\<rparr>, h)"
  using valid_cases [of k] by (auto simp: new_entry_def mt_valid_def)

lemma entries_ok_insert:
  assumes "entries_ok es" "entries_map es k = None" "mt_valid k" "v \<noteq> NULL"
    "\<forall>e \<in> set (take p es). mslice e < fst k" "\<forall>e \<in> set (drop p es). fst k \<le> mslice e"
  shows "entries_ok (take p es @ (fst k, snd k, v) # drop p es)" "entries_map (take p es @ (fst k, snd k, v) # drop p es) = (entries_map es)(k \<mapsto> v)"
proof -
  have es: "es = take p es @ drop p es" by simp
  have nk: "k \<notin> mkey ` set es" using assms(2) by (simp add: find_key_None)
  then have n1: "k \<notin> mkey ` set (take p es)" "k \<notin> mkey ` set (drop p es)" using set_take_subset [of p es] set_drop_subset [of p es] by blast+
  have "sorted (map mslice (take p es) @ map mslice (drop p es))" "distinct (map mkey (take p es) @ map mkey (drop p es))"
    using assms(1) by (simp_all add: entries_ok_def flip: map_append)
  moreover have "\<forall>e \<in> set (take p es) \<union> set (drop p es). 1 \<le> mlen e \<and> mlen e \<le> 8 \<and> mval e \<noteq> NULL"
    using assms(1) set_take_subset [of p es] set_drop_subset [of p es] unfolding entries_ok_def by blast
  ultimately show "entries_ok (take p es @ (fst k, snd k, v) # drop p es)"
    using assms(3-6) n1 by (auto simp: entries_ok_def sorted_append mt_valid_def intro: less_imp_le)
  have "map_of (map (\<lambda>e. (mkey e, mval e)) (take p es)) k = None" using n1 by (auto simp: map_of_eq_None_iff image_image)
  then show "entries_map (take p es @ (fst k, snd k, v) # drop p es) = (entries_map es)(k \<mapsto> v)"
    by (subst (2) es, unfold entries_map_def map_append map_of_append) (simp add: fun_eq_iff map_add_def split: option.splits)
qed

lemma replicate_15: "replicate 15 z = z # replicate 14 z"
  by (simp add: eval_nat_numeral)

lemma card_entries: "distinct (map mkey es) \<Longrightarrow> card (dom (entries_map es)) = length es"
proof -
  assume d: "distinct (map mkey es)"
  have "dom (entries_map es) = set (map mkey es)" by (intro set_eqI) (simp add: domIff find_key_None)
  then show ?thesis using distinct_card [OF d] by simp
qed

lemma insert_room:
  assumes "cells h root = Some (Border b)" "border_holds b es" "entries_ok es" "entries_map es k = None" "mt_valid k" "v \<noteq> NULL" "length es < slots"
  shows "\<exists>b' es'. insert_into_border h root (one_slice k) v = Some (put_node h root (Border b')) \<and> version b' = version b \<and>
    border_holds b' es' \<and> entries_ok es' \<and> entries_map es' = (entries_map es)(k \<mapsto> v)"
proof -
  have srt: "sorted (map mslice es)" using assms(3) by (simp add: entries_ok_def)
  have arrs: "b_slice b = map mslice es @ replicate (slots - length es) 0" "key_len b = map mlen es @ replicate (slots - length es) 0"
    "lv b = map mval es @ replicate (slots - length es) NULL" using assms(2) by (simp_all add: border_holds_def)
  obtain p where p: "p \<le> length es" "slice_point (b_slice b) (length es) (fst k) 0 = Some p"
    "\<forall>e \<in> set (take p es). mslice e < fst k" "\<forall>e \<in> set (drop p es). fst k \<le> mslice e"
    using slice_point_sorted [OF srt, of 0 "fst k" "replicate (slots - length es) 0"] by (auto simp: arrs take_map drop_map)
  let ?es = "take p es @ (fst k, snd k, v) # drop p es"
  have shift: "\<exists>a. shift_right (map f es @ replicate (slots - length es) z) (length es) p = Some a \<and> length a = slots \<and>
      a[p := f (fst k, snd k, v)] = map f ?es @ replicate (slots - length ?es) z" for f :: "mt_entry \<Rightarrow> 'a" and z
    using shift_and_set [of p "map f es" slots z "f (fst k, snd k, v)"] p(1) assms(7) by (simp add: take_map drop_map)
  obtain ls where ls: "shift_right (key_len b) (length es) p = Some ls" "length ls = slots" "ls[p := snd k] = map mlen ?es @ replicate (slots - length ?es) 0"
    using shift [of mlen 0] unfolding arrs by auto
  obtain ss where ss: "shift_right (b_slice b) (length es) p = Some ss" "length ss = slots" "ss[p := fst k] = map mslice ?es @ replicate (slots - length ?es) 0"
    using shift [of mslice 0] unfolding arrs by auto
  obtain vs where vs: "shift_right (lv b) (length es) p = Some vs" "length vs = slots" "vs[p := v] = map mval ?es @ replicate (slots - length ?es) NULL"
    using shift [of mval NULL] unfolding arrs by auto
  let ?b = "b\<lparr>key_len := ls[p := snd k], b_slice := ss[p := fst k], lv := vs[p := v]\<rparr>"
  have n: "numberOfKeys b = Some (length es)" using count_keys_holds [OF assms(2,3), of 0] by (simp add: numberOfKeys_def)
  have "insert_into_border h root (one_slice k) v = Some (put_node h root (Border ?b))"
    using assms(1) n p(1,2) ls(1,2) ss(1,2) vs(1,2) assms(7)
    by (simp add: insert_into_border_def border_at_def new_entry_one [OF assms(5)] put_entry_def put_node_def set_entry_def set_elem_def)
  moreover have "border_holds ?b ?es" using assms(2,7) p(1) ls(3) ss(3) vs(3) by (simp add: border_holds_def)
  ultimately show ?thesis using entries_ok_insert [OF assms(3-6) p(3,4)] by (intro exI [of _ ?b] exI [of _ ?es]) simp
qed

lemma write_holds:
  assumes "cells h root = Some (Border b)" "quiet_root (version b)" "border_holds b es" "entries_ok es" "mt_valid k" "entries_map es k = Some v0" "v \<noteq> NULL"
  shows "\<exists>b' es'. write_value h root (one_slice k) v = Some (True, put_node h root (Border b')) \<and> version b' = version b \<and>
    border_holds b' es' \<and> entries_ok es' \<and> entries_map es' = (entries_map es)(k \<mapsto> v)"
proof -
  obtain j where j: "j < length es" "mkey (es ! j) = k" "search_at h root (one_slice k) None = Some (VALUE, v0, root, j)"
    using search_holds(2) [OF assms(1-6)] by blast
  let ?es = "es[j := (fst k, snd k, v)]" and ?b = "b\<lparr>lv := (lv b)[j := v]\<rparr>"
  have k: "mslice (es ! j) = fst k" "mlen (es ! j) = snd k" using j(2) by auto
  have same: "map mslice ?es = map mslice es" "map mlen ?es = map mlen es" "map mkey ?es = map mkey es"
    using j(1) k by (simp_all add: map_update list_update_same_conv)
  have w: "write_value h root (one_slice k) v = Some (True, put_node h root (Border ?b))"
    using assms(1,3) j(1,3) by (simp add: write_value_def border_at_def set_elem_def border_holds_def)
  have h: "border_holds ?b ?es" using assms(3) j(1) same by (simp add: border_holds_def map_update list_update_append)
  have ok: "entries_ok ?es" using assms(4,5,7) same by (auto simp: entries_ok_def mt_valid_def dest!: set_update_subset_insert [THEN subsetD])
  have "entries_map ?es x = ((entries_map es)(k \<mapsto> v)) x" for x
  proof (cases "x = k")
    case True
    have "mkey (?es ! j) = k" "mval (?es ! j) = v" using j(1) by simp_all
    then show ?thesis using True find_key_Some [of ?es j] ok j(1) by (simp add: entries_ok_def)
  next
    case False
    have e: "es = take j es @ es ! j # drop (Suc j) es" "?es = take j es @ (fst k, snd k, v) # drop (Suc j) es"
      using j(1) by (simp_all add: id_take_nth_drop upd_conv_take_nth_drop)
    have "map_of (map (\<lambda>e. (mkey e, mval e)) (take j es @ y # drop (Suc j) es)) x =
        map_of (map (\<lambda>e. (mkey e, mval e)) (take j es @ drop (Suc j) es)) x" if "mkey y = k" for y
      using that False by (auto simp: map_add_def split: option.splits)
    from this [of "es ! j"] this [of "(fst k, snd k, v)"] k
    have "map_of (map (\<lambda>e. (mkey e, mval e)) ?es) x = map_of (map (\<lambda>e. (mkey e, mval e)) es) x" unfolding e(2) by (simp flip: e(1))
    then show ?thesis using False by (simp add: entries_map_def)
  qed
  then show ?thesis using w h ok by (intro exI [of _ ?b] exI [of _ ?es]) (simp add: fun_eq_iff)
qed

lemma store_holds:
  assumes "mt_holds s m" "mt_room m k v"
  shows "\<exists>s'. mt_store s k v = Some s' \<and> mt_holds s' (m(k \<mapsto> v))"
proof -
  obtain root h where s: "s = (root, h)" by (cases s)
  have k: "mt_valid k" and v: "v \<noteq> NULL" using assms(2) by (simp_all add: mt_room_def)
  show ?thesis
  proof (cases "root = NULL")
    case True
    then have m: "m = Map.empty" and n: "next_addr h \<noteq> NULL" using assms(1) by (auto simp: mt_holds_def s)
    let ?r = "next_addr h" and ?b = "new_border\<lparr>version := (version new_border)\<lparr>is_root := True\<rparr>, key_len := (key_len new_border)[0 := snd k],
      b_slice := (b_slice new_border)[0 := fst k], lv := (lv new_border)[0 := v]\<rparr>"
    have st: "mt_store s k v = Some (?r, h\<lparr>cells := (cells h)(?r \<mapsto> Border ?b), next_addr := ?r + 1\<rparr>)"
      using True by (simp add: mt_store_def s insert_mt_def start_new_tree_mt_def new_layer_def new_node_def new_entry_one [OF k] put_entry_def border_at_def
        set_entry_def set_elem_def put_node_def new_border_def)
    have "border_holds ?b [(fst k, snd k, v)]" by (simp add: border_holds_def new_border_def replicate_15)
    moreover have "entries_ok [(fst k, snd k, v)]" using k v by (simp add: entries_ok_def mt_valid_def)
    moreover have "entries_map [(fst k, snd k, v)] = [k \<mapsto> v]" by (simp add: entries_map_def)
    moreover have "quiet_root (version ?b)" by (simp add: quiet_root_def new_border_def version0_def)
    ultimately have "mt_holds (?r, h\<lparr>cells := (cells h)(?r \<mapsto> Border ?b), next_addr := ?r + 1\<rparr>) [k \<mapsto> v]"
      using n unfolding mt_holds_def by (auto intro!: exI [of _ ?b] exI [of _ "[(fst k, snd k, v)]"])
    with st m show ?thesis by blast
  next
    case False
    then obtain b es where b: "cells h root = Some (Border b)" "quiet_root (version b)" "border_holds b es" "entries_ok es" "m = entries_map es"
      and n: "next_addr h \<noteq> NULL" using assms(1) by (auto simp: mt_holds_def s)
    have put: "\<exists>s'. Some (root, put_node h root (Border b')) = Some s' \<and> mt_holds s' (m(k \<mapsto> v))"
      if "version b' = version b" "border_holds b' es'" "entries_ok es'" "entries_map es' = (entries_map es)(k \<mapsto> v)" for b' es'
      using that b(2,5) n False by (auto simp: mt_holds_def put_node_def)
    show ?thesis
    proof (cases "m k")
      case (Some v0)
      then obtain b' es' where w: "write_value h root (one_slice k) v = Some (True, put_node h root (Border b'))" "version b' = version b"
        "border_holds b' es'" "entries_ok es'" "entries_map es' = (entries_map es)(k \<mapsto> v)"
        using write_holds [OF b(1-4) k _ v] b(5) by metis
      then show ?thesis using put [OF w(2-5)] False by (simp add: mt_store_def s insert_mt_def)
    next
      case None
      have e: "entries_map es k = None" using None b(5) by simp
      have len: "length es < slots" using assms(2) None card_entries [of es] b(4,5) by (simp add: mt_room_def entries_ok_def)
      obtain b' es' where i: "insert_into_border h root (one_slice k) v = Some (put_node h root (Border b'))" "version b' = version b"
        "border_holds b' es'" "entries_ok es'" "entries_map es' = (entries_map es)(k \<mapsto> v)"
        using insert_room [OF b(1,3,4) e k v len] by auto
      have "write_value h root (one_slice k) v = Some (False, h)"
        using search_holds(1) [OF b(1-4) k] None b(5) by (simp add: write_value_def)
      then show ?thesis using put [OF i(2-5)] i(1) False len b(1) find_border_quiet [OF b(1,2)] hasSpace_holds [OF b(3,4)]
        by (simp add: mt_store_def s insert_mt_def border_at_def)
    qed
  qed
qed

interpretation mt: bounded_map_store mt_holds mt_lookup mt_store mt_valid mt_room
  by unfold_locales (fact get_holds, fact store_holds)

section \<open>Layers\<close>

definition layer_root :: BorderNode where
  "layer_root = new_border\<lparr>version := (version new_border)\<lparr>is_root := True\<rparr>\<rparr>"

abbreviation key_from :: "KeySlice list \<Rightarrow> nat \<Rightarrow> Key" where
  "key_from ks i \<equiv> \<lparr>key_body = ks, key_size = length ks, cursor = i\<rparr>"

lemma key_from_simps:
  "getCurrentSlice (key_from ks i) = elem ks i" "hasNext (key_from ks i) \<longleftrightarrow> length ks \<noteq> Suc i"
  "Suc i < length ks \<Longrightarrow> next_slice (key_from ks i) = Some (ks ! Suc i, key_from ks (Suc i))"
  by (simp_all add: getCurrentSlice_def hasNext_def next_slice_def elem_def)

lemma search_layer:
  assumes "cells h root = Some (Border b)" "quiet_root (version b)" "extractLinkOrValueWithIndexFor b k = Some (LAYER, x, i)" "next_slice k = Some (s, k')"
  shows "search_at h root k None = search_at h x k' None"
proof -
  have "search_at h root k (Some (root, version b)) = search_at h x k' None"
    using assms by (subst search_at.simps) (auto simp: border_at_def quiet_root_def)
  then show ?thesis using assms by (simp add: search_at_None [of h root] find_border_quiet)
qed

text \<open>A layer with one entry, in the first cell.\<close>

definition with_entry :: "entry \<Rightarrow> BorderNode" where
  "with_entry e = layer_root\<lparr>key_len := (key_len layer_root)[0 := e_len e], b_slice := (b_slice layer_root)[0 := e_slice e],
     lv := (lv layer_root)[0 := e_lv e], key_suffixes := (case e_suffix e of None \<Rightarrow> key_suffixes layer_root | Some s \<Rightarrow> (key_suffixes layer_root)[0 := s])\<rparr>"

lemma set_entry_layer: "set_entry layer_root 0 e = Some (with_entry e)"
  by (auto simp: set_entry_def set_elem_def with_entry_def layer_root_def new_border_def split: option.splits)

lemma quiet_with_entry: "quiet_root (version (with_entry e))"
  by (simp add: with_entry_def layer_root_def new_border_def quiet_root_def version0_def)

lemma put_entry_layer: "cells h p = Some (Border layer_root) \<Longrightarrow> put_entry h p 0 e = Some (put_node h p (Border (with_entry e)))"
  by (simp add: put_entry_def border_at_def set_entry_layer)

lemma extract_with_entry:
  assumes "Suc i < length ks" "e_slice e = ks_slice (ks ! i)"
  shows "e_len e = 8 \<Longrightarrow> e_suffix e = Some (ks ! Suc i) \<Longrightarrow> extractLinkOrValueWithIndexFor (with_entry e) (key_from ks i) = Some (VALUE, e_lv e, 0)"
    "e_len e = key_len_layer \<Longrightarrow> extractLinkOrValueWithIndexFor (with_entry e) (key_from ks i) = Some (LAYER, e_lv e, 0)"
proof -
  have c: "elem ks i = Some (ks ! i)" "\<not> length ks = Suc i" using assms(1) by (simp_all add: elem_def)
  have r: "elem (key_len (with_entry e)) 0 = Some (e_len e)" "elem (b_slice (with_entry e)) 0 = Some (e_slice e)" "elem (lv (with_entry e)) 0 = Some (e_lv e)"
    "e_suffix e = Some x \<Longrightarrow> elem (key_suffixes (with_entry e)) 0 = Some x" for x
    by (simp_all add: with_entry_def layer_root_def new_border_def elem_def)
  show "extractLinkOrValueWithIndexFor (with_entry e) (key_from ks i) = Some (VALUE, e_lv e, 0)" if "e_len e = 8" "e_suffix e = Some (ks ! Suc i)"
    using that assms c r by (simp add: extractLinkOrValueWithIndexFor_def key_from_simps inner_slice_from.simps [of _ _ _ 0])
  show "extractLinkOrValueWithIndexFor (with_entry e) (key_from ks i) = Some (LAYER, e_lv e, 0)" if "e_len e = key_len_layer"
    using that assms c r by (simp add: extractLinkOrValueWithIndexFor_def key_from_simps inner_slice_from.simps [of _ _ _ 0] key_len_layer_def)
qed

lemma layers_get:
  assumes "cells h root = Some (Border layer_root)" "root < next_addr h" "Suc i < length ks" "\<forall>j < length ks - 1. ks_size (ks ! j) = 8"
  shows "\<exists>h' n j. layers_from h root (key_from ks i) v = Some h' \<and>
    (\<forall>H. cells H root = cells h' root \<and> (\<forall>a \<ge> next_addr h. cells H a = cells h' a) \<longrightarrow> search_at H root (key_from ks i) None = Some (VALUE, v, n, j)) \<and>
    next_addr h \<le> next_addr h' \<and> (\<forall>a < next_addr h. a \<noteq> root \<longrightarrow> cells h' a = cells h a)"
  using assms(1-3)
proof (induction "length ks - i" arbitrary: h root i)
  case (Suc d)
  have sz: "ks_size (ks ! i) = 8" using assms(4) Suc.prems(3) by simp
  have g: "getCurrentSlice (key_from ks i) = Some (ks ! i)" "hasNext (key_from ks i)" "next_slice (key_from ks i) = Some (ks ! Suc i, key_from ks (Suc i))"
    using Suc.prems(3) by (simp_all add: key_from_simps elem_def)
  show ?case
  proof (cases "length ks = Suc (Suc i)")
    case True
    let ?e = "\<lparr>e_len = 8, e_slice = ks_slice (ks ! i), e_lv = v, e_suffix = Some (ks ! Suc i)\<rparr>"
    have "layers_from h root (key_from ks i) v = Some (put_node h root (Border (with_entry ?e)))"
      using key_from_simps(2) [of ks "Suc i", THEN iffD1, THEN notE, OF _ True] g sz put_entry_layer [OF Suc.prems(1)]
      by (subst layers_from.simps) (auto simp: Let_def)
    moreover have "search_at H root (key_from ks i) None = Some (VALUE, v, root, 0)" if "cells H root = Some (Border (with_entry ?e))" for H
      using extract_with_entry(1) [of i ks ?e] Suc.prems(3) that by (intro search_border [OF _ quiet_with_entry]) simp_all
    ultimately show ?thesis by (auto simp: put_node_def)
  next
    case False
    let ?l = "next_addr h" and ?e = "\<lparr>e_len = key_len_layer, e_slice = ks_slice (ks ! i), e_lv = next_addr h, e_suffix = None\<rparr>"
    obtain h1 where h1: "new_layer h = (?l, h1)" by (simp add: new_layer_def new_node_def)
    let ?h2 = "put_node h1 root (Border (with_entry ?e))"
    have c1: "cells h1 root = Some (Border layer_root)" "cells ?h2 ?l = Some (Border layer_root)" "?l < next_addr ?h2" "next_addr ?h2 = Suc ?l"
      using Suc.prems(1,2) h1 by (auto simp: new_layer_def new_node_def layer_root_def put_node_def)
    have l: "layers_from h root (key_from ks i) v = layers_from ?h2 ?l (key_from ks (Suc i)) v"
      using False g sz put_entry_layer [OF c1(1)] h1 by (subst layers_from.simps) (simp add: key_from_simps)
    have "d = length ks - Suc i" "Suc (Suc i) < length ks" using Suc.hyps(2) Suc.prems(3) False by simp_all
    from Suc.hyps(1) [OF this(1) c1(2,3) this(2)] obtain h' n j where h': "layers_from ?h2 ?l (key_from ks (Suc i)) v = Some h'"
      "\<forall>H. cells H ?l = cells h' ?l \<and> (\<forall>a \<ge> next_addr ?h2. cells H a = cells h' a) \<longrightarrow> search_at H ?l (key_from ks (Suc i)) None = Some (VALUE, v, n, j)" "next_addr ?h2 \<le> next_addr h'"
      "\<forall>a < next_addr ?h2. a \<noteq> ?l \<longrightarrow> cells h' a = cells ?h2 a" by blast
    have r: "cells h' root = Some (Border (with_entry ?e))" using h'(4) Suc.prems(2) c1(4) by (simp add: put_node_def)
    have "search_at H root (key_from ks i) None = Some (VALUE, v, n, j)"
      if H: "cells H root = cells h' root" "\<forall>a \<ge> next_addr h. cells H a = cells h' a" for H
    proof -
      have "search_at H ?l (key_from ks (Suc i)) None = Some (VALUE, v, n, j)" using h'(2) H(2) c1(4) by simp
      then show ?thesis
        using search_layer [OF _ quiet_with_entry extract_with_entry(2) [OF Suc.prems(3)]] key_from_simps(3) [OF Suc.prems(3)] r H(1) by simp
    qed
    moreover have "\<forall>a < next_addr h. a \<noteq> root \<longrightarrow> cells h' a = cells h a"
      using h'(4) c1(4) h1 by (auto simp: put_node_def new_layer_def new_node_def)
    ultimately show ?thesis using l h'(1,3) c1(4) by auto
  qed
qed simp

text \<open>A tree made for a key answers for it, however many slices it has.\<close>

lemma start_then_get:
  assumes "ks \<noteq> []" "\<forall>j < length ks - 1. ks_size (ks ! j) = 8" "1 \<le> ks_size (last ks)" "ks_size (last ks) \<le> 8" "next_addr h \<noteq> NULL"
  shows "\<exists>root h'. start_new_tree_mt h (key_of ks (length ks)) v = Some (root, h') \<and> root \<noteq> NULL \<and> get h' root (key_of ks (length ks)) = Some v"
proof -
  have k0: "key_of ks (length ks) = key_from ks 0" by (simp add: key_of_def)
  let ?r = "next_addr h"
  obtain h1 where l1: "new_layer h = (?r, h1)" "cells h1 ?r = Some (Border layer_root)" "next_addr h1 = Suc ?r"
    by (simp add: new_layer_def new_node_def layer_root_def)
  have finish: "\<exists>root h'. start_new_tree_mt h (key_of ks (length ks)) v = Some (root, h') \<and> root \<noteq> NULL \<and> get h' root (key_of ks (length ks)) = Some v"
    if "new_entry h1 (key_from ks 0) v = Some (e, h2)" "cells h2 ?r = Some (Border layer_root)"
      "search_at (put_node h2 ?r (Border (with_entry e))) ?r (key_from ks 0) None = Some (VALUE, v, n, j)" for e h2 n j
    using that assms(5) by (simp add: start_new_tree_mt_def l1(1) k0 put_entry_layer get_def)
  show ?thesis
  proof (cases "length ks = 1")
    case True
    then obtain s where ks: "ks = [s]" by (cases ks) auto
    let ?k = "(ks_slice s, ks_size s)"
    have o1: "key_from ks 0 = one_slice ?k" by (simp add: ks one_slice_def key_of_def)
    have k: "mt_valid ?k" using assms(3,4) by (simp add: ks mt_valid_def)
    let ?e = "\<lparr>e_len = ks_size s, e_slice = ks_slice s, e_lv = v, e_suffix = None\<rparr>"
    have "border_holds (with_entry ?e) [(ks_slice s, ks_size s, v)]"
      by (simp add: border_holds_def with_entry_def layer_root_def new_border_def replicate_15)
    from last_slice_from_holds [OF this, of 0 ?k] k have "extractLinkOrValueWithIndexFor (with_entry ?e) (one_slice ?k) = Some (VALUE, v, 0)"
      by (simp add: extractLinkOrValueWithIndexFor_def mt_valid_def)
    then have "search_at (put_node h1 ?r (Border (with_entry ?e))) ?r (one_slice ?k) None = Some (VALUE, v, ?r, 0)"
      by (intro search_border [OF _ quiet_with_entry]) (simp_all add: put_node_def)
    then show ?thesis using finish [of ?e h1] new_entry_one [OF k, of h1 v] l1(2) by (simp add: o1)
  next
    case False
    then have len: "Suc 0 < length ks" using assms(1) by (cases ks) auto
    then have s0: "elem ks 0 = Some (ks ! 0)" "ks_size (ks ! 0) = 8" using assms(1,2) by (simp_all add: elem_def)
    have g0: "getCurrentSlice (key_from ks 0) = Some (ks ! 0)" "hasNext (key_from ks 0)" "next_slice (key_from ks 0) = Some (ks ! 1, key_from ks 1)"
      using len assms(1) by (simp_all add: key_from_simps elem_def)
    show ?thesis
    proof (cases "length ks = 2")
      case True
      then have last: "\<not> hasNext (key_from ks 1)" by (simp add: hasNext_def)
      let ?e = "\<lparr>e_len = 8, e_slice = ks_slice (ks ! 0), e_lv = v, e_suffix = Some (ks ! 1)\<rparr>"
      have "new_entry h1 (key_from ks 0) v = Some (?e, h1)"
        using g0 s0(2) last unfolding new_entry_def by simp
      moreover have "search_at (put_node h1 ?r (Border (with_entry ?e))) ?r (key_from ks 0) None = Some (VALUE, v, ?r, 0)"
        using extract_with_entry(1) [of 0 ks ?e] len by (intro search_border [OF _ quiet_with_entry]) (simp_all add: put_node_def)
      ultimately show ?thesis using finish l1(2) by blast
    next
      case False
      let ?l = "Suc ?r"
      obtain h2 where l2: "new_layer h1 = (?l, h2)" "cells h2 ?l = Some (Border layer_root)" "?l < next_addr h2" "cells h2 ?r = Some (Border layer_root)"
        "next_addr h2 = Suc ?l"
        using l1(2,3) by (simp add: new_layer_def new_node_def layer_root_def)
      have "Suc (Suc 0) < length ks" using len False by simp
      from layers_get [OF l2(2,3) this assms(2), of v] obtain h' n j where h': "layers_from h2 ?l (key_from ks 1) v = Some h'"
        "\<forall>H. cells H ?l = cells h' ?l \<and> (\<forall>a \<ge> next_addr h2. cells H a = cells h' a) \<longrightarrow> search_at H ?l (key_from ks 1) None = Some (VALUE, v, n, j)"
        "\<forall>a < next_addr h2. a \<noteq> ?l \<longrightarrow> cells h' a = cells h2 a" by auto
      let ?e = "\<lparr>e_len = key_len_layer, e_slice = ks_slice (ks ! 0), e_lv = ?l, e_suffix = None\<rparr>"
      have "version_of h2 ?l = Some (version layer_root)" "is_root (version layer_root)"
        using l2(2) by (simp_all add: version_of_def layer_root_def)
      then have "key_insert_after_new_layer h2 ?l (key_from ks 1) v = Some h'"
        using h'(1) False by (simp add: key_insert_after_new_layer_def key_from_simps)
      then have e: "new_entry h1 (key_from ks 0) v = Some (?e, h')"
        using s0 len False l2(1) by (simp add: new_entry_def key_from_simps)
      have r: "cells h' ?r = Some (Border layer_root)" using h'(3) l2(4,5) by simp
      let ?H = "put_node h' ?r (Border (with_entry ?e))"
      have "cells ?H ?l = cells h' ?l \<and> (\<forall>a \<ge> next_addr h2. cells ?H a = cells h' a)" using l2(5) by (simp add: put_node_def)
      then have "search_at ?H ?l (key_from ks 1) None = Some (VALUE, v, n, j)" using h'(2) by blast
      then have "search_at ?H ?r (key_from ks 0) None = Some (VALUE, v, n, j)"
        using search_layer [OF _ quiet_with_entry extract_with_entry(2) [OF len]] key_from_simps(3) [OF len] by (simp add: put_node_def)
      then show ?thesis using finish [OF e r] by blast
    qed
  qed
qed

end
