(* ===== verification/Masstree_Props.thy ===== *)
theory Masstree_Props
  imports Masstree_Map
begin


text \<open>
  The sample trees of \<^verbatim>\<open>masstree/sample.h\<close>, and the properties of the Masstree: what holds of it, and where keys get lost.
\<close>

section \<open>The sample trees\<close>

text \<open>A cell of a border node that is assigned by hand, with a value that is a new \<open>int\<close>.\<close>

definition cell_with :: "nat \<Rightarrow> 64 word \<Rightarrow> 8 word \<Rightarrow> addr \<Rightarrow> BorderNode \<Rightarrow> BorderNode" where
  "cell_with i s l v b = b\<lparr>b_slice := (b_slice b)[i := s], key_len := (key_len b)[i := l], lv := (lv b)[i := v]\<rparr>"

definition as_root :: "BorderNode \<Rightarrow> BorderNode" where
  "as_root b = b\<lparr>version := version0\<lparr>is_root := True, is_border := True\<rparr>\<rparr>"

definition sample1 :: "mheap \<Rightarrow> addr \<times> mheap" where
  "sample1 h = (let (v1, h) = new_int h 1; (v2, h) = new_int h 2
     in new_node h (Border (as_root (cell_with 1 0x0102030405060708 8 v2 (cell_with 0 0x01020304 4 v1 new_border)))))"

definition sample2 :: "mheap \<Rightarrow> addr \<times> mheap" where
  "sample2 h = (let (v1, h) = new_int h 1; b = cell_with 0 0x0001020304050607 8 v1 new_border
     in new_node h (Border (as_root (b\<lparr>key_suffixes := (key_suffixes b)[0 := \<lparr>ks_slice = 0x0A0B, ks_size = 2\<rparr>]\<rparr>))))"

definition sample3 :: "mheap \<Rightarrow> addr \<times> mheap" where
  "sample3 h = (let (v1, h) = new_int h 1; (v2, h) = new_int h 2;
       (l2, h) = new_node h (Border (as_root (cell_with 1 0x0C0D 2 v2 (cell_with 0 0x0A0B 2 v1 new_border))))
     in new_node h (Border (as_root (cell_with 0 0x0001020304050607 key_len_layer l2 new_border))))"

definition sample4 :: "mheap \<Rightarrow> addr \<times> mheap" where
  "sample4 h = (let root = next_addr h; h = h\<lparr>next_addr := root + 1\<rparr>;
       (v9, h) = new_int h 18; (b9, h) = new_node h (Border ((cell_with 0 0x09 1 v9 new_border)\<lparr>parent := root\<rparr>));
       (v11, h) = new_int h 22; (b11, h) = new_node h (Border ((cell_with 0 0x0101 2 v11 new_border)\<lparr>parent := root\<rparr>));
       (v160, h) = new_int h 320; (b160, h) = new_node h (Border ((cell_with 0 0x010600 3 v160 new_border)\<lparr>parent := root\<rparr>))
     in (root, put_node h root (Interior (new_interior\<lparr>version := version0\<lparr>is_root := True\<rparr>, n_keys := 15,
       i_slice := [0x0100, 0x0200, 0x0300, 0x0400, 0x0500, 0x0600, 0x0700, 0x0800, 0x0900, 0x010000, 0x010100, 0x010200, 0x010300, 0x010400, 0x010500],
       child := (child new_interior)[0 := b9, 1 := b11, 15 := b160]\<rparr>))))"

text \<open>The int a key leads to.\<close>

definition get_int :: "addr \<times> mheap \<Rightarrow> KeySlice list \<Rightarrow> int option option" where
  "get_int t ks = (case t of (root, h) \<Rightarrow> do { p \<leftarrow> get h root (key_of ks (length ks)); Some (if p = NULL then None else ints h p) })"

lemma sample_answers:
  "get_int (sample1 empty_mheap) [\<lparr>ks_slice = 0x01020304, ks_size = 4\<rparr>] = Some (Some 1)"
  "get_int (sample2 empty_mheap) [\<lparr>ks_slice = 0x0001020304050607, ks_size = 8\<rparr>, \<lparr>ks_slice = 0x0A0B, ks_size = 2\<rparr>] = Some (Some 1)"
  "get_int (sample3 empty_mheap) [\<lparr>ks_slice = 0x0001020304050607, ks_size = 8\<rparr>, \<lparr>ks_slice = 0x0C0D, ks_size = 2\<rparr>] = Some (Some 2)"
  "get_int (sample4 empty_mheap) [\<lparr>ks_slice = 0x0101, ks_size = 2\<rparr>] = Some (Some 22)"
  "get_int (sample4 empty_mheap) [\<lparr>ks_slice = 0x010600, ks_size = 3\<rparr>] = Some (Some 320)"
  by code_simp+

section \<open>Properties\<close>

lemma fold_put_dom: "dom (fold (\<lambda>(k, v) m. m(k \<mapsto> v)) kvs m) = fst ` set kvs \<union> dom m"
  by (induction kvs arbitrary: m) auto

lemma fold_put_map_of: "fold (\<lambda>(k, v) m. m(k \<mapsto> v)) kvs m = m ++ map_of (rev kvs)"
  by (induction kvs arbitrary: m) (auto simp: map_add_def fun_eq_iff split: option.splits)

lemma empty_mt_holds: "mt_holds (NULL, empty_mheap) Map.empty"
  by (simp add: mt_holds_def empty_mheap_def)

text \<open>
  C33: a Masstree that was empty and into which at most 15 different keys of one slice (1 to 8 bytes) are inserted, in any
  order and any number of times, answers like a map: every insertion returns, and \<open>get\<close> finds for every such key the value
  inserted last, or none. The order of the keys in the node, the moves of the arrays and the overwriting of a value keep it so.
\<close>

theorem fifteen_keys_are_a_map:
  assumes "\<forall>(k, v) \<in> set kvs. mt_valid k \<and> v \<noteq> NULL" "card (fst ` set kvs) \<le> 15"
  shows "\<exists>s. store_all mt_store kvs (NULL, empty_mheap) = Some s \<and> (\<forall>k. mt_valid k \<longrightarrow> mt_lookup s k = Some (map_of (rev kvs) k))"
proof -
  let ?put = "\<lambda>(k, v) m. m(k \<mapsto> v)"
  have "mt_room (fold ?put (take i kvs) Map.empty) (fst (kvs ! i)) (snd (kvs ! i))" if i: "i < length kvs" for i
  proof -
    let ?m = "fold ?put (take i kvs) Map.empty"
    obtain k v where kv: "kvs ! i = (k, v)" by (cases "kvs ! i")
    have kin: "(k, v) \<in> set kvs" using i kv by (metis nth_mem)
    have d: "dom ?m = fst ` set (take i kvs)" by (simp add: fold_put_dom)
    have "card (dom ?m) < slots" if "k \<notin> dom ?m"
    proof -
      have "insert k (dom ?m) \<subseteq> fst ` set kvs" using kin set_take_subset [of i kvs] d by force
      then have "card (insert k (dom ?m)) \<le> 15" using assms(2) card_mono [of "fst ` set kvs"] by (meson List.finite_set finite_imageI le_trans)
      then show ?thesis using that d by simp
    qed
    then show ?thesis using assms(1) kin kv by (auto simp: mt_room_def)
  qed
  from mt.store_all_room [OF empty_mt_holds this] mt.lookup_valid show ?thesis by (auto simp: fold_put_map_of)
qed

theorem fifteen_keys_are_a_map_witness:
  "\<exists>s. store_all mt_store [((3, 1), 30), ((1, 2), 10), ((3, 1), 33)] (NULL, empty_mheap) = Some s \<and>
     mt_lookup s (3, 1) = Some (Some 33) \<and> mt_lookup s (1, 1) = Some None"
proof -
  let ?kvs = "[((3, 1), 30), ((1, 2), 10), ((3, 1), 33)] :: ((64 word \<times> 8 word) \<times> addr) list"
  have v: "mt_valid (3, 1)" "mt_valid (1, 1)" "mt_valid (1, 2)" by (simp_all add: mt_valid_def)
  have "\<forall>(k, v) \<in> set ?kvs. mt_valid k \<and> v \<noteq> NULL" "card (fst ` set ?kvs) \<le> 15" using v by (simp_all add: card_insert_if)
  from fifteen_keys_are_a_map [OF this] obtain s where s: "store_all mt_store ?kvs (NULL, empty_mheap) = Some s"
    "\<forall>k. mt_valid k \<longrightarrow> mt_lookup s k = Some (map_of (rev ?kvs) k)" by blast
  have "mt_lookup s (3, 1) = Some (Some 33)" "mt_lookup s (1, 1) = Some None" using v s(2) by simp_all
  then show ?thesis using s(1) by blast
qed

text \<open>
  C34: a tree that \<open>start_new_tree\<close> makes for a key and a value, with a layer for every 8 bytes but the last 16, answers
  \<open>get\<close> for that key with the value, for a key of any number of slices.
\<close>

theorem new_tree_answers_for_its_key:
  assumes "ks \<noteq> []" "\<forall>j < length ks - 1. ks_size (ks ! j) = 8" "1 \<le> ks_size (last ks)" "ks_size (last ks) \<le> 8" "next_addr h \<noteq> NULL"
  shows "\<exists>root h'. start_new_tree_mt h (key_of ks (length ks)) v = Some (root, h') \<and> root \<noteq> NULL \<and> get h' root (key_of ks (length ks)) = Some v"
  using assms by (rule start_then_get)

definition long_key :: "KeySlice list" where
  "long_key = [\<lparr>ks_slice = 1, ks_size = 8\<rparr>, \<lparr>ks_slice = 2, ks_size = 8\<rparr>, \<lparr>ks_slice = 3, ks_size = 4\<rparr>]"

theorem new_tree_answers_for_its_key_witness:
  "\<exists>root h'. start_new_tree_mt empty_mheap (key_of long_key (length long_key)) 100 = Some (root, h') \<and>
     root \<noteq> NULL \<and> get h' root (key_of long_key (length long_key)) = Some 100"
  by (rule new_tree_answers_for_its_key) (auto simp: long_key_def empty_mheap_def less_Suc_eq)

text \<open>The tree after the insertions of the keys 1 to 15 (of one byte), and what it holds.\<close>

definition full_border :: BorderNode where
  "full_border = layer_root\<lparr>key_len := replicate 15 1, b_slice := [1, 2, 3, 4, 5, 6, 7, 8, 9, 10, 11, 12, 13, 14, 15],
     lv := [101, 102, 103, 104, 105, 106, 107, 108, 109, 110, 111, 112, 113, 114, 115]\<rparr>"

definition full_tree :: mheap where
  "full_tree = \<lparr>cells = [1 \<mapsto> Border full_border], ints = Map.empty, next_addr = 116\<rparr>"

lemma full_tree_holds: "mt_lookup (1, full_tree) (9, 1) = Some (Some 109)"
  by code_simp


text \<open>
  Two keys of two slices with a common first slice: the second insertion does not move the suffix of the first, which is
  lost with its key.
\<close>

lemma second_suffix_loses_the_first:
  "(do {
      (root, h) \<leftarrow> insert_mt empty_mheap NULL (key_of [\<lparr>ks_slice = 7, ks_size = 8\<rparr>, \<lparr>ks_slice = 1, ks_size = 1\<rparr>] 2) 101;
      (root, h) \<leftarrow> insert_mt h root (key_of [\<lparr>ks_slice = 7, ks_size = 8\<rparr>, \<lparr>ks_slice = 2, ks_size = 1\<rparr>] 2) 102;
      get h root (key_of [\<lparr>ks_slice = 7, ks_size = 8\<rparr>, \<lparr>ks_slice = 1, ks_size = 1\<rparr>] 2) }) = Some NULL"
  by code_simp

lemma bit_flag: "bit (flag i b) n \<longleftrightarrow> b \<and> n = i \<and> i < 32"
  by (auto simp: flag_def bit_push_bit_iff bit_1_iff)

lemma locked_bit: "bit (version_body v) 31 \<longleftrightarrow> locked v"
  by (auto simp: version_body_def bit_or_iff bit_flag bit_push_bit_iff bit_ucast_iff dest: bit_imp_le_length)

lemma less_if_not_bit_31: "\<not> bit (x :: 32 word) 31 \<Longrightarrow> x \<le> version_lock"
proof -
  assume b: "\<not> bit x 31"
  have "x = take_bit 31 x" using b by (intro bit_word_eqI) (auto simp: bit_take_bit_iff less_Suc_eq numeral_eq_Suc)
  then have "unat x < 2 ^ 31" by (metis take_bit_nat_less_exp unsigned_take_bit_eq)
  then show ?thesis by (simp add: version_lock_def word_le_nat_alt)
qed

text \<open>
  The check by which \<open>findBorder\<close>, \<open>get\<close> and \<open>write\<close> mean to notice that a node changed under them sees no change that
  leaves the lock bit as it was: \<open>locked\<close> is the highest bit, and a difference in the counters of insertions and splits
  is smaller than it. In particular the version after an insertion was finished passes for the version before.
\<close>

theorem version_check_misses_changes:
  assumes "locked v = locked w"
  shows "version_xor v w \<le> version_lock"
  using assms by (intro less_if_not_bit_31) (simp add: version_xor_def bit_xor_iff locked_bit)

theorem version_check_misses_changes_witness:
  "version_xor (unlocked (version0\<lparr>locked := True, inserting := True\<rparr>)) version0 \<le> version_lock \<and>
   v_insert (unlocked (version0\<lparr>locked := True, inserting := True\<rparr>)) \<noteq> v_insert version0"
  using version_check_misses_changes [of "unlocked (version0\<lparr>locked := True, inserting := True\<rparr>)" version0]
  by (simp add: unlocked_def version0_def Let_def)

end
