(* ===== verification/Cicada.thy ===== *)
theory Cicada
  imports Common
begin


text \<open>
  The draft of Cicada in \<^verbatim>\<open>src/cicada\<close>: time stamps (\<^verbatim>\<open>time_stamp.h\<close>), versions and tuples (\<^verbatim>\<open>version.h\<close>, \<^verbatim>\<open>tuple.h\<close>),
  the executor's operations and its garbage collection (\<^verbatim>\<open>tx_executor.cpp\<close>), the leader (\<^verbatim>\<open>leader_work.h\<close>), initialisation
  and the worker (\<^verbatim>\<open>main.cpp\<close>). Validation and the write phase are not written yet (they end the program), and no thread
  of the program writes a word of the table after \<open>init\<close>; what a worker writes to shared memory are its own cells of the time
  stamp arrays, which only a leader reads whose flags are never set. So each worker is modelled as the program of one thread.
  \<open>None\<close> is an undefined access, a loop that waits for ever, or \<open>ERR\<close>. The clock is an argument.
\<close>

unbundle bit_operations_syntax

abbreviation (input) THREADS :: nat where "THREADS \<equiv> 2"
abbreviation (input) TUPLES :: nat where "TUPLES \<equiv> 1000"

definition MAX_OPERATIONS :: nat where "MAX_OPERATIONS = 10"
definition PRE_RESERVE_VERSION :: nat where "PRE_RESERVE_VERSION = 10000"
definition CLOCKS_PER_US :: "64 word" where "CLOCKS_PER_US = 2100"
definition READ_RATIO :: "64 word" where "READ_RATIO = 70"

section \<open>Time stamps\<close>

record TimeStamp =
  ts_body :: "64 word"
  localClock :: "64 word"
  clockBoost :: "64 word"
  ts_threadId :: "8 word"

definition stamp_of :: "64 word \<Rightarrow> 8 word \<Rightarrow> 64 word" where
  "stamp_of clock thr = push_bit 8 clock OR ucast thr"

definition generateTimeStampFirst :: "64 word \<Rightarrow> 8 word \<Rightarrow> TimeStamp \<Rightarrow> TimeStamp" where
  "generateTimeStampFirst clock thr t = t\<lparr>localClock := clock, ts_body := stamp_of clock thr, ts_threadId := thr\<rparr>"

definition generateTimeStamp :: "64 word \<Rightarrow> 8 word \<Rightarrow> TimeStamp \<Rightarrow> TimeStamp" where
  "generateTimeStamp clock thr t =
    (let elapsed = (if clock < localClock t then 0 else clock - localClock t);
         l = localClock t + elapsed + clockBoost t
     in t\<lparr>localClock := l, ts_body := stamp_of l thr\<rparr>)"

definition setClockBoost :: "64 word \<Rightarrow> TimeStamp \<Rightarrow> TimeStamp" where
  "setClockBoost clock_per_us t = t\<lparr>clockBoost := clock_per_us\<rparr>"

section \<open>Versions and tuples\<close>

datatype VersionStatus = Pending | Aborted | Committed | Deleted | Unused

record cversion =
  v_rts :: "64 word"
  v_wts :: "64 word"
  v_next :: addr
  v_status :: VersionStatus
  v_value :: "8 word list"

text \<open>The constructors; \<open>raw\<close> is what the memory holds in the fields they leave alone.\<close>

definition version_default :: "cversion \<Rightarrow> cversion" where
  "version_default raw = raw\<lparr>v_status := Pending, v_next := NULL\<rparr>"

definition version_with :: "64 word \<Rightarrow> 64 word \<Rightarrow> cversion \<Rightarrow> cversion" where
  "version_with rts wts raw = raw\<lparr>v_rts := rts, v_wts := wts, v_status := Pending, v_next := NULL\<rparr>"

definition atomicSet :: "64 word \<Rightarrow> 64 word \<Rightarrow> addr \<Rightarrow> VersionStatus \<Rightarrow> cversion \<Rightarrow> cversion" where
  "atomicSet rts wts nxt st v = v\<lparr>v_rts := rts, v_wts := wts, v_status := st, v_next := nxt\<rparr>"

record ctuple =
  latest_ver :: addr
  minWts :: "64 word"
  continuingCommit :: "64 word"
  gcLock :: "8 word"

definition getGCRight :: "8 word \<Rightarrow> ctuple \<Rightarrow> bool \<times> ctuple" where
  "getGCRight thr t = (if gcLock t \<noteq> 0 then (False, t) else (True, t\<lparr>gcLock := thr\<rparr>))"

definition returnGCRight :: "ctuple \<Rightarrow> ctuple" where
  "returnGCRight t = t\<lparr>gcLock := 0\<rparr>"

section \<open>The shared state\<close>

record cicada =
  vers :: "addr \<rightharpoonup> cversion"
  ver_brk :: addr
  c_table :: "ctuple list"
  MinRts :: "64 word"
  MinWts :: "64 word"
  FirstAllocateTimestamp :: "32 word"
  ThreadWtsArray :: "64 word list"
  ThreadRtsArray :: "64 word list"
  GCFlag :: "64 word list"
  GCExecuteFlag :: "64 word list"

definition load_at :: "'a list \<Rightarrow> nat \<Rightarrow> 'a option" where
  "load_at xs i = (if i < length xs then Some (xs ! i) else None)"

definition new_version :: "cicada \<Rightarrow> cversion \<Rightarrow> addr \<times> cicada" where
  "new_version S v = (ver_brk S, S\<lparr>vers := (vers S)(ver_brk S \<mapsto> v), ver_brk := ver_brk S + 1\<rparr>)"

definition set_tuple :: "cicada \<Rightarrow> nat \<Rightarrow> (ctuple \<Rightarrow> ctuple) \<Rightarrow> cicada option" where
  "set_tuple S k f = do { t \<leftarrow> load_at (c_table S) k; Some (S\<lparr>c_table := (c_table S)[k := f t]\<rparr>) }"

definition set_version :: "cicada \<Rightarrow> addr \<Rightarrow> (cversion \<Rightarrow> cversion) \<Rightarrow> cicada option" where
  "set_version S p f = do { v \<leftarrow> vers S p; Some (S\<lparr>vers := (vers S)(p \<mapsto> f v)\<rparr>) }"

definition delete_version :: "cicada \<Rightarrow> addr \<Rightarrow> cicada option" where
  "delete_version S p = do { _ \<leftarrow> vers S p; Some (S\<lparr>vers := (vers S)(p := None)\<rparr>) }"

section \<open>The executor\<close>

text \<open>A \<open>Tuple *\<close> is the index of the tuple in the table.\<close>

record c_read_element =
  r_key :: "64 word"
  r_record :: nat
  r_laterVer :: addr
  r_ver :: addr

record c_write_element =
  w_key :: "64 word"
  w_record :: nat
  w_laterVer :: addr
  w_newVer :: addr
  w_RMW :: bool
  finishVersionInstall :: bool

record gc_element =
  g_key :: "64 word"
  g_record :: nat
  g_version :: addr
  g_wts :: "64 word"

datatype TXStatus = InValid | InFlight | Commit | Abort

record tx_executor =
  tx_status :: TXStatus
  tx_wts :: TimeStamp
  tx_readSet :: "c_read_element list"
  tx_writeSet :: "c_write_element list"
  GCQueue :: "gc_element list"
  reuseVersionFromGC :: "addr list"
  tx_steps :: "step list"
  abortCounts :: "64 word"
  tx_returnValue :: "8 word list"
  tx_writeValue :: "8 word list"
  threadId :: "8 word"
  tx_rts :: "64 word"
  GCStart :: "64 word"

text \<open>
  The constructor, on the member initialisers \<open>x\<close>: the first loop waits for \<open>main\<close> to set \<open>MinWts\<close>, the compare-and-swap
  succeeds when nothing else runs.
\<close>

definition initial_executor :: tx_executor where
  "initial_executor = \<lparr>tx_status = InValid, tx_wts = \<lparr>ts_body = 0, localClock = 0, clockBoost = 0, ts_threadId = 0\<rparr>, tx_readSet = [],
     tx_writeSet = [], GCQueue = [], reuseVersionFromGC = [], tx_steps = [], abortCounts = 0, tx_returnValue = replicate 4 0,
     tx_writeValue = replicate 4 0, threadId = 0, tx_rts = 0, GCStart = 0\<rparr>"

fun reserve_versions :: "nat \<Rightarrow> cversion \<Rightarrow> cicada \<Rightarrow> addr list \<times> cicada" where
  "reserve_versions 0 raw S = ([], S)"
| "reserve_versions (Suc n) raw S =
    (let (p, S) = new_version S (version_default raw); (ps, S) = reserve_versions n raw S in (p # ps, S))"

definition construct :: "8 word \<Rightarrow> 64 word \<Rightarrow> 64 word \<Rightarrow> cversion \<Rightarrow> cicada \<Rightarrow> (tx_executor \<times> cicada) option" where
  "construct thr clock now raw S =
    (if MinWts S = 0 then None
     else do {
       let x = initial_executor\<lparr>threadId := thr, tx_wts := generateTimeStampFirst clock thr (tx_wts initial_executor), tx_rts := MinWts S - 1\<rparr>;
       _ \<leftarrow> load_at (ThreadWtsArray S) (unat thr);
       let S = S\<lparr>ThreadWtsArray := (ThreadWtsArray S)[unat thr := ts_body (tx_wts x)],
                 FirstAllocateTimestamp := FirstAllocateTimestamp S + 1\<rparr>;
       let (ps, S) = reserve_versions PRE_RESERVE_VERSION raw S;
       value \<leftarrow> genStringRepeatedNumber (tx_writeValue x) 4 (unat thr);
       Some (x\<lparr>reuseVersionFromGC := ps, tx_writeValue := value, GCStart := now\<rparr>, S)
     })"

text \<open>The destructor; only versions that are marked as unused are given back.\<close>

fun delete_unused :: "addr list \<Rightarrow> cicada \<Rightarrow> cicada option" where
  "delete_unused [] S = Some S"
| "delete_unused (p # ps) S = do {
     v \<leftarrow> vers S p;
     S \<leftarrow> (if v_status v = Unused then delete_version S p else Some S);
     delete_unused ps S
   }"

definition destroy :: "tx_executor \<Rightarrow> cicada \<Rightarrow> (tx_executor \<times> cicada) option" where
  "destroy x S = do {
     S \<leftarrow> delete_unused (reuseVersionFromGC x) S;
     Some (x\<lparr>reuseVersionFromGC := [], tx_readSet := [], tx_writeSet := [], GCQueue := [], tx_steps := []\<rparr>, S)
   }"

definition begin_tx :: "64 word \<Rightarrow> tx_executor \<Rightarrow> cicada \<Rightarrow> (tx_executor \<times> cicada) option" where
  "begin_tx clock x S = do {
     let i = unat (threadId x);
     let x = x\<lparr>tx_status := InFlight, tx_wts := generateTimeStamp clock (threadId x) (tx_wts x)\<rparr>;
     _ \<leftarrow> load_at (ThreadWtsArray S) i;
     let S = S\<lparr>ThreadWtsArray := (ThreadWtsArray S)[i := ts_body (tx_wts x)]\<rparr>;
     let x = x\<lparr>tx_rts := MinWts S\<rparr>;
     _ \<leftarrow> load_at (ThreadRtsArray S) i;
     Some (x, S\<lparr>ThreadRtsArray := (ThreadRtsArray S)[i := tx_rts x]\<rparr>)
   }"

definition searchReadSet_tx :: "tx_executor \<Rightarrow> 64 word \<Rightarrow> c_read_element option" where
  "searchReadSet_tx x k = find (\<lambda>e. r_key e = k) (tx_readSet x)"

definition searchWriteSet_tx :: "tx_executor \<Rightarrow> 64 word \<Rightarrow> c_write_element option" where
  "searchWriteSet_tx x k = find (\<lambda>e. w_key e = k) (tx_writeSet x)"

text \<open>\<open>while (ver->wts > ts) { later = ver; ver = ver->next; }\<close>\<close>

partial_function (option) skip_later :: "(addr \<rightharpoonup> cversion) \<Rightarrow> 64 word \<Rightarrow> addr \<Rightarrow> addr \<Rightarrow> (addr \<times> addr) option" where
  "skip_later h ts later ver = do {
     v \<leftarrow> h ver;
     if v_wts v > ts then skip_later h ts ver (v_next v) else Some (later, ver)
   }"

text \<open>The loop that passes aborted versions and waits for pending ones: waiting does not end while nothing else runs.\<close>

partial_function (option) skip_aborted :: "(addr \<rightharpoonup> cversion) \<Rightarrow> addr \<Rightarrow> addr option" where
  "skip_aborted h ver = do {
     v \<leftarrow> h ver;
     if v_status v = Committed then Some ver
     else if v_status v = Aborted then skip_aborted h (v_next v)
     else None
   }"

definition read_tx :: "tx_executor \<Rightarrow> cicada \<Rightarrow> 64 word \<Rightarrow> tx_executor option" where
  "read_tx x S k =
    (if searchWriteSet_tx x k \<noteq> None \<or> searchReadSet_tx x k \<noteq> None then Some x
     else do {
       first \<leftarrow> load_at (tx_steps x) 0;
       let ts = (if readOnly first then tx_rts x else ts_body (tx_wts x));
       t \<leftarrow> load_at (c_table S) (unat k);
       (later, ver) \<leftarrow> skip_later (vers S) ts NULL (latest_ver t);
       ver \<leftarrow> skip_aborted (vers S) ver;
       v \<leftarrow> vers S ver;
       let x = x\<lparr>tx_returnValue := v_value v\<rparr>;
       Some (if readOnly first then x
         else x\<lparr>tx_readSet := tx_readSet x @ [\<lparr>r_key = k, r_record = unat k, r_laterVer = later, r_ver = ver\<rparr>]\<rparr>)
     })"

definition write_tx :: "tx_executor \<Rightarrow> cicada \<Rightarrow> 64 word \<Rightarrow> cversion \<Rightarrow> (tx_executor \<times> cicada) option" where
  "write_tx x S k raw =
    (if searchWriteSet_tx x k \<noteq> None then Some (x, S)
     else do {
       let re = searchReadSet_tx x k;
       let rmw = (re \<noteq> None);
       let r = (case re of Some e \<Rightarrow> r_record e | None \<Rightarrow> unat k);
       let ts = ts_body (tx_wts x);
       t \<leftarrow> load_at (c_table S) r;
       v \<leftarrow> vers S (latest_ver t);
       if rmw \<and> v_wts v > ts then Some (x\<lparr>tx_status := Abort\<rparr>, S)
       else do {
         (later, ver) \<leftarrow> (if rmw then Some (NULL, latest_ver t) else skip_later (vers S) ts NULL (latest_ver t));
         v \<leftarrow> vers S ver;
         if v_rts v > ts \<and> v_status v = Committed then Some (x\<lparr>tx_status := Abort\<rparr>, S)
         else do {
           let (p, S) = new_version S (version_with 0 ts raw);
           Some (x\<lparr>tx_writeSet := tx_writeSet x @ [\<lparr>w_key = k, w_record = r, w_laterVer = later, w_newVer = p, w_RMW = rmw,
             finishVersionInstall = False\<rparr>]\<rparr>, S)
         }
       }
     })"

text \<open>\<open>abort\<close>, \<open>validation\<close> and \<open>writePhase\<close> are \<open>ERR\<close>.\<close>

fun clean_writes :: "c_write_element list \<Rightarrow> cicada \<Rightarrow> cicada option" where
  "clean_writes [] S = Some S"
| "clean_writes (w # ws) S = do {
     S \<leftarrow> set_tuple S (w_record w) (\<lambda>t. t\<lparr>continuingCommit := 0\<rparr>);
     S \<leftarrow> (if finishVersionInstall w then set_version S (w_newVer w) (\<lambda>v. v\<lparr>v_status := Aborted\<rparr>) else delete_version S (w_newVer w));
     clean_writes ws S
   }"

definition writeSetClean :: "tx_executor \<Rightarrow> cicada \<Rightarrow> (tx_executor \<times> cicada) option" where
  "writeSetClean x S = do { S \<leftarrow> clean_writes (tx_writeSet x) S; Some (x\<lparr>tx_writeSet := []\<rparr>, S) }"

definition earlyAbort :: "tx_executor \<Rightarrow> cicada \<Rightarrow> (tx_executor \<times> cicada) option" where
  "earlyAbort x S = do {
     (x, S) \<leftarrow> writeSetClean x S;
     Some (x\<lparr>tx_readSet := [], tx_wts := setClockBoost CLOCKS_PER_US (tx_wts x), tx_status := Abort, abortCounts := abortCounts x + 1\<rparr>, S)
   }"

text \<open>The garbage collection, as far as it is written; the version behind the one that is kept is cut off and lost.\<close>

partial_function (option) maintain_loop :: "tx_executor \<Rightarrow> cicada \<Rightarrow> (tx_executor \<times> cicada) option" where
  "maintain_loop x S =
    (if GCQueue x = [] then Some (x, S)
     else do {
       let g = hd (GCQueue x);
       if g_wts g \<ge> MinRts S then Some (x, S)
       else do {
         t \<leftarrow> load_at (c_table S) (g_record g);
         let (got, t) = getGCRight (threadId x + 1) t;
         S \<leftarrow> set_tuple S (g_record g) (\<lambda>_. t);
         if \<not> got then maintain_loop (x\<lparr>GCQueue := tl (GCQueue x)\<rparr>) S
         else if g_wts g \<le> minWts t then do {
           S \<leftarrow> set_tuple S (g_record g) returnGCRight;
           maintain_loop (x\<lparr>GCQueue := tl (GCQueue x)\<rparr>) S
         }
         else do {
           v \<leftarrow> vers S (g_version g);
           S \<leftarrow> set_version S (g_version g) (\<lambda>v. v\<lparr>v_next := NULL\<rparr>);
           S \<leftarrow> set_tuple S (g_record g) (\<lambda>t. t\<lparr>minWts := v_wts v\<rparr>);
           maintain_loop x S
         }
       }
     })"

definition maintain :: "tx_executor \<Rightarrow> cicada \<Rightarrow> (tx_executor \<times> cicada) option" where
  "maintain x S = do {
     f \<leftarrow> load_at (GCExecuteFlag S) (unat (threadId x));
     if f = 1 then maintain_loop x S else Some (x, S)
   }"

section \<open>The leader\<close>

definition leaderWork :: "cicada \<Rightarrow> cicada" where
  "leaderWork S =
    (if \<exists>i < THREADS. GCFlag S ! i = 0 then S
     else S\<lparr>MinWts := Min (set (take THREADS (ThreadWtsArray S))), MinRts := Min (set (take (THREADS - 1) (drop 1 (ThreadRtsArray S)))),
       GCFlag := replicate THREADS 0, GCExecuteFlag := replicate THREADS 1\<rparr>)"

section \<open>Initialisation and the worker\<close>

definition init_record :: "64 word \<Rightarrow> cversion \<Rightarrow> nat \<Rightarrow> cicada \<Rightarrow> cicada" where
  "init_record t0 raw i S =
    (let (p, S) = new_version S (let v = atomicSet 0 t0 NULL Committed (version_default raw) in v\<lparr>v_value := (v_value v)[0 := 0]\<rparr>)
     in S\<lparr>c_table := (c_table S)[i := (c_table S ! i)\<lparr>minWts := t0, gcLock := 0, continuingCommit := 0, latest_ver := p\<rparr>]\<rparr>)"

definition partTableInit :: "64 word \<Rightarrow> cversion \<Rightarrow> nat \<Rightarrow> nat \<Rightarrow> cicada \<Rightarrow> cicada" where
  "partTableInit t0 raw start stop S = fold (init_record t0 raw) [start..<Suc stop] S"

text \<open>
  \<open>init\<close> and the start of \<open>main\<close>, on memory \<open>table\<close>; \<open>hw\<close> processors, the clock at the start, the parts built one after the other.
\<close>

definition init_cicada :: "nat \<Rightarrow> 64 word \<Rightarrow> cversion \<Rightarrow> ctuple list \<Rightarrow> cicada option" where
  "init_cicada hw clock raw tab =
    (let zeros = replicate THREADS 0; t0 = stamp_of clock 0;
         S = \<lparr>vers = Map.empty, ver_brk = 1, c_table = tab, MinRts = 0, MinWts = 0, FirstAllocateTimestamp = 0,
              ThreadWtsArray = zeros, ThreadRtsArray = zeros, GCFlag = zeros, GCExecuteFlag = zeros\<rparr>
     in do {
       maxThread \<leftarrow> decideParallelTableBuildNumber hw TUPLES;
       let c = TUPLES div maxThread;
       let S = fold (\<lambda>i. partTableInit t0 raw (i * c) ((i + 1) * c - 1)) [0..<maxThread] S;
       Some (S\<lparr>MinWts := t0 + 2\<rparr>)
     })"

definition run_step_tx :: "cversion \<Rightarrow> step \<Rightarrow> tx_executor \<times> cicada \<Rightarrow> (tx_executor \<times> cicada) option" where
  "run_step_tx raw s xS = (case xS of (x, S) \<Rightarrow>
     (case operation s of
       Read \<Rightarrow> do { x \<leftarrow> read_tx x S (key s); Some (x, S) }
     | Write \<Rightarrow> write_tx x S (key s) raw
     | RMW \<Rightarrow> do { x \<leftarrow> read_tx x S (key s); write_tx x S (key s) raw }))"

fun run_steps_tx :: "cversion \<Rightarrow> step list \<Rightarrow> tx_executor \<times> cicada \<Rightarrow> (tx_executor \<times> cicada) option" where
  "run_steps_tx raw [] xS = Some xS"
| "run_steps_tx raw (s # ss) xS = do { xS \<leftarrow> run_step_tx raw s xS; run_steps_tx raw ss xS }"

text \<open>One round of the worker's loop, with the steps it makes.\<close>

definition worker_round :: "cversion \<Rightarrow> step list \<Rightarrow> 64 word \<Rightarrow> tx_executor \<times> cicada \<Rightarrow> (tx_executor \<times> cicada) option" where
  "worker_round raw ss clock xS = (case xS of (x, S) \<Rightarrow> do {
     let x = x\<lparr>tx_steps := ss\<rparr>;
     let S = (if threadId x = 0 then leaderWork S else S);
     (x, S) \<leftarrow> begin_tx clock x S;
     run_steps_tx raw (tx_steps x) (x, S)
   })"

fun worker_rounds :: "cversion \<Rightarrow> (step list \<times> 64 word) list \<Rightarrow> tx_executor \<times> cicada \<Rightarrow> (tx_executor \<times> cicada) option" where
  "worker_rounds raw [] xS = Some xS"
| "worker_rounds raw ((ss, clock) # rs) xS = do { xS \<leftarrow> worker_round raw ss clock xS; worker_rounds raw rs xS }"

declare skip_later.simps [code] skip_aborted.simps [code] maintain_loop.simps [code]

end
