(* ===== verification/Cicada_Props.thy ===== *)
theory Cicada_Props
  imports Cicada
begin


text \<open>
  The properties of the Cicada draft: its time stamps, the version a read chooses, and that a worker runs for ever without
  a fault and without ever changing the table.
\<close>

section \<open>Time stamps\<close>


lemma unat_stamp_of:
  assumes "unat c < 2 ^ 56"
  shows "unat (stamp_of c i) = unat c * 256 + unat i"
proof -
  have "push_bit 8 c AND ucast i = (0 :: 64 word)"
    by (rule bit_word_eqI) (auto simp: bit_and_iff bit_push_bit_iff bit_ucast_iff dest: bit_imp_le_length)
  then have "stamp_of c i = push_bit 8 c + ucast i" by (simp add: stamp_of_def disjunctive_add_eq_or)
  moreover have "push_bit 8 c = c * 256" by (simp add: push_bit_eq_mult)
  moreover have "unat i < 256" using unsigned_less [of i, where ?'a = nat] by simp
  moreover have "unat (ucast i :: 64 word) = unat i" using calculation(3) by (simp add: unsigned_ucast_eq take_bit_eq_mod)
  ultimately show ?thesis using assms by (simp add: unat_word_ariths)
qed

lemma stamp_of_less:
  assumes "unat c < unat c'" "unat c' < 2 ^ 56"
  shows "stamp_of c i < stamp_of c' j"
proof -
  have "unat i < 256" using unsigned_less [of i, where ?'a = nat] by simp
  then show ?thesis using assms by (simp add: word_less_nat_alt unat_stamp_of)
qed

text \<open>Adding a small number to the stamp of thread 0 stays below the next clock.\<close>

lemma stamp_of_add:
  assumes "unat c < 2 ^ 56"
  shows "unat (stamp_of c 0 + 2) = unat c * 256 + 2"
  using assms unat_stamp_of [OF assms, of 0] by (simp add: unat_word_ariths)

section \<open>The version a read chooses\<close>

text \<open>The versions of a record from the latest on.\<close>

fun version_chain :: "(addr \<rightharpoonup> cversion) \<Rightarrow> addr \<Rightarrow> (addr \<times> cversion) list \<Rightarrow> bool" where
  "version_chain h p [] \<longleftrightarrow> p = NULL"
| "version_chain h p ((a, v) # vs) \<longleftrightarrow> p = a \<and> h a = Some v \<and> version_chain h (v_next v) vs"

definition later_than :: "64 word \<Rightarrow> addr \<times> cversion \<Rightarrow> bool" where
  "later_than ts av \<longleftrightarrow> ts < v_wts (snd av)"

definition aborted :: "addr \<times> cversion \<Rightarrow> bool" where
  "aborted av \<longleftrightarrow> v_status (snd av) = Aborted"

text \<open>
  The version visible at a time: of the versions that are not later, the first that is not aborted, if it is committed.
\<close>

definition visible :: "64 word \<Rightarrow> (addr \<times> cversion) list \<Rightarrow> (addr \<times> cversion) option" where
  "visible ts vs = (case dropWhile aborted (dropWhile (later_than ts) vs) of
     [] \<Rightarrow> None | (a, v) # _ \<Rightarrow> if v_status v = Committed then Some (a, v) else None)"

definition last_later :: "64 word \<Rightarrow> addr \<Rightarrow> (addr \<times> cversion) list \<Rightarrow> addr" where
  "last_later ts p vs = (case takeWhile (later_than ts) vs of [] \<Rightarrow> p | us \<Rightarrow> fst (last us))"

lemma skip_later_chain:
  assumes "version_chain h p vs" "h NULL = None"
  shows "skip_later h ts l p = (if dropWhile (later_than ts) vs = [] then None
    else Some (last_later ts l vs, fst (hd (dropWhile (later_than ts) vs))))"
  using assms(1)
proof (induction vs arbitrary: p l)
  case Nil
  then show ?case using assms(2) by (subst skip_later.simps) simp
next
  case (Cons av vs)
  obtain a v where av: "av = (a, v)" by (cases av)
  show ?case
  proof (cases "later_than ts av")
    case True
    then have "skip_later h ts l p = skip_later h ts a (v_next v)"
      using Cons.prems av by (subst skip_later.simps) (simp add: later_than_def)
    moreover have "last_later ts a vs = last_later ts l (av # vs)" using True av by (simp add: last_later_def split: list.split)
    ultimately show ?thesis using Cons.IH [of "v_next v" a] Cons.prems av True by simp
  next
    case False
    then show ?thesis using Cons.prems av by (subst skip_later.simps) (simp add: later_than_def last_later_def)
  qed
qed

lemma chain_dropWhile:
  "version_chain h p vs \<Longrightarrow> dropWhile P vs \<noteq> [] \<Longrightarrow> version_chain h (fst (hd (dropWhile P vs))) (dropWhile P vs)"
  by (induction vs arbitrary: p) auto

lemma skip_aborted_chain:
  assumes "version_chain h p vs" "h NULL = None"
  shows "skip_aborted h p = (case dropWhile aborted vs of [] \<Rightarrow> None | (a, v) # _ \<Rightarrow> if v_status v = Committed then Some a else None)"
  using assms(1)
proof (induction vs arbitrary: p)
  case Nil
  then show ?case using assms(2) by (subst skip_aborted.simps) simp
next
  case (Cons av vs)
  obtain a v where av: "av = (a, v)" by (cases av)
  show ?case
  proof (cases "v_status v = Aborted")
    case True
    then have "aborted av" by (simp add: aborted_def av)
    then show ?thesis using Cons av True by (subst skip_aborted.simps) simp
  next
    case False
    then have "\<not> aborted av" by (simp add: aborted_def av)
    then show ?thesis using Cons.prems av False by (subst skip_aborted.simps) simp
  qed
qed

lemma chain_in: "version_chain h p vs \<Longrightarrow> (a, v) \<in> set vs \<Longrightarrow> h a = Some v"
  by (induction vs arbitrary: p) auto

lemma visible_in: "visible ts vs = Some (a, v) \<Longrightarrow> (a, v) \<in> set vs \<and> v_status v = Committed"
proof -
  assume "visible ts vs = Some (a, v)"
  then obtain us where u: "dropWhile aborted (dropWhile (later_than ts) vs) = (a, v) # us" "v_status v = Committed"
    unfolding visible_def by (auto split: list.splits if_splits)
  then have "(a, v) \<in> set (dropWhile aborted (dropWhile (later_than ts) vs))" by simp
  then show ?thesis using u(2) by (blast dest: set_dropWhileD)
qed

text \<open>The two loops together find the visible version.\<close>

lemma search_visible:
  assumes "version_chain h p vs" "h NULL = None"
  shows "(do { (l, ver) \<leftarrow> skip_later h ts NULL p; ver \<leftarrow> skip_aborted h ver; Some (l, ver) }) =
    map_option (\<lambda>(a, v). (last_later ts NULL vs, a)) (visible ts vs)"
proof (cases "dropWhile (later_than ts) vs = []")
  case True
  then show ?thesis unfolding visible_def skip_later_chain [OF assms] True by simp
next
  case False
  note c = skip_aborted_chain [OF chain_dropWhile [OF assms(1) False] assms(2)]
  show ?thesis
    by (cases "dropWhile aborted (dropWhile (later_than ts) vs)")
      (use False in \<open>auto simp: skip_later_chain [OF assms] c visible_def simp del: dropWhile_eq_Nil_conv\<close>)
qed

lemma read_tx_visible:
  assumes "version_chain (vers S) (latest_ver t) vs" "vers S NULL = None" "load_at (c_table S) (unat k) = Some t"
    "searchWriteSet_tx x k = None" "searchReadSet_tx x k = None" "tx_steps x = s # ss"
  shows "read_tx x S k = (let ts = (if readOnly s then tx_rts x else ts_body (tx_wts x)) in
    case visible ts vs of None \<Rightarrow> None
    | Some (a, v) \<Rightarrow> Some (x\<lparr>tx_returnValue := v_value v,
        tx_readSet := (if readOnly s then tx_readSet x
          else tx_readSet x @ [\<lparr>r_key = k, r_record = unat k, r_laterVer = last_later ts NULL vs, r_ver = a\<rparr>])\<rparr>))"
proof -
  define ts where "ts = (if readOnly s then tx_rts x else ts_body (tx_wts x))"
  have r: "read_tx x S k = do {
      (later, ver) \<leftarrow> (do { (l, ver) \<leftarrow> skip_later (vers S) ts NULL (latest_ver t); ver \<leftarrow> skip_aborted (vers S) ver; Some (l, ver) });
      v \<leftarrow> vers S ver;
      let x = x\<lparr>tx_returnValue := v_value v\<rparr>;
      Some (if readOnly s then x else x\<lparr>tx_readSet := tx_readSet x @ [\<lparr>r_key = k, r_record = unat k, r_laterVer = later, r_ver = ver\<rparr>]\<rparr>) }"
    using assms(3-6) by (simp add: read_tx_def load_at_def ts_def split_def)
  show ?thesis
  proof (cases "visible ts vs")
    case None
    then show ?thesis unfolding r search_visible [OF assms(1,2)] by (simp add: ts_def)
  next
    case (Some av)
    obtain a v where av: "av = (a, v)" by (cases av)
    have "vers S a = Some v" using Some av visible_in chain_in [OF assms(1)] by blast
    then show ?thesis using Some av unfolding r search_visible [OF assms(1,2)] by (cases x) (simp add: ts_def Let_def)
  qed
qed

section \<open>The table never changes\<close>

text \<open>The table as \<open>init\<close> leaves it, with the time \<open>t0\<close>; and a worker whose clock is past it.\<close>

definition fresh_record :: "cicada \<Rightarrow> 64 word \<Rightarrow> ctuple \<Rightarrow> bool" where
  "fresh_record S t0 t \<longleftrightarrow> (\<exists>v. vers S (latest_ver t) = Some v \<and> v_wts v = t0 \<and> v_rts v = 0 \<and> v_status v = Committed \<and> v_next v = NULL) \<and>
     continuingCommit t = 0"

definition fresh_table :: "64 word \<Rightarrow> cicada \<Rightarrow> bool" where
  "fresh_table c0 S \<longleftrightarrow> length (c_table S) = TUPLES \<and> (\<forall>t \<in> set (c_table S). fresh_record S (stamp_of c0 0) t) \<and>
     (\<forall>a. vers S a \<noteq> None \<longrightarrow> a \<noteq> NULL \<and> a < ver_brk S) \<and> ver_brk S \<noteq> NULL \<and>
     GCFlag S = replicate THREADS 0 \<and> MinWts S = stamp_of c0 0 + 2 \<and> length (ThreadWtsArray S) = THREADS \<and> length (ThreadRtsArray S) = THREADS"

definition worker_ready :: "64 word \<Rightarrow> tx_executor \<Rightarrow> bool" where
  "worker_ready c0 x \<longleftrightarrow> unat (threadId x) < THREADS \<and> clockBoost (tx_wts x) = 0 \<and>
     unat (localClock (tx_wts x)) < 2 ^ 56 \<and> (\<forall>e \<in> set (tx_readSet x). r_record e < TUPLES)"

definition in_transaction :: "64 word \<Rightarrow> tx_executor \<Rightarrow> bool" where
  "in_transaction c0 x \<longleftrightarrow> worker_ready c0 x \<and> stamp_of c0 0 < ts_body (tx_wts x) \<and> stamp_of c0 0 < tx_rts x \<and> tx_status x = InFlight"

text \<open>Nothing of the table and of the versions that were there has changed.\<close>

definition same_table :: "cicada \<Rightarrow> cicada \<Rightarrow> bool" where
  "same_table S S' \<longleftrightarrow> c_table S' = c_table S \<and> (\<forall>a v. vers S a = Some v \<longrightarrow> vers S' a = Some v)"

lemma same_table_refl [simp]: "same_table S S"
  by (simp add: same_table_def)

lemma same_table_trans: "same_table S S' \<Longrightarrow> same_table S' S'' \<Longrightarrow> same_table S S''"
  by (simp add: same_table_def)

lemma fresh_load: "fresh_table c0 S \<Longrightarrow> k < TUPLES \<Longrightarrow> \<exists>t v. load_at (c_table S) k = Some t \<and> vers S (latest_ver t) = Some v \<and>
    v_wts v = stamp_of c0 0 \<and> v_rts v = 0 \<and> v_status v = Committed \<and> v_next v = NULL \<and> version_chain (vers S) (latest_ver t) [(latest_ver t, v)]"
  by (fastforce simp: fresh_table_def fresh_record_def load_at_def)

lemma read_tx_fresh:
  assumes "fresh_table c0 S" "in_transaction c0 x" "unat k < TUPLES" "tx_steps x = s # ss"
  shows "\<exists>x'. read_tx x S k = Some x' \<and> in_transaction c0 x' \<and> tx_steps x' = tx_steps x"
proof (cases "searchWriteSet_tx x k = None \<and> searchReadSet_tx x k = None")
  case True
  obtain t v where t: "load_at (c_table S) (unat k) = Some t" "v_wts v = stamp_of c0 0" "v_status v = Committed"
    "version_chain (vers S) (latest_ver t) [(latest_ver t, v)]" using fresh_load [OF assms(1,3)] by blast
  define ts where "ts = (if readOnly s then tx_rts x else ts_body (tx_wts x))"
  have "\<not> ts < stamp_of c0 0" using assms(2) by (auto simp: ts_def in_transaction_def)
  then have "visible ts [(latest_ver t, v)] = Some (latest_ver t, v)" using t(2,3) by (simp add: visible_def later_than_def aborted_def)
  moreover have "vers S NULL = None" using assms(1) by (auto simp: fresh_table_def)
  ultimately show ?thesis using read_tx_visible [OF t(4) _ t(1) _ _ assms(4)] True assms(2,3)
    by (auto simp: ts_def Let_def in_transaction_def worker_ready_def)
next
  case False
  then show ?thesis using assms(2) by (auto simp: read_tx_def)
qed

lemma new_version_fresh:
  assumes "fresh_table c0 S" "new_version S v = (p, S')"
  shows "fresh_table c0 S' \<and> same_table S S'"
proof -
  have S': "S' = S\<lparr>vers := (vers S)(ver_brk S \<mapsto> v), ver_brk := ver_brk S + 1\<rparr>" using assms(2) by (auto simp: new_version_def)
  have n: "vers S (ver_brk S) = None" using assms(1) by (auto simp: fresh_table_def)
  then have s: "same_table S S'" by (auto simp: same_table_def S')
  have "fresh_record S' t0 t" if "fresh_record S t0 t" for t0 t using that s by (auto simp: fresh_record_def same_table_def)
  then show ?thesis using assms(1) s by (auto simp: fresh_table_def S' less_Suc_eq)
qed

lemma write_tx_fresh:
  assumes "fresh_table c0 S" "in_transaction c0 x" "unat k < TUPLES"
  shows "\<exists>x' S'. write_tx x S k raw = Some (x', S') \<and> in_transaction c0 x' \<and> tx_steps x' = tx_steps x \<and> fresh_table c0 S' \<and> same_table S S'"
proof (cases "searchWriteSet_tx x k = None")
  case True
  define r where "r = (case searchReadSet_tx x k of Some e \<Rightarrow> r_record e | None \<Rightarrow> unat k)"
  have "r < TUPLES" using assms(2,3) unfolding r_def
    by (auto simp: in_transaction_def worker_ready_def searchReadSet_tx_def find_Some_iff split: option.splits)
  from fresh_load [OF assms(1) this] obtain t v where t: "load_at (c_table S) r = Some t" "vers S (latest_ver t) = Some v"
    "v_wts v = stamp_of c0 0" "v_rts v = 0" by blast
  let ?ts = "ts_body (tx_wts x)"
  have nl: "\<not> v_wts v > ?ts" using assms(2) t(3) by (auto simp: in_transaction_def)
  then have sk: "skip_later (vers S) ?ts NULL (latest_ver t) = Some (NULL, latest_ver t)"
    using t(2) by (subst skip_later.simps) simp
  obtain p S' where p: "new_version S (version_with 0 ?ts raw) = (p, S')" by (cases "new_version S (version_with 0 ?ts raw)")
  let ?e = "\<lparr>w_key = k, w_record = r, w_laterVer = NULL, w_newVer = p, w_RMW = (searchReadSet_tx x k \<noteq> None), finishVersionInstall = False\<rparr>"
  have "write_tx x S k raw = Some (x\<lparr>tx_writeSet := tx_writeSet x @ [?e]\<rparr>, S')"
    unfolding write_tx_def Let_def r_def [symmetric] using True t(1,2,4) nl sk p by simp
  then show ?thesis using new_version_fresh [OF assms(1) p] assms(2) by (auto simp: in_transaction_def worker_ready_def)
next
  case False
  then show ?thesis using assms by (auto simp: write_tx_def)
qed

lemma run_step_fresh:
  assumes "fresh_table c0 S" "in_transaction c0 x" "unat (key s) < TUPLES" "tx_steps x = sf # ss"
  shows "\<exists>x' S'. run_step_tx raw s (x, S) = Some (x', S') \<and> in_transaction c0 x' \<and> tx_steps x' = tx_steps x \<and> fresh_table c0 S' \<and> same_table S S'"
proof (cases "operation s")
  case Read
  then show ?thesis using read_tx_fresh [OF assms] assms(1) by (auto simp: run_step_tx_def)
next
  case Write
  then show ?thesis using write_tx_fresh [OF assms(1-3)] by (simp add: run_step_tx_def)
next
  case RMW
  obtain x1 where x1: "read_tx x S (key s) = Some x1" "in_transaction c0 x1" "tx_steps x1 = tx_steps x" using read_tx_fresh [OF assms] by blast
  then show ?thesis using write_tx_fresh [OF assms(1) x1(2) assms(3)] RMW by (simp add: run_step_tx_def)
qed

lemma run_steps_fresh:
  assumes "fresh_table c0 S" "in_transaction c0 x" "\<forall>s \<in> set us. unat (key s) < TUPLES" "tx_steps x = sf # ss"
  shows "\<exists>x' S'. run_steps_tx raw us (x, S) = Some (x', S') \<and> in_transaction c0 x' \<and> fresh_table c0 S' \<and> same_table S S'"
  using assms
proof (induction us arbitrary: x S)
  case (Cons u us)
  obtain x1 S1 where 1: "run_step_tx raw u (x, S) = Some (x1, S1)" "in_transaction c0 x1" "tx_steps x1 = tx_steps x" "fresh_table c0 S1" "same_table S S1"
    using run_step_fresh [OF Cons.prems(1,2) _ Cons.prems(4), of u raw] Cons.prems(3) by auto
  from Cons.IH [OF 1(4,2)] Cons.prems(3,4) 1(3) obtain x' S' where "run_steps_tx raw us (x1, S1) = Some (x', S')" "in_transaction c0 x'" "fresh_table c0 S'" "same_table S1 S'"
    by auto
  then show ?case using 1(1) same_table_trans [OF 1(5)] by auto
qed auto

lemma begin_fresh:
  assumes "fresh_table c0 S" "worker_ready c0 x" "unat c0 < unat clock" "unat clock < 2 ^ 56"
  shows "\<exists>x' S'. begin_tx clock x S = Some (x', S') \<and> in_transaction c0 x' \<and> tx_steps x' = tx_steps x \<and> fresh_table c0 S' \<and> same_table S S'"
proof -
  let ?t = "tx_wts x" let ?t' = "generateTimeStamp clock (threadId x) ?t"
  define l where "l = (if clock < localClock ?t then localClock ?t else clock)"
  have t': "?t' = ?t\<lparr>localClock := l, ts_body := stamp_of l (threadId x)\<rparr>"
    using assms(2) by (simp add: generateTimeStamp_def worker_ready_def l_def Let_def)
  have l: "unat c0 < unat l" "unat l < 2 ^ 56" using assms by (auto simp: l_def worker_ready_def word_less_nat_alt)
  have s: "stamp_of c0 0 < stamp_of l (threadId x)" using stamp_of_less [OF l] .
  have "unat c0 < 2 ^ 56" using l by simp
  from stamp_of_add [OF this] unat_stamp_of [OF this, of 0] have m: "stamp_of c0 0 < stamp_of c0 0 + 2" by (simp add: word_less_nat_alt)
  have i: "unat (threadId x) < THREADS" "length (ThreadWtsArray S) = THREADS" "length (ThreadRtsArray S) = THREADS" "MinWts S = stamp_of c0 0 + 2"
    using assms(1,2) by (simp_all add: worker_ready_def fresh_table_def)
  let ?S = "S\<lparr>ThreadWtsArray := (ThreadWtsArray S)[unat (threadId x) := ts_body ?t'], ThreadRtsArray := (ThreadRtsArray S)[unat (threadId x) := MinWts S]\<rparr>"
  let ?x = "x\<lparr>tx_status := InFlight, tx_wts := ?t', tx_rts := MinWts S\<rparr>"
  have "begin_tx clock x S = Some (?x, ?S)" using i by (simp add: begin_tx_def load_at_def Let_def)
  moreover have "in_transaction c0 ?x" using assms(2) s m i(4) l(2) by (simp add: in_transaction_def worker_ready_def t')
  moreover have "fresh_table c0 ?S" "same_table S ?S" using assms(1) by (auto simp: fresh_table_def fresh_record_def same_table_def)
  ultimately show ?thesis by auto
qed

lemma worker_round_fresh:
  assumes "fresh_table c0 S" "worker_ready c0 x" "unat c0 < unat clock" "unat clock < 2 ^ 56" "ss \<noteq> []" "\<forall>s \<in> set ss. unat (key s) < TUPLES"
  shows "\<exists>x' S'. worker_round raw ss clock (x, S) = Some (x', S') \<and> in_transaction c0 x' \<and> fresh_table c0 S' \<and> same_table S S'"
proof -
  have ld: "leaderWork S = S" using assms(1) by (auto simp: leaderWork_def fresh_table_def dest: spec [of _ 0])
  have "worker_ready c0 (x\<lparr>tx_steps := ss\<rparr>)" using assms(2) by (simp add: worker_ready_def)
  from begin_fresh [OF assms(1) this assms(3,4)] obtain x1 S1 where 1: "begin_tx clock (x\<lparr>tx_steps := ss\<rparr>) S = Some (x1, S1)"
    "in_transaction c0 x1" "tx_steps x1 = ss" "fresh_table c0 S1" "same_table S S1" by auto
  obtain sf us where us: "ss = sf # us" using assms(5) by (cases ss) auto
  obtain x' S' where "run_steps_tx raw ss (x1, S1) = Some (x', S')" "in_transaction c0 x'" "fresh_table c0 S'" "same_table S1 S'"
    using run_steps_fresh [OF 1(4,2) assms(6)] 1(3) us by blast
  then show ?thesis using 1 ld same_table_trans [OF 1(5)] by (auto simp: worker_round_def)
qed

lemma worker_rounds_fresh:
  assumes "fresh_table c0 S" "worker_ready c0 x"
    "\<forall>(ss, clock) \<in> set rs. ss \<noteq> [] \<and> (\<forall>s \<in> set ss. unat (key s) < TUPLES) \<and> unat c0 < unat clock \<and> unat clock < 2 ^ 56"
  shows "\<exists>x' S'. worker_rounds raw rs (x, S) = Some (x', S') \<and> worker_ready c0 x' \<and> fresh_table c0 S' \<and> same_table S S'"
  using assms
proof (induction rs arbitrary: x S)
  case (Cons r rs)
  obtain ss clock where r: "r = (ss, clock)" by (cases r)
  obtain x1 S1 where 1: "worker_round raw ss clock (x, S) = Some (x1, S1)" "in_transaction c0 x1" "fresh_table c0 S1" "same_table S S1"
    using worker_round_fresh [OF Cons.prems(1,2), of clock ss raw] Cons.prems(3) by (auto simp: r)
  have "worker_ready c0 x1" using 1(2) by (simp add: in_transaction_def)
  from Cons.IH [OF 1(3) this] Cons.prems(3) obtain x' S' where "worker_rounds raw rs (x1, S1) = Some (x', S')" "worker_ready c0 x'" "fresh_table c0 S'" "same_table S1 S'"
    by auto
  then show ?case using 1(1) same_table_trans [OF 1(4)] by (auto simp: r)
qed auto

section \<open>Initialisation\<close>

lemma fold_parts:
  "0 < c \<Longrightarrow> fold (\<lambda>i. partTableInit t0 raw (i * c) ((i + 1) * c - 1)) [0..<m] S = fold (init_record t0 raw) [0..<m * c] S"
proof (induction m)
  case (Suc m)
  have "[0..<Suc m * c] = [0..<m * c] @ [m * c..<Suc m * c]" using upt_add_eq_append [of 0 "m * c" c] by (simp add: add.commute)
  moreover have "Suc ((m + 1) * c - 1) = Suc m * c" using Suc.prems by simp
  ultimately show ?case using Suc by (simp add: partTableInit_def del: upt_Suc_append upt_Suc mult_Suc) simp
qed simp

definition started :: "64 word \<Rightarrow> nat \<Rightarrow> cicada \<Rightarrow> cicada \<Rightarrow> bool" where
  "started t0 n S S' \<longleftrightarrow> length (c_table S') = length (c_table S) \<and> (\<forall>i < n. fresh_record S' t0 (c_table S' ! i)) \<and>
     (\<forall>a. vers S' a \<noteq> None \<longrightarrow> a \<noteq> NULL \<and> a < ver_brk S') \<and> ver_brk S' \<noteq> NULL \<and>
     S' = S\<lparr>vers := vers S', ver_brk := ver_brk S', c_table := c_table S'\<rparr>"

lemma started_step:
  assumes "started t0 n S S'" "n < length (c_table S)"
  shows "started t0 (Suc n) S (init_record t0 raw n S')"
proof -
  define v where "v = (let v = atomicSet 0 t0 NULL Committed (version_default raw) in v\<lparr>v_value := (v_value v)[0 := 0]\<rparr>)"
  have v: "v_wts v = t0" "v_rts v = 0" "v_status v = Committed" "v_next v = NULL" by (simp_all add: v_def atomicSet_def Let_def)
  let ?p = "ver_brk S'"
  let ?t = "(c_table S' ! n)\<lparr>minWts := t0, gcLock := 0, continuingCommit := 0, latest_ver := ?p\<rparr>"
  have r: "init_record t0 raw n S' = S'\<lparr>vers := (vers S')(?p \<mapsto> v), ver_brk := ?p + 1, c_table := (c_table S')[n := ?t]\<rparr>"
    by (simp add: init_record_def new_version_def v_def)
  have n: "vers S' ?p = None" using assms(1) by (auto simp: started_def)
  have keep: "fresh_record (init_record t0 raw n S') t0 t" if "fresh_record S' t0 t" for t
    using that n by (auto simp: fresh_record_def r)
  have "fresh_record (init_record t0 raw n S') t0 (c_table (init_record t0 raw n S') ! i)" if "i < Suc n" for i
  proof (cases "i = n")
    case True
    then show ?thesis using assms v by (simp add: r fresh_record_def started_def)
  next
    case False
    then have "i < n" using that by simp
    then have "fresh_record S' t0 (c_table S' ! i)" using assms(1) by (simp add: started_def)
    then show ?thesis using keep False by (simp add: r)
  qed
  moreover have "S' = S\<lparr>vers := vers S', ver_brk := ver_brk S', c_table := c_table S'\<rparr>" using assms(1) by (simp add: started_def)
  then have "init_record t0 raw n S' = S\<lparr>vers := vers (init_record t0 raw n S'), ver_brk := ver_brk (init_record t0 raw n S'), c_table := c_table (init_record t0 raw n S')\<rparr>"
    unfolding r by (cases S; cases S') simp
  ultimately show ?thesis using assms(1) n unfolding started_def by (auto simp: r less_Suc_eq split: if_splits)
qed

lemma started_all:
  assumes "vers S = Map.empty" "ver_brk S = 1" "n \<le> length (c_table S)"
  shows "started t0 n S (fold (init_record t0 raw) [0..<n] S)"
  using assms(3)
proof (induction n)
  case 0
  then show ?case using assms by (simp add: started_def)
next
  case (Suc n)
  then show ?case using started_step [of t0 n S _ raw] by simp
qed

lemma init_fresh:
  assumes "0 < hw" "length tab = TUPLES"
  shows "\<exists>S. init_cicada hw c0 raw tab = Some S \<and> fresh_table c0 S"
proof -
  let ?z = "replicate THREADS (0 :: 64 word)"
  define S0 where "S0 = \<lparr>vers = Map.empty, ver_brk = 1, c_table = tab, MinRts = 0, MinWts = 0, FirstAllocateTimestamp = 0,
    ThreadWtsArray = ?z, ThreadRtsArray = ?z, GCFlag = ?z, GCExecuteFlag = ?z\<rparr>"
  obtain m where m: "build_number_loop TUPLES hw = Some m" using build_number_total by blast
  with build_number_divides [OF m assms(1)] have d: "0 < m" "TUPLES mod m = 0" "decideParallelTableBuildNumber hw TUPLES = Some m"
    by (simp_all add: decideParallelTableBuildNumber_def)
  then have c: "m * (TUPLES div m) = TUPLES" "0 < TUPLES div m" by (auto simp: dvd_mult_div_cancel mod_eq_0_iff_dvd div_greater_zero_iff dvd_imp_le)
  define S1 where "S1 = fold (init_record (stamp_of c0 0) raw) [0..<TUPLES] S0"
  have i: "init_cicada hw c0 raw tab = Some (S1\<lparr>MinWts := stamp_of c0 0 + 2\<rparr>)"
    unfolding init_cicada_def Let_def d(3) S0_def [symmetric] using fold_parts [OF c(2), of "stamp_of c0 0" raw m S0] unfolding c(1) S1_def [symmetric] by simp
  have st: "started (stamp_of c0 0) TUPLES S0 S1"
    unfolding S1_def by (rule started_all) (simp_all add: S0_def assms(2))
  then have e: "S1 = S0\<lparr>vers := vers S1, ver_brk := ver_brk S1, c_table := c_table S1\<rparr>" by (simp add: started_def)
  have f: "GCFlag S1 = ?z" "ThreadWtsArray S1 = ?z" "ThreadRtsArray S1 = ?z"
    using arg_cong [OF e, of GCFlag] arg_cong [OF e, of ThreadWtsArray] arg_cong [OF e, of ThreadRtsArray] by (simp_all add: S0_def)
  have len: "length (c_table S1) = TUPLES" using st assms(2) by (simp add: started_def S0_def)
  have "fresh_record S1 (stamp_of c0 0) t" if "t \<in> set (c_table S1)" for t
    using that st len by (auto simp: in_set_conv_nth started_def)
  then have "fresh_table c0 (S1\<lparr>MinWts := stamp_of c0 0 + 2\<rparr>)"
    using st f len by (simp add: fresh_table_def fresh_record_def started_def)
  then show ?thesis using i by blast
qed

lemma reserve_fresh:
  "fresh_table c0 S \<Longrightarrow> reserve_versions n raw S = (ps, S') \<Longrightarrow> fresh_table c0 S' \<and> same_table S S'"
proof (induction n arbitrary: S ps S')
  case (Suc n)
  obtain p S1 where p: "new_version S (version_default raw) = (p, S1)" by (cases "new_version S (version_default raw)")
  obtain qs S2 where q: "reserve_versions n raw S1 = (qs, S2)" by (cases "reserve_versions n raw S1")
  have "S' = S2" using Suc.prems(2) p q by simp
  then show ?case using new_version_fresh [OF Suc.prems(1) p] Suc.IH [OF _ q] same_table_trans by blast
qed simp

lemma construct_fresh:
  assumes "fresh_table c0 S" "unat c0 < 2 ^ 56" "unat clock < 2 ^ 56" "thr = 0 \<or> thr = 1"
  shows "\<exists>x S'. construct thr clock now raw S = Some (x, S') \<and> worker_ready c0 x \<and> fresh_table c0 S' \<and> same_table S S'"
proof -
  have "unat (MinWts S) \<noteq> 0" using assms(1) stamp_of_add [OF assms(2)] by (simp add: fresh_table_def)
  then have m: "MinWts S \<noteq> 0" by auto
  let ?S = "S\<lparr>ThreadWtsArray := (ThreadWtsArray S)[unat thr := stamp_of clock thr], FirstAllocateTimestamp := FirstAllocateTimestamp S + 1\<rparr>"
  have s: "fresh_table c0 ?S" "same_table S ?S" using assms(1) by (auto simp: fresh_table_def fresh_record_def same_table_def)
  obtain ps S' where r: "reserve_versions PRE_RESERVE_VERSION raw ?S = (ps, S')" by (cases "reserve_versions PRE_RESERVE_VERSION raw ?S")
  have t: "unat thr < 2" using assms(4) by auto
  have "genStringRepeatedNumber (replicate 4 0) 4 0 = Some [48, 48, 0, 0]" "genStringRepeatedNumber (replicate 4 0) 4 1 = Some [49, 48, 0, 0]"
    by code_simp+
  then have g: "\<exists>val. genStringRepeatedNumber (replicate 4 0) 4 (unat thr) = Some val" using assms(4) by auto
  have l: "length (ThreadWtsArray S) = 2" using assms(1) by (simp add: fresh_table_def)
  show ?thesis using m r t g l reserve_fresh [OF s(1) r] same_table_trans [OF s(2)] assms(3)
    by (auto simp: construct_def initial_executor_def generateTimeStampFirst_def load_at_def worker_ready_def Let_def)
qed










section \<open>The properties\<close>




text \<open>
  C37: The two loops of a read choose the visible version: on a chain of versions, \<open>read\<close> of a key that is in neither set
  returns the value of the first version that is not later than the transaction's time, versions that are aborted left out,
  provided it is committed, and records it with the last version that was later; a read-only transaction uses the time
  \<open>rts\<close> and records nothing. Where there is no such version, or it is pending, \<open>read\<close> does not return.
\<close>

theorem read_chooses_the_visible_version:
  assumes "version_chain (vers S) (latest_ver t) vs" "vers S NULL = None" "load_at (c_table S) (unat k) = Some t"
    "searchWriteSet_tx x k = None" "searchReadSet_tx x k = None" "tx_steps x = s # ss"
  shows "read_tx x S k = (let ts = (if readOnly s then tx_rts x else ts_body (tx_wts x)) in
    case visible ts vs of None \<Rightarrow> None
    | Some (a, v) \<Rightarrow> Some (x\<lparr>tx_returnValue := v_value v,
        tx_readSet := (if readOnly s then tx_readSet x
          else tx_readSet x @ [\<lparr>r_key = k, r_record = unat k, r_laterVer = last_later ts NULL vs, r_ver = a\<rparr>])\<rparr>))"
  by (rule read_tx_visible) (fact assms)+

definition example_chain :: "(addr \<times> cversion) list" where
  "example_chain =
    [(4, \<lparr>v_rts = 0, v_wts = 90, v_next = 3, v_status = Pending, v_value = [4]\<rparr>), (3, \<lparr>v_rts = 0, v_wts = 50, v_next = 2, v_status = Aborted, v_value = [3]\<rparr>),
     (2, \<lparr>v_rts = 0, v_wts = 40, v_next = 1, v_status = Committed, v_value = [2]\<rparr>), (1, \<lparr>v_rts = 0, v_wts = 10, v_next = NULL, v_status = Committed, v_value = [1]\<rparr>)]"

definition example_cicada :: cicada where
  "example_cicada = \<lparr>vers = map_of example_chain, ver_brk = 5,
     c_table = [\<lparr>latest_ver = 4, minWts = 10, continuingCommit = 0, gcLock = 0\<rparr>], MinRts = 0, MinWts = 12,
     FirstAllocateTimestamp = 0, ThreadWtsArray = [60, 0], ThreadRtsArray = [0, 0], GCFlag = [0, 0], GCExecuteFlag = [0, 0]\<rparr>"

definition example_tx :: tx_executor where
  "example_tx = initial_executor\<lparr>tx_steps := [Step Read 0], tx_wts := (tx_wts initial_executor)\<lparr>ts_body := 60\<rparr>, tx_rts := 12\<rparr>"

theorem read_chooses_the_visible_version_witness:
  "map_option (\<lambda>x. (tx_returnValue x, tx_readSet x)) (read_tx example_tx example_cicada 0) =
     Some ([2], [\<lparr>r_key = 0, r_record = 0, r_laterVer = 4, r_ver = 2\<rparr>])"
proof -
  have c: "version_chain (vers example_cicada) 4 example_chain" by code_simp
  show ?thesis
    by (subst read_chooses_the_visible_version [where t = "hd (c_table example_cicada)" and vs = example_chain and s = "Step Read 0" and ss = "[]"])
      (use c in \<open>simp_all add: example_cicada_def example_tx_def example_chain_def initial_executor_def load_at_def searchWriteSet_tx_def
        searchReadSet_tx_def Step_def visible_def later_than_def aborted_def last_later_def Let_def\<close>)
qed

text \<open>
  C38: The workers run for ever without a fault and never change the table: after \<open>init\<close> on any memory and any number of
  processors, a worker of either thread, its clock later than that of \<open>init\<close> and below 56 bits, makes any number of rounds
  on any steps whose keys are in the table, without an undefined access and without waiting for ever; and every word of the
  table, and every version that was there, is as \<open>init\<close> left it: no transaction of this program has an effect.
\<close>

theorem workers_never_change_the_table:
  assumes "0 < hw" "length tab = TUPLES" "unat c0 < 2 ^ 56" "unat clock < 2 ^ 56" "thr = 0 \<or> thr = 1"
    "\<forall>(ss, now) \<in> set rs. ss \<noteq> [] \<and> (\<forall>s \<in> set ss. unat (key s) < TUPLES) \<and> unat c0 < unat now \<and> unat now < 2 ^ 56"
  shows "\<exists>S0 x1 S1 x S. init_cicada hw c0 raw tab = Some S0 \<and> construct thr clock start raw S0 = Some (x1, S1) \<and>
    worker_rounds raw rs (x1, S1) = Some (x, S) \<and> same_table S0 S"
proof -
  obtain S0 where 0: "init_cicada hw c0 raw tab = Some S0" "fresh_table c0 S0" using init_fresh [OF assms(1,2)] by blast
  obtain x1 S1 where 1: "construct thr clock start raw S0 = Some (x1, S1)" "worker_ready c0 x1" "fresh_table c0 S1" "same_table S0 S1"
    using construct_fresh [OF 0(2) assms(3-5)] by blast
  obtain x S where "worker_rounds raw rs (x1, S1) = Some (x, S)" "same_table S1 S"
    using worker_rounds_fresh [OF 1(3,2) assms(6)] by blast
  then show ?thesis using 0(1) 1(1) same_table_trans [OF 1(4)] by blast
qed

definition example_memory :: "cversion \<times> ctuple list" where
  "example_memory = (\<lparr>v_rts = 7, v_wts = 7, v_next = 7, v_status = Unused, v_value = [7, 7, 7, 7]\<rparr>,
     replicate TUPLES \<lparr>latest_ver = 7, minWts = 7, continuingCommit = 7, gcLock = 7\<rparr>)"

theorem workers_never_change_the_table_witness:
  "\<exists>S0 x1 S1 x S. init_cicada 16 5 (fst example_memory) (snd example_memory) = Some S0 \<and>
    construct 1 6 8 (fst example_memory) S0 = Some (x1, S1) \<and>
    worker_rounds (fst example_memory) [([Step Read 999, Step RMW 3, Step Write 3], 9), ([Step RMW 0], 9)] (x1, S1) = Some (x, S) \<and> same_table S0 S"
  by (rule workers_never_change_the_table) (simp_all add: example_memory_def Step_def)



end
