(* ===== verification/BPTree_Draft.thy ===== *)
theory BPTree_Draft
  imports Prelude
begin


text \<open>
  The draft of a B+ tree in \<^verbatim>\<open>src/bptree/bptree.cpp\<close>, which no target builds. Nodes and their two arrays are separate
  objects of the heap; sizes and indices are 2 to 4 and keys are only compared, so that they are natural numbers; \<open>NULL\<close> of
  an array access, of a pointer or of a value that was never written is \<open>None\<close>, as are failed assertions and recursions that
  do not end. \<open>memcpy\<close> copies bytes, eight to a cell, the lowest first.
\<close>

abbreviation (input) draft_N :: nat where "draft_N \<equiv> 3"
abbreviation (input) draft_INF :: nat where "draft_INF \<equiv> 99999"

section \<open>Nodes\<close>

record draft_node =
  d_size :: nat
  p_body :: addr
  k_body :: addr
  d_parent :: addr
  d_value :: "string option option"

record draft =
  d_nodes :: "addr \<rightharpoonup> draft_node"
  d_pointers :: "addr \<rightharpoonup> addr carray"
  d_keys :: "addr \<rightharpoonup> nat carray"
  d_brk :: addr
  d_root :: addr

definition new_pointers :: "addr carray \<Rightarrow> draft \<Rightarrow> addr \<times> draft" where
  "new_pointers a S = (d_brk S, S\<lparr>d_pointers := (d_pointers S)(d_brk S \<mapsto> a), d_brk := d_brk S + 1\<rparr>)"

definition new_keys :: "nat carray \<Rightarrow> draft \<Rightarrow> addr \<times> draft" where
  "new_keys a S = (d_brk S, S\<lparr>d_keys := (d_keys S)(d_brk S \<mapsto> a), d_brk := d_brk S + 1\<rparr>)"

definition draft_Node :: "nat \<Rightarrow> draft \<Rightarrow> addr \<times> draft" where
  "draft_Node n S =
    (let (p, S) = new_pointers (replicate (n + 1) (Some NULL)) S;
         (k, S) = new_keys (replicate n (Some draft_INF)) S
     in (d_brk S, S\<lparr>d_nodes := (d_nodes S)(d_brk S \<mapsto> \<lparr>d_size = n, p_body = p, k_body = k, d_parent = NULL, d_value = None\<rparr>),
                    d_brk := d_brk S + 1\<rparr>))"

text \<open>The indices of the accessors start at 1.\<close>

definition get_p :: "draft \<Rightarrow> addr \<Rightarrow> nat \<Rightarrow> addr option" where
  "get_p S n i = do { x \<leftarrow> d_nodes S n; a \<leftarrow> d_pointers S (p_body x); if i = 0 then None else rd a (i - 1) }"

definition set_p :: "addr \<Rightarrow> nat \<Rightarrow> addr \<Rightarrow> draft \<Rightarrow> draft option" where
  "set_p n i p S = do { x \<leftarrow> d_nodes S n; a \<leftarrow> d_pointers S (p_body x); a \<leftarrow> (if i = 0 then None else wr a (i - 1) p);
     Some (S\<lparr>d_pointers := (d_pointers S)(p_body x \<mapsto> a)\<rparr>) }"

definition get_k :: "draft \<Rightarrow> addr \<Rightarrow> nat \<Rightarrow> nat option" where
  "get_k S n i = do { x \<leftarrow> d_nodes S n; a \<leftarrow> d_keys S (k_body x); if i = 0 then None else rd a (i - 1) }"

definition set_k :: "addr \<Rightarrow> nat \<Rightarrow> nat \<Rightarrow> draft \<Rightarrow> draft option" where
  "set_k n i k S = do { x \<leftarrow> d_nodes S n; a \<leftarrow> d_keys S (k_body x); a \<leftarrow> (if i = 0 then None else wr a (i - 1) k);
     Some (S\<lparr>d_keys := (d_keys S)(k_body x \<mapsto> a)\<rparr>) }"

definition set_parent_draft :: "addr \<Rightarrow> addr \<Rightarrow> draft \<Rightarrow> draft option" where
  "set_parent_draft n p S = do { x \<leftarrow> d_nodes S n; Some (S\<lparr>d_nodes := (d_nodes S)(n \<mapsto> x\<lparr>d_parent := p\<rparr>)\<rparr>) }"

definition size_of :: "draft \<Rightarrow> addr \<Rightarrow> nat option" where
  "size_of S n = map_option d_size (d_nodes S n)"

text \<open>A loop over the indices \<open>is\<close>.\<close>

fun for_each :: "'i list \<Rightarrow> ('i \<Rightarrow> 's \<Rightarrow> 's option) \<Rightarrow> 's \<Rightarrow> 's option" where
  "for_each [] f s = Some s"
| "for_each (i # is) f s = do { s \<leftarrow> f i s; for_each is f s }"

definition up_k :: "addr \<Rightarrow> nat \<Rightarrow> draft \<Rightarrow> draft option" where
  "up_k n i S = do { k \<leftarrow> get_k S n i; set_k n (i + 1) k S }"

definition up_p :: "addr \<Rightarrow> nat \<Rightarrow> draft \<Rightarrow> draft option" where
  "up_p n i S = do { p \<leftarrow> get_p S n i; set_p n (i + 1) p S }"

definition insert_before_P1 :: "addr \<Rightarrow> addr \<Rightarrow> nat \<Rightarrow> draft \<Rightarrow> draft option" where
  "insert_before_P1 n P K S = do {
     size \<leftarrow> size_of S n;
     S \<leftarrow> for_each (rev [1..<size]) (up_k n) S;
     S \<leftarrow> for_each (rev [1..<size]) (up_p n) S;
     S \<leftarrow> set_p n 1 P S;
     set_k n 1 K S
   }"

text \<open>The comparison with \<open>prev\<close> compares a key with an index.\<close>

definition highest_key_index :: "draft \<Rightarrow> addr \<Rightarrow> nat \<Rightarrow> nat option" where
  "highest_key_index S n K = do {
     size \<leftarrow> size_of S n;
     for_each [1..<size + 1] (\<lambda>i prev. do { k \<leftarrow> get_k S n i; Some (if K \<ge> k \<and> k > prev then i else prev) }) 1
   }"

definition is_not_full :: "draft \<Rightarrow> addr \<Rightarrow> bool option" where
  "is_not_full S n = do { size \<leftarrow> size_of S n; k \<leftarrow> get_k S n size; Some (k = draft_INF) }"

definition has_less_than_n_pointers :: "draft \<Rightarrow> addr \<Rightarrow> bool option" where
  "has_less_than_n_pointers S n = do { size \<leftarrow> size_of S n; p \<leftarrow> get_p S n (size + 1); Some (p = NULL) }"

definition smallest_key :: "draft \<Rightarrow> addr \<Rightarrow> nat option" where
  "smallest_key S n = get_k S n 1"

definition draft_is_leaf :: "draft \<Rightarrow> addr \<Rightarrow> bool option" where
  "draft_is_leaf S n = do { p \<leftarrow> get_p S n 1; x \<leftarrow> d_nodes S p; v \<leftarrow> d_value x; Some (v \<noteq> None) }"

definition erase_p_and_k :: "addr \<Rightarrow> draft \<Rightarrow> draft option" where
  "erase_p_and_k n S = do {
     size \<leftarrow> size_of S n;
     S \<leftarrow> for_each [0..<size + 1] (\<lambda>i. set_p n (i + 1) NULL) S;
     for_each [0..<size] (\<lambda>i. set_k n (i + 1) draft_INF) S
   }"

definition erase_partly :: "addr \<Rightarrow> draft \<Rightarrow> draft option" where
  "erase_partly n S = do { tmp \<leftarrow> get_p S n draft_N; S \<leftarrow> erase_p_and_k n S; set_p n draft_N tmp S }"

text \<open>\<open>memcpy\<close> of \<open>n\<close> bytes; a cell of which only a part is written stays unwritten if it was.\<close>

definition low_bytes :: "nat \<Rightarrow> nat option \<Rightarrow> nat option \<Rightarrow> nat option" where
  "low_bytes m s d = (if m = 8 then s else do { s \<leftarrow> s; d \<leftarrow> d; Some (d div 2 ^ (8 * m) * 2 ^ (8 * m) + s mod 2 ^ (8 * m)) })"

fun copy_bytes :: "nat \<Rightarrow> nat carray \<Rightarrow> nat carray \<Rightarrow> nat carray option" where
  "copy_bytes n ss ds = (if n = 0 then Some ds else case (ss, ds) of
     (s # ss, d # ds) \<Rightarrow> do { ds \<leftarrow> copy_bytes (n - 8) ss ds; Some (low_bytes (min 8 n) s d # ds) }
   | _ \<Rightarrow> None)"

declare copy_bytes.simps [simp del]

definition draft_clone :: "addr \<Rightarrow> draft \<Rightarrow> (addr \<times> draft) option" where
  "draft_clone n S = do {
     let (c, S) = draft_Node (draft_N - 1) S;
     x \<leftarrow> d_nodes S n;
     y \<leftarrow> d_nodes S c;
     p \<leftarrow> d_pointers S (p_body x);
     q \<leftarrow> d_pointers S (p_body y);
     q \<leftarrow> copy_bytes (d_size x + 1) p q;
     k \<leftarrow> d_keys S (k_body x);
     l \<leftarrow> d_keys S (k_body y);
     l \<leftarrow> copy_bytes (d_size x) k l;
     Some (c, S\<lparr>d_pointers := (d_pointers S)(p_body y \<mapsto> q), d_keys := (d_keys S)(k_body y \<mapsto> l),
       d_nodes := (d_nodes S)(c \<mapsto> y\<lparr>d_parent := d_parent x, d_size := d_size x\<rparr>)\<rparr>)
   }"

text \<open>The new arrays are filled, the old ones deleted, and the node keeps the pointers to the old ones.\<close>

definition add_size :: "addr \<Rightarrow> draft \<Rightarrow> draft option" where
  "add_size n S = do {
     x \<leftarrow> d_nodes S n;
     let size = d_size x;
     let (p', S) = new_pointers (new_array (size + 1 + 1)) S;
     let (k', S) = new_keys (new_array (size + 1)) S;
     p \<leftarrow> d_pointers S (p_body x);
     q \<leftarrow> d_pointers S p';
     q \<leftarrow> copy_bytes (size + 1) p q;
     k \<leftarrow> d_keys S (k_body x);
     l \<leftarrow> d_keys S k';
     l \<leftarrow> copy_bytes size k l;
     q \<leftarrow> wr q (size + 1) NULL;
     l \<leftarrow> wr l size draft_INF;
     Some (S\<lparr>d_pointers := ((d_pointers S)(p' \<mapsto> q))(p_body x := None), d_keys := ((d_keys S)(k' \<mapsto> l))(k_body x := None),
       d_nodes := (d_nodes S)(n \<mapsto> x\<lparr>d_size := size + 1\<rparr>)\<rparr>)
   }"

section \<open>The tree\<close>

fun between_keys :: "draft \<Rightarrow> addr \<Rightarrow> nat \<Rightarrow> nat list \<Rightarrow> nat option option" where
  "between_keys S n K [] = Some None"
| "between_keys S n K (i # is) = do {
     a \<leftarrow> get_k S n i;
     if a \<le> K then do { b \<leftarrow> get_k S n (i + 1); if K < b then Some (Some i) else between_keys S n K is }
     else between_keys S n K is
   }"

partial_function (option) search_leaf :: "draft \<Rightarrow> nat \<Rightarrow> addr \<Rightarrow> addr option" where
  "search_leaf S K n = do {
     l \<leftarrow> draft_is_leaf S n;
     if l then Some n
     else do {
       k1 \<leftarrow> get_k S n 1;
       if 0 < K \<and> K < k1 then do { p \<leftarrow> get_p S n 1; search_leaf S K p }
       else do {
         size \<leftarrow> size_of S n;
         b \<leftarrow> between_keys S n K [1..<size];
         if b \<noteq> None then do { p \<leftarrow> get_p S n (the b + 1); search_leaf S K p }
         else do {
           k \<leftarrow> get_k S n size;
           if k < K then do { p \<leftarrow> get_p S n (size + 1); search_leaf S K p } else None
         }
       }
     }
   }"

definition insert_in_leaf :: "addr \<Rightarrow> nat \<Rightarrow> addr \<Rightarrow> draft \<Rightarrow> draft option" where
  "insert_in_leaf L K P S = do {
     k1 \<leftarrow> get_k S L 1;
     if K < k1 then insert_before_P1 L P K S
     else do {
       index \<leftarrow> highest_key_index S L K;
       size \<leftarrow> size_of S L;
       S \<leftarrow> for_each (rev [index + 1..<size]) (up_k L) S;
       S \<leftarrow> for_each (rev [index + 1..<size]) (up_p L) S;
       S \<leftarrow> set_p L (index + 1) P S;
       set_k L (index + 1) K S
     }
   }"

definition copy_entry :: "addr \<Rightarrow> addr \<Rightarrow> nat \<Rightarrow> nat \<Rightarrow> draft \<Rightarrow> draft option" where
  "copy_entry to from off i S = do {
     p \<leftarrow> get_p S from i;
     S \<leftarrow> set_p to (i - off) p S;
     k \<leftarrow> get_k S from i;
     set_k to (i - off) k S
   }"

text \<open>The two branches of \<open>insert_in_parent\<close> below the root; \<open>(N + 1) / 2\<close> and \<open>N / 2\<close> are divisions of integers.\<close>

definition into_parent :: "addr \<Rightarrow> nat \<Rightarrow> addr \<Rightarrow> draft \<Rightarrow> draft option" where
  "into_parent P K N' S = do {
     index \<leftarrow> highest_key_index S P K;
     size \<leftarrow> size_of S P;
     S \<leftarrow> for_each (rev [index + 1..<size]) (up_k P) S;
     S \<leftarrow> for_each (rev [index + 2..<size + 1]) (up_p P) S;
     S \<leftarrow> set_k P (index + 1) K S;
     S \<leftarrow> set_p P (index + 2) N' S;
     set_parent_draft N' P S
   }"

definition split_parent :: "addr \<Rightarrow> nat \<Rightarrow> addr \<Rightarrow> draft \<Rightarrow> (nat \<times> addr \<times> draft) option" where
  "split_parent P K N' S = do {
     (T, S) \<leftarrow> draft_clone P S;
     S \<leftarrow> add_size T S;
     index \<leftarrow> highest_key_index S T K;
     size \<leftarrow> size_of S T;
     S \<leftarrow> for_each [index + 1..<size] (up_k T) S;
     S \<leftarrow> for_each [index + 2..<size] (up_p T) S;
     S \<leftarrow> set_k T (index + 1) K S;
     S \<leftarrow> set_p T (index + 2) N' S;
     S \<leftarrow> set_parent_draft N' T S;
     S \<leftarrow> erase_p_and_k P S;
     let (P', S) = draft_Node (draft_N - 1) S;
     let h = (draft_N + 1) div 2;
     S \<leftarrow> for_each [1..<h] (copy_entry P T 0) S;
     p \<leftarrow> get_p S T h;
     S \<leftarrow> set_p P h p S;
     K' \<leftarrow> get_k S T h;
     S \<leftarrow> for_each [h + 1..<draft_N + 1] (copy_entry P' T h) S;
     p \<leftarrow> get_p S T (draft_N + 1);
     S \<leftarrow> set_p P' (draft_N + 1 - h) p S;
     Some (K', P', S)
   }"

partial_function (option) insert_in_parent_draft :: "addr \<Rightarrow> nat \<Rightarrow> addr \<Rightarrow> draft \<Rightarrow> draft option" where
  "insert_in_parent_draft n K N' S =
    (if n = d_root S then do {
       let (R, S) = draft_Node (draft_N - 1) S;
       S \<leftarrow> set_p R 1 n S;
       S \<leftarrow> set_parent_draft n R S;
       S \<leftarrow> set_k R 1 K S;
       S \<leftarrow> set_p R 2 N' S;
       S \<leftarrow> set_parent_draft N' R S;
       Some (S\<lparr>d_root := R\<rparr>)
     }
     else do {
       x \<leftarrow> d_nodes S n;
       let P = d_parent x;
       l \<leftarrow> has_less_than_n_pointers S P;
       if l then into_parent P K N' S
       else do {
         (K', P', S) \<leftarrow> split_parent P K N' S;
         insert_in_parent_draft P K' P' S
       }
     })"

definition split_draft_leaf :: "addr \<Rightarrow> nat \<Rightarrow> addr \<Rightarrow> draft \<Rightarrow> draft option" where
  "split_draft_leaf L K P S = do {
     let (L', S) = draft_Node (draft_N - 1) S;
     (T, S) \<leftarrow> draft_clone L S;
     S \<leftarrow> add_size T S;
     S \<leftarrow> insert_in_leaf T K P S;
     p \<leftarrow> get_p S L draft_N;
     S \<leftarrow> set_p L' draft_N p S;
     S \<leftarrow> set_p L draft_N L' S;
     S \<leftarrow> erase_partly L S;
     let h = draft_N div 2;
     S \<leftarrow> for_each [1..<h + 1] (copy_entry L T 0) S;
     S \<leftarrow> for_each [h + 1..<draft_N + 1] (copy_entry L' T h) S;
     K' \<leftarrow> smallest_key S L';
     insert_in_parent_draft L K' L' S
   }"

definition draft_insert :: "nat \<Rightarrow> addr \<Rightarrow> draft \<Rightarrow> draft option" where
  "draft_insert K P S = do {
     (L, S) \<leftarrow> (if d_root S = NULL then (let (L, S) = draft_Node (draft_N - 1) S in Some (L, S\<lparr>d_root := L\<rparr>))
       else do { L \<leftarrow> search_leaf S K (d_root S); Some (L, S) });
     nf \<leftarrow> is_not_full S L;
     if nf then insert_in_leaf L K P S else split_draft_leaf L K P S
   }"

section \<open>The program\<close>

definition draft_start :: draft where
  "draft_start = \<lparr>d_nodes = Map.empty, d_pointers = Map.empty, d_keys = Map.empty, d_brk = 1, d_root = NULL\<rparr>"

definition value_node :: "string \<Rightarrow> draft \<Rightarrow> addr \<times> draft" where
  "value_node v S =
    (let (n, S) = draft_Node (draft_N - 1) S
     in (n, S\<lparr>d_nodes := (d_nodes S)(n := map_option (\<lambda>x. x\<lparr>d_value := Some (Some v)\<rparr>) (d_nodes S n))\<rparr>))"

definition draft_main :: "draft option" where
  "draft_main =
    (let (dog, S) = value_node ''dog'' draft_start; (cat, S) = value_node ''cat'' S;
         (wolf, S) = value_node ''wolf'' S; (god, S) = value_node ''god'' S
     in do {
       S \<leftarrow> draft_insert 3 dog S;
       S \<leftarrow> draft_insert 2 cat S;
       S \<leftarrow> draft_insert 5 wolf S;
       draft_insert 4 dog S
     })"

declare search_leaf.simps [code] insert_in_parent_draft.simps [code]

end
