(* ===== verification/BPTree_Draft_Props.thy ===== *)
theory BPTree_Draft_Props
  imports BPTree_Draft
begin


text \<open>
  The properties of the draft: a tree takes two keys, and the third insertion uses arrays that were deleted.
\<close>

text \<open>\<open>add_size\<close> leaves the node without arrays.\<close>

lemma add_size_dangling: "add_size T S = Some S' \<Longrightarrow> get_k S' T i = None"
  by (auto simp: add_size_def get_k_def new_pointers_def new_keys_def Let_def split: bind_splits)

lemma split_faults: "split_draft_leaf L K P S = None"
  by (auto simp: split_draft_leaf_def insert_in_leaf_def add_size_dangling split: bind_splits prod.splits)

lemma split_parent_faults: "split_parent P K N' S = None"
proof -
  have "highest_key_index S' T K = None" if "add_size T S0 = Some S'" "size_of S' T = Some n" "0 < n" for S0 S' T n
  proof -
    have "[1..<n + 1] = 1 # [Suc 1..<n + 1]" using that(3) by (intro upt_conv_Cons) simp
    then show ?thesis using that by (simp add: highest_key_index_def add_size_dangling del: upt_Suc)
  qed
  moreover have "\<exists>n. size_of S' T = Some (Suc n)" if "add_size T S0 = Some S'" for S0 S' T
    using that by (auto simp: add_size_def size_of_def new_pointers_def new_keys_def Let_def split: bind_splits)
  ultimately show ?thesis by (fastforce simp: split_parent_def split: bind_splits prod.splits)
qed


text \<open>A leaf with the given keys and pointers as the root.\<close>

definition root_leaf :: "draft \<Rightarrow> nat list \<Rightarrow> addr list \<Rightarrow> bool" where
  "root_leaf S ks ps \<longleftrightarrow> d_root S \<noteq> NULL \<and> (\<exists>x. d_nodes S (d_root S) = Some x \<and> d_size x = 2 \<and>
     d_keys S (k_body x) = Some (map Some ks) \<and> d_pointers S (p_body x) = Some (map Some ps))"

lemma upt_12: "[Suc 0..<2] = [1]" "[Suc 0..<3] = [1, 2]" "[2..<2] = []"
  by (simp_all add: upt_rec)

lemmas access_defs = get_p_def set_p_def get_k_def set_k_def size_of_def rd_def wr_def up_k_def up_p_def

lemma insert_first:
  assumes "d_root S = NULL" "0 < d_brk S" "K < draft_INF" "d_nodes S P = Some x" "P < d_brk S" 
  shows "\<exists>S'. draft_insert K P S = Some S' \<and> root_leaf S' [K, draft_INF] [P, NULL, NULL] \<and> (\<forall>q. q < d_brk S \<longrightarrow> d_nodes S' q = d_nodes S q)"
  using assms by (auto simp: draft_insert_def draft_Node_def new_pointers_def new_keys_def Let_def is_not_full_def insert_in_leaf_def
      insert_before_P1_def access_defs upt_12 root_leaf_def numeral_2_eq_2 numeral_3_eq_3)

lemma insert_second:
  assumes "root_leaf S [K1, draft_INF] [P1, NULL, NULL]" "K < draft_INF" "d_nodes S P1 = Some x" "d_value x = Some (Some v)"
  shows "\<exists>S'. draft_insert K P S = Some S' \<and> d_nodes S' = d_nodes S \<and>
    (if K < K1 then root_leaf S' [K, K1] [P, P1, NULL] else root_leaf S' [K1, K] [P1, P, NULL])"
proof -
  obtain y where y: "d_root S \<noteq> NULL" "d_nodes S (d_root S) = Some y" "d_size y = 2" "d_keys S (k_body y) = Some [Some K1, Some draft_INF]"
    "d_pointers S (p_body y) = Some [Some P1, Some NULL, Some NULL]" using assms(1) by (auto simp: root_leaf_def)
  have "draft_is_leaf S (d_root S) = Some True" using y assms(3,4) by (simp add: draft_is_leaf_def access_defs)
  then have s: "search_leaf S K (d_root S) = Some (d_root S)" by (subst search_leaf.simps) simp
  show ?thesis using y assms(2) s
    by (simp add: draft_insert_def is_not_full_def insert_in_leaf_def insert_before_P1_def highest_key_index_def access_defs upt_12 root_leaf_def numeral_2_eq_2 numeral_3_eq_3)
qed

lemma insert_third:
  assumes "root_leaf S [K1, K2] [P1, P2, NULL]" "K2 < draft_INF" "d_nodes S P1 = Some x" "d_value x = Some (Some v)"
  shows "draft_insert K P S = None"
proof -
  obtain y where y: "d_root S \<noteq> NULL" "d_nodes S (d_root S) = Some y" "d_size y = 2" "d_keys S (k_body y) = Some [Some K1, Some K2]"
    "d_pointers S (p_body y) = Some [Some P1, Some P2, Some NULL]" using assms(1) by (auto simp: root_leaf_def)
  have "draft_is_leaf S (d_root S) = Some True" using y assms(3,4) by (simp add: draft_is_leaf_def access_defs)
  then have s: "search_leaf S K (d_root S) = Some (d_root S)" by (subst search_leaf.simps) simp
  show ?thesis using y assms(2) s by (simp add: draft_insert_def is_not_full_def access_defs split_faults)
qed

lemma two_keys:
  assumes "d_root S = NULL" "0 < d_brk S" "K1 < draft_INF" "K2 < draft_INF" "P1 < d_brk S" "P2 < d_brk S"
    "d_nodes S P1 = Some x1" "d_value x1 = Some (Some v1)" "d_nodes S P2 = Some x2" "d_value x2 = Some (Some v2)"
  shows "\<exists>S1 S2. draft_insert K1 P1 S = Some S1 \<and> draft_insert K2 P2 S1 = Some S2 \<and>
    root_leaf S2 [min K1 K2, max K1 K2] (if K2 < K1 then [P2, P1, NULL] else [P1, P2, NULL]) \<and>
    (\<forall>K P. draft_insert K P S2 = None)"
proof -
  obtain S1 where 1: "draft_insert K1 P1 S = Some S1" "root_leaf S1 [K1, draft_INF] [P1, NULL, NULL]" "\<And>q. q < d_brk S \<Longrightarrow> d_nodes S1 q = d_nodes S q"
    using insert_first [OF assms(1-3,7,5)] by blast
  have p: "d_nodes S1 P1 = Some x1" "d_nodes S1 P2 = Some x2" using 1(3) assms by auto
  obtain S2 where 2: "draft_insert K2 P2 S1 = Some S2" "d_nodes S2 = d_nodes S1"
    "if K2 < K1 then root_leaf S2 [K2, K1] [P2, P1, NULL] else root_leaf S2 [K1, K2] [P1, P2, NULL]"
    using insert_second [OF 1(2) assms(4) p(1) assms(8)] by blast
  have "draft_insert K P S2 = None" for K P
    by (cases "K2 < K1") (use 2 p assms insert_third [of S2 K2 K1 P2 P1 x2 v2 K P] insert_third [of S2 K1 K2 P1 P2 x1 v1 K P] in simp_all)
  then show ?thesis using 1(1) 2(1,3) by (cases "K2 < K1") auto
qed

text \<open>
  C40: The draft keeps two keys and no more: into an empty tree two insertions of any keys below \<open>INF\<close>, with value nodes that
  hold a value, leave a leaf with the keys in order, each with its value node; but every further insertion, of any key,
  is undefined, since \<open>add_size\<close> gives the copied leaf the deleted arrays and not the new ones.
\<close>

theorem draft_tree_holds_two_keys:
  assumes "d_root S = NULL" "0 < d_brk S" "K1 < draft_INF" "K2 < draft_INF" "P1 < d_brk S" "P2 < d_brk S"
    "d_nodes S P1 = Some x1" "d_value x1 = Some (Some v1)" "d_nodes S P2 = Some x2" "d_value x2 = Some (Some v2)"
  shows "\<exists>S1 S2. draft_insert K1 P1 S = Some S1 \<and> draft_insert K2 P2 S1 = Some S2 \<and>
    root_leaf S2 [min K1 K2, max K1 K2] (if K2 < K1 then [P2, P1, NULL] else [P1, P2, NULL]) \<and>
    (\<forall>K P. draft_insert K P S2 = None)"
  by (rule two_keys) (fact assms)+

text \<open>The four value nodes of \<open>main\<close>.\<close>

definition draft_values :: draft where
  "draft_values = snd (value_node ''god'' (snd (value_node ''wolf'' (snd (value_node ''cat'' (snd (value_node ''dog'' draft_start)))))))"

lemmas value_defs = draft_values_def value_node_def draft_start_def draft_Node_def new_pointers_def new_keys_def

theorem draft_tree_holds_two_keys_witness:
  "\<exists>S1 S2. draft_insert 3 3 draft_values = Some S1 \<and> draft_insert 2 6 S1 = Some S2 \<and>
    root_leaf S2 [min 3 2, max 3 2] (if 2 < (3 :: nat) then [6, 3, NULL] else [3, 6, NULL]) \<and> (\<forall>K P. draft_insert K P S2 = None)"
  by (rule draft_tree_holds_two_keys [where ?x1.0 = "the (d_nodes draft_values 3)" and ?x2.0 = "the (d_nodes draft_values 6)"
      and ?v1.0 = "''dog''" and ?v2.0 = "''cat''"]) (simp_all add: value_defs)

text \<open>So \<open>main\<close> is undefined from its third insertion on.\<close>

lemma draft_main_faults: "draft_main = None"
proof -
  have a: "fst (value_node ''dog'' draft_start) = 3" "fst (value_node ''cat'' (snd (value_node ''dog'' draft_start))) = 6"
    by (simp_all add: value_defs)
  obtain S1 S2 where "draft_insert 3 3 draft_values = Some S1" "draft_insert 2 6 S1 = Some S2" "\<And>K P. draft_insert K P S2 = None"
    using two_keys [of draft_values 3 2 3 6 "the (d_nodes draft_values 3)" "''dog''" "the (d_nodes draft_values 6)" "''cat''"]
    by (auto simp: value_defs)
  then show ?thesis by (simp add: draft_main_def Let_def split_def a flip: draft_values_def)
qed

end
