(* ===== verification/Spec2Isabelle.thy ===== *)
theory Spec2Isabelle
  imports BPTree_Props BPTree_Repl_Props Common_Props Silo_Props Silo_Serial_Props PrimaryTree_Props KVSilo_Props KVSilo_Client Masstree_Props Cicada_Props BPTree_Draft_Props
begin

text \<open>
  Verification development for \<^verbatim>\<open>transaction-system\<close>, a collection of studies of in-memory transaction systems: a
  B+ tree in C, the Silo concurrency control on a table, a key-value store that joins the two, a Masstree, and a draft of
  Cicada. The parts share only the helpers of \<^verbatim>\<open>src/common\<close>.

  \<^bold>\<open>Conventions.\<close> Data are as in the code: structs and classes are records, enumerations datatypes, machine integers are
  words where their width matters (TID words, versions, slices, the random generator) and bounded or unbounded integers
  otherwise, pointers are numbers with \<open>NULL = 0\<close>, and memory is an explicit heap. An operation that may not return normally
  has an \<open>option\<close> result: \<open>None\<close> is every undefined behaviour (an access outside an array, through a null or dangling
  pointer, of a cell that was never written), a failed assertion, an exit on a failed allocation and a loop that does not
  end; loops that may not end are \<open>partial_function (option)\<close>, so that every theorem with a result \<open>Some\<close> states
  termination too. Concurrent code is a step relation over the shared memory and the workers' local states, with one step
  for each access to a shared word or byte: the interleavings of a sequentially consistent memory (the code's orders of
  atomic accesses are at least as strong where the theorems need them; \<open>memcpy\<close> copies bytes in ascending order).
  What is not under \<^verbatim>\<open>src\<close> or is not determined by it is a parameter or an arbitrary choice of a step: the zipf distribution,
  the number of processors, the clock, the element a concurrent queue hands out, the worker that gets a query.

  \<^bold>\<open>The B+ tree, \<^verbatim>\<open>src/bptree/main.c\<close>.\<close> \<open>BPTree\<close> has its nodes and operations, function by function, on arrays
  that may hold uninitialised cells; \<open>BPTree_Abs\<close> relates the heap to a tree of lists by contexts, \<open>BPTree_Loops\<close> turns the
  array loops into list operations, \<open>BPTree_Find\<close>, \<open>BPTree_Insert\<close> and \<open>BPTree_Delete\<close> show that search, insertion (with the
  splits of leaves and inner nodes up to a new root) and deletion (merges, four rotations, the shrinking root) refine lookup,
  update and removal of a finite map, keep the whole invariant \<open>is_map\<close> (order, occupancy, depth, parent pointers, chain of
  leaves, nothing lost) and never fail. \<open>Map_Store\<close> states the contract as locales, \<open>BPTree_Map\<close> interprets them;
  \<open>BPTree_Scan\<close> has the chain of leaves, ranges, destruction and the path to the root. \<open>BPTree_Print\<close> and \<open>BPTree_Levels\<close>
  model \<open>print_tree\<close> with its queue in the \<open>next\<close> fields and show that it prints the levels; \<open>BPTree_Repl\<close> models \<open>main\<close>:
  arguments, input file, \<open>scanf\<close>, the command loop on the characters of the input; \<open>BPTree_Session\<close> specifies a session over
  a finite map and shows that the program refines it. Properties: \<open>BPTree_Props\<close>, \<open>BPTree_Repl_Props\<close>. \<open>BPTree_Draft\<close>
  models the draft \<^verbatim>\<open>bptree.cpp\<close>, which no target builds; \<open>BPTree_Draft_Props\<close> shows that it can keep two keys only.

  \<^bold>\<open>Shared helpers, \<^verbatim>\<open>src/common\<close>.\<close> \<open>Common\<close> models the random generator, the generation of steps, the table partition and
  the clock comparison; \<open>Common_Props\<close> has their properties.

  \<^bold>\<open>Silo, \<^verbatim>\<open>src/silo\<close>.\<close> \<open>TidWord\<close> models the union of a 64-bit word and its bit fields (\<^verbatim>\<open>tuple.h\<close>); \<open>Runs\<close> the reachable
  states of a step relation and, as a locale, the induction over them; \<open>Silo\<close> the executor of \<^verbatim>\<open>txn_executor.cpp\<close>, the
  epochs of \<^verbatim>\<open>epoch.h\<close> and the worker and start-up of \<^verbatim>\<open>main.cpp\<close> as one machine. The invariants are proved in layers:
  \<open>Silo_Local\<close> (each worker's own sets), \<open>Silo_Locks\<close> (lock bits and owners), \<open>Silo_Versions\<close> (versions grow, validated reads
  are current; under the assumption that no counter wraps), \<open>Silo_History\<close> (runs with the transactions they commit, serial
  execution) and \<open>Silo_Serial\<close> (strict serializability, stated in \<open>Silo_Serial_Props\<close>), \<open>Silo_Epochs\<close> (the distance of the epochs); \<open>Silo_Example\<close> builds
  the runs to which \<open>Silo_Props\<close> applies the properties. The memory of the workers' epochs, which the code never
  initialises, is assumed to be cleared.

  \<^bold>\<open>The key-value store, \<^verbatim>\<open>src/kvsilo\<close>.\<close> \<open>PrimaryTree\<close> models the tree of \<^verbatim>\<open>primary_tree.cpp\<close>, \<open>PrimaryTree_Props\<close> shows that
  its insertion is that of \<^verbatim>\<open>main.c\<close> at order 4 (with automatic arrays in place of allocated ones) and so refines a map.
  \<open>KVSilo\<close> has the transactions, workers, leader, logger and the database as one machine; a query is a tree of its calls of
  \<open>read\<close> and \<open>write\<close>. \<open>KVSilo_Locks\<close> has the lock invariant, \<open>KVSilo_Solo\<close> what a query does alone, \<open>KVSilo_Runs\<close> the
  invariant of the database and the accounting of queries; \<open>KVSilo_Props\<close> the properties, among them an update lost by two workers. \<open>KVSilo_Serial\<close> follows a single worker through its
  query and shows by induction over the events that the committed queries are a serial execution; \<open>KVSilo_Client\<close> models
  the client program \<^verbatim>\<open>main.cpp\<close>, with its threads' queries as steps, and states what it leaves in the store.

  \<^bold>\<open>Masstree, \<^verbatim>\<open>src/masstree\<close>.\<close> \<open>Masstree\<close> has keys, version words, nodes, \<open>get\<close> and \<open>write\<close>, \<open>Masstree_Insert\<close> insertion and the
  splits; the code has no atomic accesses, so that it is the program of one thread. \<open>Masstree_Map\<close> shows that one border node
  is a map (the contract \<open>bounded_map_store\<close>) and that a new tree answers for a long key; \<open>Masstree_Props\<close> has the sample
  trees and the properties, among them that splits lose keys.

  \<^bold>\<open>Cicada, \<^verbatim>\<open>src/cicada\<close>.\<close> \<open>Cicada\<close> models the draft as far as it is written: time stamps, versions on a heap, tuples, the
  executor's \<open>begin\<close>, \<open>read\<close>, \<open>write\<close>, early abort and garbage collection, the leader, \<open>init\<close> and the worker's loop; \<open>abort\<close>,
  \<open>validation\<close> and \<open>writePhase\<close> are \<open>ERR\<close> and not called. Parameters are the clock, the number of processors, what the
  allocated memory holds and the steps of a round. Each worker is modelled alone: no thread writes a word of the table after
  \<open>init\<close>, and the leader's flags are never set. \<open>Cicada_Props\<close> shows which version a read chooses, that time stamps are unique
  and grow, that the workers run without a fault and never change the table, and that an early abort undoes a round.

  \<^bold>\<open>Not modelled.\<close> Output texts, the verbose output (addresses), the creation and joining of threads, sleeping, and the measuring and printing
  of results: they do not change the modelled state. \<^verbatim>\<open>zip_fian.h\<close> computes with floating point numbers and is a parameter.
  \<^verbatim>\<open>verify.h\<close> has static assertions only, \<^verbatim>\<open>src/ss2pl\<close> prints one line.
\<close>

end
